(* ===== verification/Prelude.thy ===== *)
theory Prelude
  imports Main "HOL-Library.Word"
begin

text \<open>
  Shared vocabulary of the development.

  \<^item> machine integers of the Rust sources (\<open>u8\<close> to \<open>u64\<close>) as words; \<open>usize\<close> as \<open>nat\<close>
    (every \<open>usize\<close> of the sources is a length, an index or a sum of lengths of
    buffers that fit in memory; the bounds are proved where the sources add them up);
  \<^item> Rust's checked, saturating and wrapping integer operations;
  \<^item> \<open>Result\<close> as a sum type, \<open>Inl\<close> the error, with the combinators the sources use;
  \<^item> fixed-capacity vectors, strings and deques as lists: the capacity is the const
    generic of the Rust type and is an argument of every operation that can overflow;
  \<^item> time stamps: \<open>Instant\<close> and \<open>Duration\<close> are 64-bit tick counters, while the tick rate
    is a parameter (\<open>time_driver\<close>), since the sources leave it to the time driver.
\<close>

named_theorems err_simps \<open>unfolding of the Result combinators\<close>
named_theorems vec_simps \<open>bounded containers\<close>

section \<open>Machine integers\<close>

type_synonym u8 = "8 word"
type_synonym u16 = "16 word"
type_synonym u32 = "32 word"
type_synonym u64 = "64 word"
type_synonym byte = "8 word"
type_synonym bytes = "byte list"

definition saturating_add :: "'a::len word \<Rightarrow> 'a word \<Rightarrow> 'a word" where
  "saturating_add a b = (if unat a + unat b < 2 ^ LENGTH('a) then a + b else - 1)"

definition saturating_sub :: "'a::len word \<Rightarrow> 'a word \<Rightarrow> 'a word" where
  "saturating_sub a b = (if b \<le> a then a - b else 0)"

definition saturating_mul :: "'a::len word \<Rightarrow> 'a word \<Rightarrow> 'a word" where
  "saturating_mul a b = (if unat a * unat b < 2 ^ LENGTH('a) then a * b else - 1)"

definition checked_add :: "'a::len word \<Rightarrow> 'a word \<Rightarrow> 'a word option" where
  "checked_add a b = (if unat a + unat b < 2 ^ LENGTH('a) then Some (a + b) else None)"

lemma unat_minus_1: "unat (- 1 :: 'a::len word) = 2 ^ LENGTH('a) - 1"
  by (simp add: unsigned_minus_1_eq_mask mask_eq_exp_minus_1)

text \<open>For evaluation the comparisons are on integers.\<close>

lemma words_code [code]:
  "saturating_add a b = (if uint a + uint b < 2 ^ LENGTH('a) then a + b else - 1)"
  "saturating_mul a b = (if uint a * uint b < 2 ^ LENGTH('a) then a * b else - 1)"
  "checked_add a b = (if uint a + uint b < 2 ^ LENGTH('a) then Some (a + b) else None)"
  for a b :: "'a::len word"
proof -
  have "uint a + uint b < 2 ^ LENGTH('a) \<longleftrightarrow> unat a + unat b < 2 ^ LENGTH('a)"
    using of_nat_less_iff [of "unat a + unat b" "2 ^ LENGTH('a)", where 'a = int] by simp
  moreover have "uint a * uint b < 2 ^ LENGTH('a) \<longleftrightarrow> unat a * unat b < 2 ^ LENGTH('a)"
    using of_nat_less_iff [of "unat a * unat b" "2 ^ LENGTH('a)", where 'a = int] by simp
  ultimately show
    "saturating_add a b = (if uint a + uint b < 2 ^ LENGTH('a) then a + b else - 1)"
    "saturating_mul a b = (if uint a * uint b < 2 ^ LENGTH('a) then a * b else - 1)"
    "checked_add a b = (if uint a + uint b < 2 ^ LENGTH('a) then Some (a + b) else None)"
    by (simp_all add: saturating_add_def saturating_mul_def checked_add_def)
qed

lemma unat_saturating_add:
  "unat (saturating_add a b) = min (unat a + unat b) (2 ^ LENGTH('a) - 1)"
  for a b :: "'a::len word"
  by (auto simp: saturating_add_def unat_minus_1 unat_word_ariths min_def)

lemma unat_saturating_mul:
  "unat (saturating_mul a b) = min (unat a * unat b) (2 ^ LENGTH('a) - 1)"
  for a b :: "'a::len word"
proof (cases "unat a * unat b < 2 ^ LENGTH('a)")
  case True
  then show ?thesis
    by (simp add: saturating_mul_def unat_word_ariths min_absorb1)
qed (simp add: saturating_mul_def unat_minus_1 min_absorb2)

lemma unat_saturating_sub: "unat (saturating_sub a b) = unat a - unat b"
  by (auto simp: saturating_sub_def unat_sub word_le_nat_alt)

lemma checked_add_1_None:
  assumes "checked_add (a :: 'a::len word) 1 = None"
  shows "a = - 1"
proof -
  have "unat a < 2 ^ LENGTH('a)" by (rule unsigned_less)
  moreover have "\<not> unat a + 1 < 2 ^ LENGTH('a)" using assms by (simp add: checked_add_def split: if_splits)
  ultimately have "unat a = 2 ^ LENGTH('a) - 1" by linarith
  then show ?thesis by (simp add: word_unat_eq_iff unat_minus_1)
qed

lemma checked_add_SomeD: "checked_add a b = Some c \<Longrightarrow> c = a + b \<and> unat c = unat a + unat b"
  by (auto simp: checked_add_def unat_word_ariths split: if_splits)

lemma unat_Suc_if: "a \<noteq> - 1 \<Longrightarrow> unat (a + 1) = Suc (unat a)" for a :: "'a::len word"
  by (metis add.commute unatSuc add_eq_0_iff)

section \<open>Results\<close>

definition map_err :: "('e \<Rightarrow> 'f) \<Rightarrow> 'e + 'a \<Rightarrow> 'f + 'a" where
  [err_simps]: "map_err f r = (case r of Inl e \<Rightarrow> Inl (f e) | Inr x \<Rightarrow> Inr x)"

definition ok_or :: "'e \<Rightarrow> 'a option \<Rightarrow> 'e + 'a" where
  [err_simps]: "ok_or e x = (case x of None \<Rightarrow> Inl e | Some v \<Rightarrow> Inr v)"

definition and_then :: "'e + 'a \<Rightarrow> ('a \<Rightarrow> 'e + 'b) \<Rightarrow> 'e + 'b" where
  [err_simps]: "and_then r f = (case r of Inl e \<Rightarrow> Inl e | Inr x \<Rightarrow> f x)"

primrec try_each :: "('a \<Rightarrow> 'e + unit) \<Rightarrow> 'a list \<Rightarrow> 'e + unit" where
  "try_each f [] = Inr ()"
| "try_each f (x # xs) = (case f x of Inl e \<Rightarrow> Inl e | Inr _ \<Rightarrow> try_each f xs)"

lemma map_err_simps [simp]: "map_err f (Inl e) = Inl (f e)" "map_err f (Inr x) = Inr x"
  by (simp_all add: map_err_def)

lemma ok_or_simps [simp]: "ok_or e None = Inl e" "ok_or e (Some x) = Inr x"
  by (simp_all add: ok_or_def)

lemma and_then_simps [simp]: "and_then (Inl e) f = Inl e" "and_then (Inr x) f = f x"
  by (simp_all add: and_then_def)

lemma map_err_eq_Inr [simp]: "map_err f r = Inr x \<longleftrightarrow> r = Inr x"
  by (cases r) auto

lemma ok_or_eq_Inr [simp]: "ok_or e r = Inr x \<longleftrightarrow> r = Some x"
  by (cases r) auto

lemma ok_or_eq_Inl [simp]: "ok_or e r = Inl x \<longleftrightarrow> r = None \<and> x = e"
  by (cases r) auto

lemma and_then_eq_Inr: "and_then r f = Inr y \<longleftrightarrow> (\<exists>x. r = Inr x \<and> f x = Inr y)"
  by (cases r) auto

lemma try_each_ok: "try_each f xs = Inr u \<longleftrightarrow> (\<forall>x\<in>set xs. f x = Inr ())"
  by (induction xs) (auto split: sum.splits)

section \<open>Bounded containers\<close>

definition vec_push :: "nat \<Rightarrow> 'a \<Rightarrow> 'a list \<Rightarrow> 'a list option" where
  "vec_push cap x xs = (if length xs < cap then Some (xs @ [x]) else None)"

definition from_slice :: "nat \<Rightarrow> 'a list \<Rightarrow> 'a list option" where
  "from_slice cap xs = (if length xs \<le> cap then Some xs else None)"

definition push_or_drop :: "nat \<Rightarrow> 'a \<Rightarrow> 'a list \<Rightarrow> 'a list" where
  "push_or_drop cap x xs = (case vec_push cap x xs of None \<Rightarrow> xs | Some ys \<Rightarrow> ys)"

definition remove_at :: "nat \<Rightarrow> 'a list \<Rightarrow> 'a list" where
  "remove_at i xs = take i xs @ drop (Suc i) xs"

primrec position :: "('a \<Rightarrow> bool) \<Rightarrow> 'a list \<Rightarrow> nat option" where
  "position P [] = None"
| "position P (x # xs) = (if P x then Some 0 else map_option Suc (position P xs))"

definition slice :: "nat \<Rightarrow> nat \<Rightarrow> 'a list \<Rightarrow> 'a list" where
  "slice lo hi xs = take (hi - lo) (drop lo xs)"

definition look :: "('s \<Rightarrow> 'a option) \<Rightarrow> 's list \<Rightarrow> nat \<Rightarrow> 'a option" where
  "look get xs i = (if i < length xs then get (xs ! i) else None)"

lemma from_slice_eq_Some [simp]: "from_slice n xs = Some ys \<longleftrightarrow> ys = xs \<and> length xs \<le> n"
  by (auto simp: from_slice_def)

lemma from_slice_eq_None: "from_slice n xs = None \<longleftrightarrow> n < length xs"
  by (auto simp: from_slice_def)

lemma from_slice_simps [simp]:
  "length xs \<le> n \<Longrightarrow> from_slice n xs = Some xs"
  "n < length xs \<Longrightarrow> from_slice n xs = None"
  by (auto simp: from_slice_def)

lemma vec_push_eq_Some [simp]:
  "vec_push n x xs = Some ys \<longleftrightarrow> ys = xs @ [x] \<and> length xs < n"
  by (auto simp: vec_push_def)

lemma vec_push_eq_None: "vec_push n x xs = None \<longleftrightarrow> n \<le> length xs"
  by (auto simp: vec_push_def)

lemma vec_push_simps [simp]:
  "length xs < n \<Longrightarrow> vec_push n x xs = Some (xs @ [x])"
  "n \<le> length xs \<Longrightarrow> vec_push n x xs = None"
  by (auto simp: vec_push_def)

lemma push_or_drop_simps [vec_simps]:
  "length xs < n \<Longrightarrow> push_or_drop n x xs = xs @ [x]"
  "n \<le> length xs \<Longrightarrow> push_or_drop n x xs = xs"
  by (auto simp: push_or_drop_def vec_push_def)

lemma length_push_or_drop: "length xs \<le> n \<Longrightarrow> length (push_or_drop n x xs) \<le> n"
  by (auto simp: push_or_drop_def vec_push_def)

lemma position_None: "position P xs = None \<longleftrightarrow> (\<forall>x\<in>set xs. \<not> P x)"
  by (induction xs) auto

lemma position_SomeD:
  "position P xs = Some i \<Longrightarrow> i < length xs \<and> P (xs ! i) \<and> (\<forall>j<i. \<not> P (xs ! j))"
proof (induction xs arbitrary: i)
  case (Cons x xs)
  then show ?case
    by (auto split: if_splits simp: nth_Cons' less_Suc_eq_0_disj gr0_conv_Suc)
qed simp

lemma position_append:
  "\<forall>x\<in>set xs. \<not> P x \<Longrightarrow> position P (xs @ ys) = map_option ((+) (length xs)) (position P ys)"
  by (induction xs) (cases "position P ys"; simp)+

lemma position_ex: "x \<in> set xs \<Longrightarrow> P x \<Longrightarrow> \<exists>i. position P xs = Some i"
  using position_None [of P xs] by (cases "position P xs") auto

lemma length_remove_at [simp]: "i < length xs \<Longrightarrow> length (remove_at i xs) = length xs - 1"
  by (simp add: remove_at_def)

lemma set_remove_at_subset: "set (remove_at i xs) \<subseteq> set xs"
  by (auto simp: remove_at_def dest: in_set_takeD in_set_dropD)

lemma split_at_nth: "i < length xs \<Longrightarrow> xs = take i xs @ xs ! i # drop (Suc i) xs"
  by (simp add: id_take_nth_drop)

lemma remove_at_split: "remove_at (length ys) (ys @ x # zs) = ys @ zs"
  by (simp add: remove_at_def)

lemma position_split:
  assumes "position P xs = Some i"
  obtains ys x zs where "xs = ys @ x # zs" "length ys = i" "P x" "\<forall>y\<in>set ys. \<not> P y"
proof -
  have i: "i < length xs" "P (xs ! i)" "\<forall>j<i. \<not> P (xs ! j)"
    using position_SomeD [OF assms] by auto
  have "\<forall>y\<in>set (take i xs). \<not> P y"
    using i by (auto simp: in_set_conv_nth)
  then show ?thesis
    using that [of "take i xs" "xs ! i" "drop (Suc i) xs"] i split_at_nth [of i xs] by simp
qed

lemma distinct_map_remove_at: "distinct (map f xs) \<Longrightarrow> distinct (map f (remove_at i xs))"
proof (cases "i < length xs")
  case True
  assume "distinct (map f xs)"
  then have "distinct (map f (take i xs @ xs ! i # drop (Suc i) xs))"
    using split_at_nth [OF True] by simp
  then show ?thesis
    by (auto simp: remove_at_def)
qed (simp add: remove_at_def)

lemma length_slice [simp]: "hi \<le> length xs \<Longrightarrow> length (slice lo hi xs) = hi - lo"
  by (simp add: slice_def)

lemma sum_list_update:
  "i < length xs \<Longrightarrow> sum_list (map f (xs[i := y])) + f (xs ! i) = sum_list (map f xs) + f y"
  for f :: "'a \<Rightarrow> nat"
  by (induction xs arbitrary: i) (auto simp: nth_Cons' split: nat.splits)

text \<open>A loop that pushes at most one element per round into a vector that is large enough.\<close>

lemma fold_push:
  assumes "\<And>x acc. f x acc = (case g x of None \<Rightarrow> acc | Some y \<Rightarrow> push_or_drop n y acc)"
  shows "length acc + length xs \<le> n \<Longrightarrow> fold f xs acc = acc @ List.map_filter g xs"
proof (induction xs arbitrary: acc)
  case (Cons x xs)
  show ?case
  proof (cases "g x")
    case None
    then show ?thesis using Cons.IH [of acc] Cons.prems by (simp add: assms List.map_filter_simps)
  next
    case (Some y)
    then show ?thesis using Cons.IH [of "acc @ [y]"] Cons.prems
      by (simp add: assms List.map_filter_simps push_or_drop_simps)
  qed
qed (simp add: List.map_filter_simps)

section \<open>Time stamps\<close>

type_synonym instant = u64
type_synonym duration = u64

definition instant_max :: instant where
  "instant_max = - 1"

definition checked_duration_since :: "instant \<Rightarrow> instant \<Rightarrow> duration option" where
  "checked_duration_since now earlier = (if earlier \<le> now then Some (now - earlier) else None)"

record time_driver =
  from_secs :: "u64 \<Rightarrow> duration"
  from_millis :: "u64 \<Rightarrow> duration"
  as_secs :: "duration \<Rightarrow> u64"

lemma checked_duration_since_SomeD:
  "checked_duration_since now t = Some d \<Longrightarrow> t \<le> now \<and> unat d = unat now - unat t"
  by (auto simp: checked_duration_since_def unat_sub split: if_splits)

lemma checked_duration_since_None: "checked_duration_since now t = None \<longleftrightarrow> now < t"
  by (auto simp: checked_duration_since_def)

end
