(* ===== verification/Config_Schema.thy ===== *)
theory Config_Schema
  imports Prelude
begin

text \<open>
  The canonical configuration of a house, \<^verbatim>\<open>crates/smartbox-config/src/ids.rs\<close> and
  \<^verbatim>\<open>crates/smartbox-config/src/schema.rs\<close>: identifiers, boards, controllers, devices, dependencies and
  rules. The const generics that bound the vectors are the record \<open>config_caps\<close>. Signed integers are words read
  with \<open>sint\<close>.
\<close>

section \<open>Identifiers\<close>

datatype house_id = HouseId u32
datatype board_id = BoardId u32
datatype controller_id = ControllerId u8
datatype device_id = DeviceId u32
datatype rule_id = RuleId u32

primrec house_id_is_valid :: "house_id \<Rightarrow> bool" where
  "house_id_is_valid (HouseId n) = (n \<noteq> 0)"

primrec board_id_is_valid :: "board_id \<Rightarrow> bool" where
  "board_id_is_valid (BoardId n) = (n \<noteq> 0)"

primrec device_id_is_valid :: "device_id \<Rightarrow> bool" where
  "device_id_is_valid (DeviceId n) = (n \<noteq> 0)"

primrec rule_id_is_valid :: "rule_id \<Rightarrow> bool" where
  "rule_id_is_valid (RuleId n) = (n \<noteq> 0)"

section \<open>Hardware\<close>

definition SUPPORTED_SCHEMA_VERSION :: u16 where
  "SUPPORTED_SCHEMA_VERSION = 1"

datatype board_role = Coordinator | Standby | Zone

datatype controller_family = XController | IRGate | Dimmer | PWM | SmartBox

datatype device_kind = Relay | DiscreteInput | Adc | Dht | Ds18B20 | DaliLight | DaliGroup | KindPwm
  | TriacDimmer | IButton | IrGate | TuyaRelay | TasmotaIrGate | AquaProtect | ClimateControl | Curtains
  | Fan | GateValve

datatype property_kind = State | Brightness | PropValue | Temperature | Humidity | Counter | LastKey
  | Position | Mode

datatype config_value = VBool bool | VU8 u8 | VI16 "16 word" | VU16 u16 | VI32 "32 word" | VU32 u32

record device_property =
  dp_device_id :: device_id
  dp_property :: property_kind

record port_ref =
  pr_controller_id :: controller_id
  pr_port :: u8

record board_config =
  bc_board_id :: board_id
  bc_role :: board_role

record controller_config =
  cc_controller_id :: controller_id
  cc_owner_board_id :: board_id
  cc_family :: controller_family

record device_config =
  dc_device_id :: device_id
  dc_owner_board_id :: board_id
  dc_kind :: device_kind
  dc_port :: "port_ref option"

section \<open>Rules\<close>

datatype rule_scope = BoardLocal board_id | HouseLevel

datatype trigger = DeviceChanged device_property | Schedule u32 | BoardEvent board_id u16

datatype compare_op = OpEq | OpNotEq | OpGreater | OpGreaterOrEq | OpLess | OpLessOrEq

datatype condition = CondDeviceProperty device_property compare_op config_value

datatype action = SetDevice device_id property_kind config_value | SendBoardCommand board_id u16
  | PublishEvent u16

record rule_step =
  delay_ms :: u32
  step_actions :: "action list"
  precondition :: "condition option"

datatype rule_body = Act "action list" | Steps "rule_step list"

record rule_config =
  rc_rule_id :: rule_id
  rc_scope :: rule_scope
  rc_enabled :: bool
  rc_trigger :: "trigger option"
  rc_condition :: "condition option"
  rc_body :: rule_body
  rc_cooldown_ms :: u32
  rc_version :: u16

section \<open>Dependencies and the whole\<close>

datatype dependency_source_code = SrcDeviceProperty | SrcControllerEvent

datatype dependency_destination_code = DstSetDeviceProperty | DstDisableDevice | DstEnableDevice

datatype dependency_tag_type = TagGeneric | TagAquaProtect | TagClimateControl | TagCurtains | TagFan
  | TagGateValve

record stm32_dependency_config =
  dep_owner_board_id :: board_id
  dep_source :: device_property
  dep_source_code :: dependency_source_code
  dep_destination :: device_property
  dep_destination_code :: dependency_destination_code
  dep_tag :: dependency_tag_type

record sb_broker_config =
  host_name :: string
  tls_required :: bool

record network_config =
  dhcp :: bool
  static_ipv4 :: "bytes option"

record canonical_config =
  schema_version :: u16
  config_version :: u32
  cfg_house_id :: house_id
  boards :: "board_config list"
  controllers :: "controller_config list"
  devices :: "device_config list"
  dependencies :: "stm32_dependency_config list"
  rules :: "rule_config list"
  sb_broker :: sb_broker_config
  network :: network_config

record config_caps =
  MAX_BOARDS :: nat
  MAX_CONTROLLERS :: nat
  MAX_DEVICES :: nat
  MAX_DEPENDENCIES :: nat
  MAX_RULES :: nat
  MAX_ACTIONS :: nat
  MAX_STEPS :: nat

text \<open>The vectors of a configuration respect their capacities by construction.\<close>

definition body_fits :: "config_caps \<Rightarrow> rule_body \<Rightarrow> bool" where
  "body_fits caps body =
     (case body of
        Act acts \<Rightarrow> length acts \<le> MAX_ACTIONS caps
      | Steps steps \<Rightarrow> length steps \<le> MAX_STEPS caps
          \<and> list_all (\<lambda>st. length (step_actions st) \<le> MAX_ACTIONS caps) steps)"

definition config_fits :: "config_caps \<Rightarrow> canonical_config \<Rightarrow> bool" where
  "config_fits caps c \<longleftrightarrow>
     length (boards c) \<le> MAX_BOARDS caps \<and> length (controllers c) \<le> MAX_CONTROLLERS caps
     \<and> length (devices c) \<le> MAX_DEVICES caps \<and> length (dependencies c) \<le> MAX_DEPENDENCIES caps
     \<and> length (rules c) \<le> MAX_RULES caps \<and> list_all (\<lambda>rule. body_fits caps (rc_body rule)) (rules c)"

end
