(* ===== verification/Config_Compiler.thy ===== *)
theory Config_Compiler
  imports Config_Schema
begin

text \<open>
  Validation and compilation of a configuration, \<^verbatim>\<open>crates/smartbox-config/src/compiler.rs\<close>. A
  function that returns \<open>Result\<close> is a value of a sum type with the error on the left; the question mark operator is
  \<open>and_then\<close>, a loop whose body may return early is \<open>try_each\<close>, and \<open>for_each_rest\<close> is the loop
  over \<open>enumerate\<close> that also looks at the elements after the current one.
\<close>

section \<open>Control flow\<close>

fun for_each_rest :: "('a \<Rightarrow> 'a list \<Rightarrow> 'e + unit) \<Rightarrow> 'a list \<Rightarrow> 'e + unit" where
  "for_each_rest f [] = Inr ()"
| "for_each_rest f (x # xs) = and_then (f x xs) (\<lambda>_. for_each_rest f xs)"

section \<open>Errors and results\<close>

datatype compile_error = UnsupportedSchemaVersion u16 u16 | EmptyHouseId | EmptyBoardId | EmptyDeviceId
  | EmptyRuleId | MissingBoard board_id | MissingTargetBoard board_id | MissingCoordinator
  | MultipleCoordinators | DuplicateBoardId board_id | DuplicateDeviceId device_id | DuplicateRuleId rule_id
  | ControllerBoardMissing board_id | DeviceBoardMissing board_id | DeviceControllerMissing
  | DependencyBoardMissing board_id | DependencyCrossesBoards | UnknownDevice device_id
  | RuleScopeBoardMissing board_id | BoardLocalRuleTargetsRemoteDevice board_id device_id
  | HouseLevelRuleOnZoneBoard | EmptyRuleBody | CapacityExceeded

record local_board_inventory =
  li_board :: board_config
  li_controllers :: "controller_config list"
  li_devices :: "device_config list"

record topology_entry =
  te_device_id :: device_id
  te_owner_board_id :: board_id

record compiled_rule =
  cr_rule :: rule_config

record stm32_dependency_layout =
  records :: "stm32_dependency_config list"

record topology_catalog =
  topo_entries :: "topology_entry list"

record compiled_config =
  cp_config_version :: u32
  local_inventory :: local_board_inventory
  stm32_dependencies :: stm32_dependency_layout
  cp_rules :: "compiled_rule list"
  topology :: topology_catalog

section \<open>Lookups\<close>

definition find_board :: "canonical_config \<Rightarrow> board_id \<Rightarrow> board_config option" where
  "find_board c bid = find (\<lambda>board. bc_board_id board = bid) (boards c)"

definition owner_of :: "canonical_config \<Rightarrow> device_id \<Rightarrow> compile_error + board_id" where
  "owner_of c did =
     ok_or (UnknownDevice did)
       (map_option dc_owner_board_id (find (\<lambda>device. dc_device_id device = did) (devices c)))"

definition rule_applies_to_board :: "rule_config \<Rightarrow> board_config \<Rightarrow> bool" where
  "rule_applies_to_board rule board =
     (case rc_scope rule of
        BoardLocal bid \<Rightarrow> bid = bc_board_id board
      | HouseLevel \<Rightarrow> bc_role board = Coordinator)"

section \<open>Validation\<close>

definition validate_property :: "canonical_config \<Rightarrow> device_property \<Rightarrow> compile_error + unit" where
  "validate_property c property = map_sum (\<lambda>e. e) (\<lambda>_. ()) (owner_of c (dp_device_id property))"

definition validate_condition :: "canonical_config \<Rightarrow> condition \<Rightarrow> compile_error + unit" where
  "validate_condition c cond = (case cond of CondDeviceProperty property _ _ \<Rightarrow> validate_property c property)"

definition validate_trigger :: "canonical_config \<Rightarrow> trigger option \<Rightarrow> compile_error + unit" where
  "validate_trigger c trig =
     (case trig of
        Some (DeviceChanged property) \<Rightarrow> validate_property c property
      | Some (BoardEvent bid _) \<Rightarrow>
          if find_board c bid \<noteq> None then Inr () else Inl (MissingBoard bid)
      | Some (Schedule _) \<Rightarrow> Inr ()
      | None \<Rightarrow> Inr ())"

definition validate_action :: "canonical_config \<Rightarrow> rule_scope \<Rightarrow> action \<Rightarrow> compile_error + unit" where
  "validate_action c scope act =
     (case act of
        SetDevice did _ _ \<Rightarrow>
          and_then (owner_of c did) (\<lambda>owner.
            case scope of
              BoardLocal bid \<Rightarrow>
                if owner \<noteq> bid then Inl (BoardLocalRuleTargetsRemoteDevice bid did) else Inr ()
            | HouseLevel \<Rightarrow> Inr ())
      | SendBoardCommand bid _ \<Rightarrow>
          if find_board c bid = None then Inl (MissingBoard bid) else Inr ()
      | PublishEvent _ \<Rightarrow> Inr ())"

definition validate_actions :: "canonical_config \<Rightarrow> rule_scope \<Rightarrow> action list \<Rightarrow> compile_error + unit" where
  "validate_actions c scope acts = try_each (validate_action c scope) acts"

definition validate_step :: "canonical_config \<Rightarrow> rule_scope \<Rightarrow> rule_step \<Rightarrow> compile_error + unit" where
  "validate_step c scope st =
     (if step_actions st = [] then Inl EmptyRuleBody
      else and_then (case precondition st of None \<Rightarrow> Inr () | Some p \<Rightarrow> validate_condition c p)
             (\<lambda>_. validate_actions c scope (step_actions st)))"

definition validate_rule_body :: "canonical_config \<Rightarrow> rule_config \<Rightarrow> compile_error + unit" where
  "validate_rule_body c rule =
     (case rc_body rule of
        Act acts \<Rightarrow>
          if acts = [] then Inl EmptyRuleBody else validate_actions c (rc_scope rule) acts
      | Steps steps \<Rightarrow>
          if steps = [] then Inl EmptyRuleBody else try_each (validate_step c (rc_scope rule)) steps)"

definition validate_rules :: "canonical_config \<Rightarrow> compile_error + unit" where
  "validate_rules c =
     for_each_rest (\<lambda>rule rest.
       if \<not> rule_id_is_valid (rc_rule_id rule) then Inl EmptyRuleId
       else if list_ex (\<lambda>other. rc_rule_id other = rc_rule_id rule) rest
       then Inl (DuplicateRuleId (rc_rule_id rule))
       else and_then (case rc_scope rule of
                        BoardLocal bid \<Rightarrow>
                          if find_board c bid = None then Inl (RuleScopeBoardMissing bid) else Inr ()
                      | HouseLevel \<Rightarrow> Inr ()) (\<lambda>_.
            and_then (validate_trigger c (rc_trigger rule)) (\<lambda>_.
            and_then (case rc_condition rule of None \<Rightarrow> Inr () | Some p \<Rightarrow> validate_condition c p) (\<lambda>_.
            validate_rule_body c rule)))) (rules c)"

definition validate_dependencies :: "canonical_config \<Rightarrow> compile_error + unit" where
  "validate_dependencies c =
     try_each (\<lambda>dependency.
       if find_board c (dep_owner_board_id dependency) = None
       then Inl (DependencyBoardMissing (dep_owner_board_id dependency))
       else and_then (owner_of c (dp_device_id (dep_source dependency))) (\<lambda>source_owner.
            and_then (owner_of c (dp_device_id (dep_destination dependency))) (\<lambda>destination_owner.
            if source_owner \<noteq> dep_owner_board_id dependency \<or> destination_owner \<noteq> dep_owner_board_id dependency
            then Inl DependencyCrossesBoards else Inr ()))) (dependencies c)"

definition validate_devices :: "canonical_config \<Rightarrow> compile_error + unit" where
  "validate_devices c =
     for_each_rest (\<lambda>device rest.
       if \<not> device_id_is_valid (dc_device_id device) then Inl EmptyDeviceId
       else if list_ex (\<lambda>other. dc_device_id other = dc_device_id device) rest
       then Inl (DuplicateDeviceId (dc_device_id device))
       else if find_board c (dc_owner_board_id device) = None
       then Inl (DeviceBoardMissing (dc_owner_board_id device))
       else case dc_port device of
              None \<Rightarrow> Inr ()
            | Some port \<Rightarrow>
                if list_all (\<lambda>controller. cc_controller_id controller \<noteq> pr_controller_id port
                              \<or> cc_owner_board_id controller \<noteq> dc_owner_board_id device) (controllers c)
                then Inl DeviceControllerMissing else Inr ()) (devices c)"

definition validate_controllers :: "canonical_config \<Rightarrow> compile_error + unit" where
  "validate_controllers c =
     try_each (\<lambda>controller.
       if find_board c (cc_owner_board_id controller) = None
       then Inl (ControllerBoardMissing (cc_owner_board_id controller)) else Inr ()) (controllers c)"

fun count_boards :: "board_config list \<Rightarrow> nat \<Rightarrow> compile_error + nat" where
  "count_boards [] coordinator_count = Inr coordinator_count"
| "count_boards (board # rest) coordinator_count =
     (if \<not> board_id_is_valid (bc_board_id board) then Inl EmptyBoardId
      else if list_ex (\<lambda>other. bc_board_id other = bc_board_id board) rest
      then Inl (DuplicateBoardId (bc_board_id board))
      else count_boards rest (if bc_role board = Coordinator then coordinator_count + 1 else coordinator_count))"

definition validate_boards :: "canonical_config \<Rightarrow> compile_error + unit" where
  "validate_boards c =
     and_then (count_boards (boards c) 0) (\<lambda>coordinator_count.
       if coordinator_count = 0 then Inl MissingCoordinator
       else if coordinator_count = 1 then Inr ()
       else Inl MultipleCoordinators)"

definition validate_config :: "canonical_config \<Rightarrow> compile_error + unit" where
  "validate_config c =
     (if schema_version c \<noteq> SUPPORTED_SCHEMA_VERSION
      then Inl (UnsupportedSchemaVersion (schema_version c) SUPPORTED_SCHEMA_VERSION)
      else if \<not> house_id_is_valid (cfg_house_id c) then Inl EmptyHouseId
      else and_then (validate_boards c) (\<lambda>_.
           and_then (validate_controllers c) (\<lambda>_.
           and_then (validate_devices c) (\<lambda>_.
           and_then (validate_dependencies c) (\<lambda>_.
           validate_rules c)))))"

section \<open>Compilation\<close>

text \<open>A loop that pushes what it selects onto a bounded vector.\<close>

fun push_all :: "nat \<Rightarrow> 'a list \<Rightarrow> 'a list \<Rightarrow> compile_error + 'a list" where
  "push_all n [] acc = Inr acc"
| "push_all n (x # xs) acc =
     (case vec_push n x acc of None \<Rightarrow> Inl CapacityExceeded | Some acc' \<Rightarrow> push_all n xs acc')"

definition compile_config ::
  "config_caps \<Rightarrow> canonical_config \<Rightarrow> board_id \<Rightarrow> compile_error + compiled_config" where
  "compile_config caps c target =
     and_then (validate_config c) (\<lambda>_.
       case find_board c target of
         None \<Rightarrow> Inl (MissingTargetBoard target)
       | Some board \<Rightarrow>
           and_then (push_all (MAX_CONTROLLERS caps)
                       (filter (\<lambda>controller. cc_owner_board_id controller = target) (controllers c)) [])
             (\<lambda>local_controllers.
           and_then (push_all (MAX_DEVICES caps)
                       (filter (\<lambda>device. dc_owner_board_id device = target) (devices c)) [])
             (\<lambda>local_devices.
           and_then (push_all (MAX_DEPENDENCIES caps)
                       (filter (\<lambda>dependency. dep_owner_board_id dependency = target) (dependencies c)) [])
             (\<lambda>deps.
           and_then (push_all (MAX_RULES caps)
                       (map compiled_rule.make (filter (\<lambda>rule. rule_applies_to_board rule board) (rules c))) [])
             (\<lambda>compiled_rules.
           and_then (push_all (MAX_DEVICES caps)
                       (map (\<lambda>device. \<lparr>te_device_id = dc_device_id device,
                                        te_owner_board_id = dc_owner_board_id device\<rparr>) (devices c)) [])
             (\<lambda>topology_entries.
           Inr \<lparr>cp_config_version = config_version c,
                local_inventory = \<lparr>li_board = board, li_controllers = local_controllers, li_devices = local_devices\<rparr>,
                stm32_dependencies = \<lparr>records = deps\<rparr>,
                cp_rules = compiled_rules,
                topology = \<lparr>topo_entries = topology_entries\<rparr>\<rparr>))))))"

section \<open>What a good configuration is\<close>

declare and_then_eq_Inr [simp]

declare try_each_ok [simp]

lemma all_splits_Cons:
  "(\<forall>ys x zs. a # xs = ys @ x # zs \<longrightarrow> Q x zs) \<longleftrightarrow> Q a xs \<and> (\<forall>ys x zs. xs = ys @ x # zs \<longrightarrow> Q x zs)"
  by (auto simp: Cons_eq_append_conv)

lemma for_each_rest_ok:
  "for_each_rest f xs = Inr () \<longleftrightarrow> (\<forall>ys x zs. xs = ys @ x # zs \<longrightarrow> f x zs = Inr ())"
  by (induction xs) (simp_all add: all_splits_Cons old.unit.exhaust)

lemma distinct_by_rest:
  "(\<forall>ys x zs. xs = ys @ x # zs \<longrightarrow> P x \<and> key x \<notin> key ` set zs) \<longleftrightarrow> (\<forall>x \<in> set xs. P x) \<and> distinct (map key xs)"
proof (induction xs)
  case (Cons a xs)
  show ?case unfolding all_splits_Cons [where Q = "\<lambda>x zs. P x \<and> key x \<notin> key ` set zs"] Cons.IH by auto
qed simp

lemma list_ex_key: "list_ex (\<lambda>y. f y = k) zs \<longleftrightarrow> k \<in> f ` set zs"
  by (auto simp: list_ex_iff)

lemma for_each_rest_distinct:
  assumes "\<And>x zs. f x zs = Inr () \<longleftrightarrow> P x \<and> key x \<notin> key ` set zs"
  shows "for_each_rest f xs = Inr () \<longleftrightarrow> (\<forall>x \<in> set xs. P x) \<and> distinct (map key xs)"
  unfolding for_each_rest_ok assms by (rule distinct_by_rest)

definition board_known :: "canonical_config \<Rightarrow> board_id \<Rightarrow> bool" where
  "board_known c bid \<longleftrightarrow> bid \<in> bc_board_id ` set (boards c)"

definition device_owner :: "canonical_config \<Rightarrow> device_id \<Rightarrow> board_id option" where
  "device_owner c did = map_of (map (\<lambda>d. (dc_device_id d, dc_owner_board_id d)) (devices c)) did"

definition device_known :: "canonical_config \<Rightarrow> device_id \<Rightarrow> bool" where
  "device_known c did \<longleftrightarrow> did \<in> dc_device_id ` set (devices c)"

primrec condition_device :: "condition \<Rightarrow> device_id" where
  "condition_device (CondDeviceProperty p op v) = dp_device_id p"

definition boards_ok :: "canonical_config \<Rightarrow> bool" where
  "boards_ok c \<longleftrightarrow>
     (\<forall>b \<in> set (boards c). board_id_is_valid (bc_board_id b)) \<and> distinct (map bc_board_id (boards c))
     \<and> length (filter (\<lambda>b. bc_role b = Coordinator) (boards c)) = 1"

definition device_ok :: "canonical_config \<Rightarrow> device_config \<Rightarrow> bool" where
  "device_ok c d \<longleftrightarrow>
     device_id_is_valid (dc_device_id d) \<and> board_known c (dc_owner_board_id d)
     \<and> (\<forall>port. dc_port d = Some port \<longrightarrow>
          (\<exists>k \<in> set (controllers c). cc_controller_id k = pr_controller_id port
             \<and> cc_owner_board_id k = dc_owner_board_id d))"

definition dependency_ok :: "canonical_config \<Rightarrow> stm32_dependency_config \<Rightarrow> bool" where
  "dependency_ok c d \<longleftrightarrow>
     board_known c (dep_owner_board_id d)
     \<and> device_owner c (dp_device_id (dep_source d)) = Some (dep_owner_board_id d)
     \<and> device_owner c (dp_device_id (dep_destination d)) = Some (dep_owner_board_id d)"

primrec action_ok :: "canonical_config \<Rightarrow> rule_scope \<Rightarrow> action \<Rightarrow> bool" where
  "action_ok c scope (SetDevice did p v) =
     (case scope of BoardLocal bid \<Rightarrow> device_owner c did = Some bid | HouseLevel \<Rightarrow> device_known c did)"
| "action_ok c scope (SendBoardCommand bid k) = board_known c bid"
| "action_ok c scope (PublishEvent k) = True"

primrec trigger_ok :: "canonical_config \<Rightarrow> trigger \<Rightarrow> bool" where
  "trigger_ok c (DeviceChanged p) = device_known c (dp_device_id p)"
| "trigger_ok c (Schedule k) = True"
| "trigger_ok c (BoardEvent bid k) = board_known c bid"

definition actions_ok :: "canonical_config \<Rightarrow> rule_scope \<Rightarrow> action list \<Rightarrow> bool" where
  "actions_ok c scope acts \<longleftrightarrow> acts \<noteq> [] \<and> (\<forall>a \<in> set acts. action_ok c scope a)"

primrec body_ok :: "canonical_config \<Rightarrow> rule_scope \<Rightarrow> rule_body \<Rightarrow> bool" where
  "body_ok c scope (Act acts) = actions_ok c scope acts"
| "body_ok c scope (Steps steps) =
     (steps \<noteq> [] \<and> (\<forall>st \<in> set steps. actions_ok c scope (step_actions st)
        \<and> (\<forall>p \<in> set_option (precondition st). device_known c (condition_device p))))"

definition rule_ok :: "canonical_config \<Rightarrow> rule_config \<Rightarrow> bool" where
  "rule_ok c r \<longleftrightarrow>
     rule_id_is_valid (rc_rule_id r)
     \<and> (\<forall>bid. rc_scope r = BoardLocal bid \<longrightarrow> board_known c bid)
     \<and> (\<forall>t \<in> set_option (rc_trigger r). trigger_ok c t)
     \<and> (\<forall>p \<in> set_option (rc_condition r). device_known c (condition_device p))
     \<and> body_ok c (rc_scope r) (rc_body r)"

definition config_ok :: "canonical_config \<Rightarrow> bool" where
  "config_ok c \<longleftrightarrow>
     schema_version c = SUPPORTED_SCHEMA_VERSION \<and> house_id_is_valid (cfg_house_id c) \<and> boards_ok c
     \<and> (\<forall>k \<in> set (controllers c). board_known c (cc_owner_board_id k))
     \<and> (\<forall>d \<in> set (devices c). device_ok c d) \<and> distinct (map dc_device_id (devices c))
     \<and> (\<forall>d \<in> set (dependencies c). dependency_ok c d)
     \<and> (\<forall>r \<in> set (rules c). rule_ok c r) \<and> distinct (map rc_rule_id (rules c))"

section \<open>Validation decides it\<close>

lemma find_board_None: "find_board c bid = None \<longleftrightarrow> \<not> board_known c bid"
  by (auto simp: find_board_def board_known_def find_None_iff)

lemma find_map_of: "map_option g (find (\<lambda>x. f x = k) xs) = map_of (map (\<lambda>x. (f x, g x)) xs) k"
  by (induction xs) auto

lemma owner_of_Inr: "owner_of c did = Inr bid \<longleftrightarrow> device_owner c did = Some bid"
  by (simp add: owner_of_def device_owner_def find_map_of)

lemma device_known_owner: "device_known c did \<longleftrightarrow> (\<exists>bid. device_owner c did = Some bid)"
proof -
  have "device_known c did \<longleftrightarrow> did \<in> dom (device_owner c)"
    by (simp add: device_known_def device_owner_def [abs_def] dom_map_of_conv_image_fst image_image)
  then show ?thesis by (auto simp: domIff)
qed

lemma validate_property_ok: "validate_property c p = Inr () \<longleftrightarrow> device_known c (dp_device_id p)"
  using owner_of_Inr [of c "dp_device_id p"]
  by (cases "owner_of c (dp_device_id p)") (auto simp: validate_property_def device_known_owner)

lemma validate_condition_ok: "validate_condition c p = Inr () \<longleftrightarrow> device_known c (condition_device p)"
  by (cases p) (simp add: validate_condition_def validate_property_ok)

lemma validate_trigger_ok: "validate_trigger c t = Inr () \<longleftrightarrow> (\<forall>t' \<in> set_option t. trigger_ok c t')"
  by (auto simp: validate_trigger_def validate_property_ok find_board_None split: option.split trigger.split)

lemma validate_action_ok: "validate_action c scope a = Inr () \<longleftrightarrow> action_ok c scope a"
  by (cases a) (auto simp: validate_action_def owner_of_Inr device_known_owner find_board_None split: rule_scope.split)

lemma validate_actions_ok: "acts \<noteq> [] \<and> validate_actions c scope acts = Inr () \<longleftrightarrow> actions_ok c scope acts"
  by (simp add: validate_actions_def actions_ok_def validate_action_ok)

lemma validate_step_ok:
  "validate_step c scope st = Inr () \<longleftrightarrow> actions_ok c scope (step_actions st)
     \<and> (\<forall>p \<in> set_option (precondition st). device_known c (condition_device p))"
  using validate_actions_ok [of "step_actions st" c scope]
  by (auto simp: validate_step_def validate_condition_ok split: option.split)

lemma validate_rule_body_ok: "validate_rule_body c r = Inr () \<longleftrightarrow> body_ok c (rc_scope r) (rc_body r)"
  using validate_actions_ok [of _ c "rc_scope r"]
  by (cases "rc_body r") (auto simp: validate_rule_body_def validate_step_ok)

lemma validate_rules_ok:
  "validate_rules c = Inr () \<longleftrightarrow> (\<forall>r \<in> set (rules c). rule_ok c r) \<and> distinct (map rc_rule_id (rules c))"
  unfolding validate_rules_def
  by (rule for_each_rest_distinct)
    (auto simp: rule_ok_def validate_trigger_ok validate_condition_ok validate_rule_body_ok find_board_None list_ex_key
      split: rule_scope.split option.split)

lemma validate_devices_ok:
  "validate_devices c = Inr () \<longleftrightarrow> (\<forall>d \<in> set (devices c). device_ok c d) \<and> distinct (map dc_device_id (devices c))"
  unfolding validate_devices_def
  by (rule for_each_rest_distinct)
    (auto simp: device_ok_def find_board_None list_ex_key list_all_iff split: option.split)

lemma validate_dependencies_ok:
  "validate_dependencies c = Inr () \<longleftrightarrow> (\<forall>d \<in> set (dependencies c). dependency_ok c d)"
  by (auto simp: validate_dependencies_def dependency_ok_def find_board_None owner_of_Inr split: if_splits)

lemma validate_controllers_ok:
  "validate_controllers c = Inr () \<longleftrightarrow> (\<forall>k \<in> set (controllers c). board_known c (cc_owner_board_id k))"
  by (auto simp: validate_controllers_def find_board_None)

lemma count_boards_ok:
  "count_boards bs n = Inr m \<longleftrightarrow>
     (\<forall>b \<in> set bs. board_id_is_valid (bc_board_id b)) \<and> distinct (map bc_board_id bs)
     \<and> m = n + length (filter (\<lambda>b. bc_role b = Coordinator) bs)"
  by (induction bs arbitrary: n) (auto simp: list_ex_key)

lemma validate_boards_ok: "validate_boards c = Inr () \<longleftrightarrow> boards_ok c"
  by (auto simp: validate_boards_def boards_ok_def count_boards_ok split: if_splits)

lemma validate_config_ok: "validate_config c = Inr () \<longleftrightarrow> config_ok c"
  by (simp add: validate_config_def config_ok_def validate_boards_ok validate_controllers_ok validate_devices_ok
      validate_dependencies_ok validate_rules_ok)

section \<open>What compilation selects\<close>

definition project :: "canonical_config \<Rightarrow> board_config \<Rightarrow> compiled_config" where
  "project c board =
     (let bid = bc_board_id board
      in \<lparr>cp_config_version = config_version c,
          local_inventory = \<lparr>li_board = board,
            li_controllers = filter (\<lambda>k. cc_owner_board_id k = bid) (controllers c),
            li_devices = filter (\<lambda>d. dc_owner_board_id d = bid) (devices c)\<rparr>,
          stm32_dependencies = \<lparr>records = filter (\<lambda>d. dep_owner_board_id d = bid) (dependencies c)\<rparr>,
          cp_rules = map compiled_rule.make (filter (\<lambda>r. rule_applies_to_board r board) (rules c)),
          topology = \<lparr>topo_entries = map (\<lambda>d. \<lparr>te_device_id = dc_device_id d,
            te_owner_board_id = dc_owner_board_id d\<rparr>) (devices c)\<rparr>\<rparr>)"

lemma push_all_fits: "length acc + length xs \<le> n \<Longrightarrow> push_all n xs acc = Inr (acc @ xs)"
  by (induction xs arbitrary: acc) auto

lemma push_all_Inr: "push_all n xs acc = Inr ys \<Longrightarrow> ys = acc @ xs"
  by (induction xs arbitrary: acc) (fastforce simp: vec_push_def split: option.splits if_splits)+

lemma find_board_Some: "find_board c bid = Some board \<Longrightarrow> board \<in> set (boards c) \<and> bc_board_id board = bid"
  by (auto simp: find_board_def find_Some_iff)

lemma compile_config_sound:
  assumes "compile_config caps c target = Inr out"
  obtains board where "config_ok c" "find_board c target = Some board" "out = project c board"
proof -
  obtain board where f: "find_board c target = Some board" and ok: "validate_config c = Inr ()"
    using assms by (auto simp: compile_config_def split: option.splits)
  have "out = project c board"
    using assms f find_board_Some [OF f]
    by (auto simp: compile_config_def project_def dest!: push_all_Inr)
  then show ?thesis using that f ok by (simp add: validate_config_ok)
qed

lemma compile_config_complete:
  assumes "config_fits caps c" "config_ok c" "find_board c target = Some board"
  shows "compile_config caps c target = Inr (project c board)"
proof -
  have "length (filter P (controllers c)) \<le> MAX_CONTROLLERS caps" "length (filter Q (devices c)) \<le> MAX_DEVICES caps"
    "length (filter R (dependencies c)) \<le> MAX_DEPENDENCIES caps" "length (filter S (rules c)) \<le> MAX_RULES caps"
    "length (devices c) \<le> MAX_DEVICES caps" for P Q R S
    using assms(1) by (auto simp: config_fits_def intro: order.trans [OF length_filter_le])
  then show ?thesis
    using assms(2,3) find_board_Some [OF assms(3)]
    by (simp add: compile_config_def and_then_def validate_config_ok [THEN iffD2] push_all_fits project_def Let_def)
qed

lemma find_board_unique:
  assumes "config_ok c" "board \<in> set (boards c)"
  shows "find_board c (bc_board_id board) = Some board"
proof -
  have "distinct (map bc_board_id (boards c))" using assms(1) by (simp add: config_ok_def boards_ok_def)
  moreover have "map_option (\<lambda>b. b) (find_board c (bc_board_id board)) = map_of (map (\<lambda>b. (bc_board_id b, b)) (boards c)) (bc_board_id board)"
    unfolding find_board_def by (rule find_map_of)
  ultimately show ?thesis using assms(2) by (simp add: option.map_ident map_of_eq_Some_iff comp_def)
qed

lemma and_then_eq_Inl: "and_then m f = Inl e \<longleftrightarrow> m = Inl e \<or> (\<exists>x. m = Inr x \<and> f x = Inl e)"
  by (auto simp: and_then_def split: sum.split)

lemma try_each_Inl: "try_each f xs = Inl e \<Longrightarrow> \<exists>x. f x = Inl e"
  by (induction xs) (auto split: sum.splits)

lemma for_each_rest_Inl: "for_each_rest f xs = Inl e \<Longrightarrow> \<exists>x zs. f x zs = Inl e"
  by (induction xs) (auto simp: and_then_eq_Inl)

lemma count_boards_capacity: "count_boards bs n \<noteq> Inl CapacityExceeded"
  by (induction bs arbitrary: n) auto

lemma owner_of_capacity: "owner_of c did \<noteq> Inl CapacityExceeded"
  by (simp add: owner_of_def)

lemma validate_references_capacity:
  "validate_property c p \<noteq> Inl CapacityExceeded" "validate_condition c q \<noteq> Inl CapacityExceeded"
  "validate_trigger c t \<noteq> Inl CapacityExceeded" "validate_action c scope a \<noteq> Inl CapacityExceeded"
proof -
  show p: "validate_property c p \<noteq> Inl CapacityExceeded" for p
    using owner_of_capacity [of c "dp_device_id p"]
    by (cases "owner_of c (dp_device_id p)") (auto simp: validate_property_def)
  then show "validate_condition c q \<noteq> Inl CapacityExceeded" by (simp add: validate_condition_def split: condition.split)
  show "validate_trigger c t \<noteq> Inl CapacityExceeded"
    using p by (simp add: validate_trigger_def split: option.split trigger.split)
  show "validate_action c scope a \<noteq> Inl CapacityExceeded"
    using owner_of_capacity by (auto simp: validate_action_def and_then_eq_Inl split: action.split rule_scope.split)
qed

lemma validate_rules_capacity: "validate_rules c \<noteq> Inl CapacityExceeded"
proof -
  have acts: "validate_actions c scope acts \<noteq> Inl CapacityExceeded" for scope acts
    using try_each_Inl validate_references_capacity(4) unfolding validate_actions_def by metis
  then have "validate_step c scope st \<noteq> Inl CapacityExceeded" for scope st
    using validate_references_capacity(2) by (auto simp: validate_step_def and_then_eq_Inl split: option.split)
  then have "try_each (validate_step c scope) steps \<noteq> Inl CapacityExceeded" for scope steps
    using try_each_Inl by metis
  then have body: "validate_rule_body c rule \<noteq> Inl CapacityExceeded" for rule
    using acts by (simp add: validate_rule_body_def split: rule_body.split)
  show ?thesis
    unfolding validate_rules_def
    by (intro notI, drule for_each_rest_Inl)
      (auto simp: and_then_eq_Inl validate_references_capacity body split: if_splits rule_scope.splits option.splits)
qed

lemma validate_config_capacity: "validate_config c \<noteq> Inl CapacityExceeded"
proof -
  have "validate_boards c \<noteq> Inl CapacityExceeded"
    using count_boards_capacity by (auto simp: validate_boards_def and_then_eq_Inl)
  moreover have "validate_controllers c \<noteq> Inl CapacityExceeded"
    unfolding validate_controllers_def by (intro notI, drule try_each_Inl) (auto split: if_splits)
  moreover have "validate_devices c \<noteq> Inl CapacityExceeded"
    unfolding validate_devices_def by (intro notI, drule for_each_rest_Inl) (auto split: if_splits option.splits)
  moreover have "validate_dependencies c \<noteq> Inl CapacityExceeded"
    unfolding validate_dependencies_def
    by (intro notI, drule try_each_Inl) (auto simp: and_then_eq_Inl owner_of_capacity split: if_splits)
  ultimately show ?thesis
    using validate_rules_capacity by (auto simp: validate_config_def and_then_eq_Inl)
qed

lemma device_owner_mem:
  "distinct (map dc_device_id (devices c)) \<Longrightarrow>
   device_owner c did = Some bid \<longleftrightarrow> (\<exists>d \<in> set (devices c). dc_device_id d = did \<and> dc_owner_board_id d = bid)"
  by (auto simp: device_owner_def map_of_eq_Some_iff comp_def)

definition body_actions :: "rule_body \<Rightarrow> action set" where
  "body_actions body = (case body of Act acts \<Rightarrow> set acts | Steps steps \<Rightarrow> (\<Union>st \<in> set steps. set (step_actions st)))"

lemma body_ok_action: "body_ok c scope body \<Longrightarrow> a \<in> body_actions body \<Longrightarrow> action_ok c scope a"
  by (auto simp: body_actions_def actions_ok_def split: rule_body.splits)

primrec action_devices :: "action \<Rightarrow> device_id set" where
  "action_devices (SetDevice did p v) = {did}"
| "action_devices (SendBoardCommand bid k) = {}"
| "action_devices (PublishEvent k) = {}"

primrec action_boards :: "action \<Rightarrow> board_id set" where
  "action_boards (SetDevice did p v) = {}"
| "action_boards (SendBoardCommand bid k) = {bid}"
| "action_boards (PublishEvent k) = {}"

primrec trigger_devices :: "trigger \<Rightarrow> device_id set" where
  "trigger_devices (DeviceChanged p) = {dp_device_id p}"
| "trigger_devices (Schedule k) = {}"
| "trigger_devices (BoardEvent bid k) = {}"

primrec trigger_boards :: "trigger \<Rightarrow> board_id set" where
  "trigger_boards (DeviceChanged p) = {}"
| "trigger_boards (Schedule k) = {}"
| "trigger_boards (BoardEvent bid k) = {bid}"

primrec body_preconditions :: "rule_body \<Rightarrow> condition set" where
  "body_preconditions (Act acts) = {}"
| "body_preconditions (Steps steps) = (\<Union>st \<in> set steps. set_option (precondition st))"

text \<open>The devices a rule reads, in its trigger, its condition and the preconditions of its steps, the devices it sets, and
  the boards it names.\<close>

definition rule_reads :: "rule_config \<Rightarrow> device_id set" where
  "rule_reads r = (\<Union>t \<in> set_option (rc_trigger r). trigger_devices t)
     \<union> condition_device ` (set_option (rc_condition r) \<union> body_preconditions (rc_body r))"

definition rule_sets :: "rule_config \<Rightarrow> device_id set" where
  "rule_sets r = (\<Union>a \<in> body_actions (rc_body r). action_devices a)"

definition rule_boards :: "rule_config \<Rightarrow> board_id set" where
  "rule_boards r = (\<Union>t \<in> set_option (rc_trigger r). trigger_boards t) \<union> (\<Union>a \<in> body_actions (rc_body r). action_boards a)"

lemma trigger_ok_names: "trigger_ok c t \<Longrightarrow> (\<forall>did \<in> trigger_devices t. device_known c did) \<and> (\<forall>bid \<in> trigger_boards t. board_known c bid)"
  by (cases t) auto

lemma action_ok_names:
  "action_ok c scope a \<Longrightarrow>
     (\<forall>did \<in> action_devices a. device_known c did \<and> (\<forall>bid. scope = BoardLocal bid \<longrightarrow> device_owner c did = Some bid))
     \<and> (\<forall>bid \<in> action_boards a. board_known c bid)"
  by (cases a) (auto simp: device_known_owner split: rule_scope.splits)

lemma body_ok_precondition: "body_ok c scope body \<Longrightarrow> p \<in> body_preconditions body \<Longrightarrow> device_known c (condition_device p)"
  by (cases body) auto

lemma rule_ok_names:
  assumes "rule_ok c r"
  shows "\<forall>did \<in> rule_reads r \<union> rule_sets r. device_known c did" "\<forall>bid \<in> rule_boards r. board_known c bid"
    "rc_scope r = BoardLocal bid \<Longrightarrow> did \<in> rule_sets r \<Longrightarrow> device_owner c did = Some bid"
proof -
  have acts: "\<And>a. a \<in> body_actions (rc_body r) \<Longrightarrow> action_ok c (rc_scope r) a"
    and pre: "\<And>p. p \<in> body_preconditions (rc_body r) \<Longrightarrow> device_known c (condition_device p)"
    and trig: "\<And>t. t \<in> set_option (rc_trigger r) \<Longrightarrow> trigger_ok c t"
    and cond: "\<And>p. p \<in> set_option (rc_condition r) \<Longrightarrow> device_known c (condition_device p)"
    using assms body_ok_action body_ok_precondition unfolding rule_ok_def by blast+
  show "\<forall>did \<in> rule_reads r \<union> rule_sets r. device_known c did"
    using action_ok_names [OF acts] trigger_ok_names [OF trig] pre cond unfolding rule_reads_def rule_sets_def by blast
  show "\<forall>bid \<in> rule_boards r. board_known c bid"
    using action_ok_names [OF acts] trigger_ok_names [OF trig] unfolding rule_boards_def by blast
  show "device_owner c did = Some bid" if "rc_scope r = BoardLocal bid" "did \<in> rule_sets r"
    using action_ok_names [OF acts] that unfolding rule_sets_def by blast
qed

lemma rule_applies_once:
  assumes "config_ok c" "r \<in> set (rules c)"
  shows "\<exists>!board. board \<in> set (boards c) \<and> rule_applies_to_board r board"
proof (cases "rc_scope r")
  case (BoardLocal bid)
  then have "board_known c bid" using assms by (auto simp: config_ok_def rule_ok_def)
  then obtain board where "board \<in> set (boards c)" "bc_board_id board = bid" by (auto simp: board_known_def)
  moreover have "inj_on bc_board_id (set (boards c))"
    using assms(1) by (simp add: config_ok_def boards_ok_def distinct_map)
  ultimately show ?thesis
    using BoardLocal by (intro ex1I [of _ board]) (auto simp: rule_applies_to_board_def dest: inj_onD)
next
  case HouseLevel
  obtain board where "filter (\<lambda>b. bc_role b = Coordinator) (boards c) = [board]"
    using assms(1) by (auto simp: config_ok_def boards_ok_def length_Suc_conv)
  then have "{b \<in> set (boards c). bc_role b = Coordinator} = {board}"
    by (metis list.set(1) list.simps(15) set_filter)
  then have "b \<in> set (boards c) \<and> bc_role b = Coordinator \<longleftrightarrow> b = board" for b by blast
  then show ?thesis using HouseLevel by (simp add: rule_applies_to_board_def)
qed

section \<open>Properties\<close>

text \<open>A house with a coordinator and a zone board, for the witnesses.\<close>

definition example_caps :: config_caps where
  "example_caps = \<lparr>MAX_BOARDS = 4, MAX_CONTROLLERS = 4, MAX_DEVICES = 4, MAX_DEPENDENCIES = 4, MAX_RULES = 4,
     MAX_ACTIONS = 4, MAX_STEPS = 4\<rparr>"

definition example_rule :: rule_config where
  "example_rule = \<lparr>rc_rule_id = RuleId 1, rc_scope = BoardLocal (BoardId 2), rc_enabled = True,
     rc_trigger = Some (DeviceChanged \<lparr>dp_device_id = DeviceId 10, dp_property = State\<rparr>), rc_condition = None,
     rc_body = Act [SetDevice (DeviceId 11) State (VBool True)], rc_cooldown_ms = 0, rc_version = 1\<rparr>"

definition example_config :: canonical_config where
  "example_config = \<lparr>schema_version = 1, config_version = 7, cfg_house_id = HouseId 1,
     boards = [\<lparr>bc_board_id = BoardId 1, bc_role = Coordinator\<rparr>, \<lparr>bc_board_id = BoardId 2, bc_role = Zone\<rparr>],
     controllers = [\<lparr>cc_controller_id = ControllerId 3, cc_owner_board_id = BoardId 2, cc_family = XController\<rparr>],
     devices = [\<lparr>dc_device_id = DeviceId 10, dc_owner_board_id = BoardId 2, dc_kind = DiscreteInput, dc_port = None\<rparr>,
       \<lparr>dc_device_id = DeviceId 11, dc_owner_board_id = BoardId 2, dc_kind = Relay,
        dc_port = Some \<lparr>pr_controller_id = ControllerId 3, pr_port = 1\<rparr>\<rparr>],
     dependencies = [], rules = [example_rule],
     sb_broker = \<lparr>host_name = ''hub'', tls_required = True\<rparr>, network = \<lparr>dhcp = True, static_ipv4 = None\<rparr>\<rparr>"

lemma example_config_ok: "config_fits example_caps example_config" "config_ok example_config"
proof -
  show "config_fits example_caps example_config"
    by (simp add: config_fits_def body_fits_def example_caps_def example_config_def example_rule_def)
  have "validate_config example_config = Inr ()" by code_simp
  then show "config_ok example_config" by (simp add: validate_config_ok)
qed

text \<open>
  C18: validation decides well-formedness. \<open>validate_config\<close> accepts exactly the configurations of the
  supported schema in which boards, devices and rules have unique non-zero identifiers (those of controllers are
  not checked), there is one coordinator, every owner and every reference exists, ports and dependencies stay on one board, and every rule has a body whose
  actions a rule of its scope may take.
\<close>

theorem validate_config_exact: "validate_config c = Inr () \<longleftrightarrow> config_ok c"
  by (rule validate_config_ok)

text \<open>
  C15: compilation. For a configuration whose vectors respect their capacities, \<open>compile_config\<close>
  succeeds exactly when the configuration is well-formed and has the target board, and its
  result is the part of the configuration that concerns that board, with the whole house's topology.
  It never runs out of capacity.
\<close>

theorem compile_config_exact:
  assumes "config_fits caps c"
  shows "(compile_config caps c target = Inr out \<longleftrightarrow>
      config_ok c \<and> (\<exists>board \<in> set (boards c). bc_board_id board = target \<and> out = project c board))
    \<and> compile_config caps c target \<noteq> Inl CapacityExceeded"
proof (intro conjI iffI)
  assume "compile_config caps c target = Inr out"
  then show "config_ok c" "\<exists>board \<in> set (boards c). bc_board_id board = target \<and> out = project c board"
    by (auto elim!: compile_config_sound dest!: find_board_Some)
next
  assume "config_ok c \<and> (\<exists>board \<in> set (boards c). bc_board_id board = target \<and> out = project c board)"
  then show "compile_config caps c target = Inr out"
    using compile_config_complete [OF assms] find_board_unique by blast
next
  show "compile_config caps c target \<noteq> Inl CapacityExceeded"
  proof (cases "find_board c target")
    case None
    then show ?thesis using validate_config_capacity by (auto simp: compile_config_def and_then_eq_Inl)
  next
    case (Some board)
    show ?thesis
    proof (cases "config_ok c")
      case True
      then show ?thesis using compile_config_complete [OF assms True Some] by simp
    next
      case False
      then obtain e where "validate_config c = Inl e"
        using validate_config_ok [of c] by (cases "validate_config c") auto
      then show ?thesis using validate_config_capacity [of c] by (simp add: compile_config_def and_then_def)
    qed
  qed
qed

theorem compile_config_exact_witness:
  "config_fits example_caps example_config
   \<and> compile_config example_caps example_config (BoardId 2)
       = Inr (project example_config \<lparr>bc_board_id = BoardId 2, bc_role = Zone\<rparr>)
   \<and> compile_config example_caps example_config (BoardId 9) \<noteq> Inl CapacityExceeded"
  using compile_config_exact [OF example_config_ok(1), of "BoardId 2"
      "project example_config \<lparr>bc_board_id = BoardId 2, bc_role = Zone\<rparr>"]
    compile_config_exact [OF example_config_ok(1), of "BoardId 9"] example_config_ok
  by (auto simp: example_config_def)

text \<open>
  C38: the references of a compiled artifact. Ports name controllers of the board's inventory, and both ends of a dependency
  are devices of its inventory. The devices that a board-local rule sets are in the inventory too; what a rule reads in its
  trigger, its condition and its preconditions, and what a house-level rule sets, may be on another board, and is
  then found in the topology, with an owner that is a board of the house. The boards that rules name are boards of
  the house as well, and house-level rules are only on the coordinator.
\<close>

theorem compiled_references:
  assumes "compile_config caps c target = Inr out"
  shows "(\<forall>d \<in> set (li_devices (local_inventory out)). \<forall>port. dc_port d = Some port \<longrightarrow>
       (\<exists>k \<in> set (li_controllers (local_inventory out)). cc_controller_id k = pr_controller_id port))
    \<and> (\<forall>d \<in> set (records (stm32_dependencies out)).
         {dp_device_id (dep_source d), dp_device_id (dep_destination d)}
           \<subseteq> dc_device_id ` set (li_devices (local_inventory out)))
    \<and> (\<forall>e \<in> set (topo_entries (topology out)). te_owner_board_id e \<in> bc_board_id ` set (boards c))
    \<and> (\<forall>r \<in> cr_rule ` set (cp_rules out).
         rule_reads r \<union> rule_sets r \<subseteq> te_device_id ` set (topo_entries (topology out))
         \<and> rule_boards r \<subseteq> bc_board_id ` set (boards c)
         \<and> (if rc_scope r = HouseLevel then bc_role (li_board (local_inventory out)) = Coordinator
            else rule_sets r \<subseteq> dc_device_id ` set (li_devices (local_inventory out))))"
proof -
  obtain board where ok: "config_ok c" and f: "find_board c target = Some board" and out: "out = project c board"
    by (rule compile_config_sound [OF assms])
  let ?inv = "filter (\<lambda>d. dc_owner_board_id d = bc_board_id board) (devices c)"
  have dist: "distinct (map dc_device_id (devices c))" using ok by (simp add: config_ok_def)
  have loc: "did \<in> dc_device_id ` set ?inv" if "device_owner c did = Some (bc_board_id board)" for did
    using that device_owner_mem [OF dist] by (auto simp: image_iff)
  have parts: "li_devices (local_inventory out) = ?inv"
    "li_controllers (local_inventory out) = filter (\<lambda>k. cc_owner_board_id k = bc_board_id board) (controllers c)"
    "records (stm32_dependencies out) = filter (\<lambda>d. dep_owner_board_id d = bc_board_id board) (dependencies c)"
    "cr_rule ` set (cp_rules out) = {r \<in> set (rules c). rule_applies_to_board r board}"
    "te_device_id ` set (topo_entries (topology out)) = dc_device_id ` set (devices c)"
    "te_owner_board_id ` set (topo_entries (topology out)) = dc_owner_board_id ` set (devices c)"
    "li_board (local_inventory out) = board"
    by (auto simp: out project_def Let_def compiled_rule.make_def image_iff)
  have rules: "rule_ok c r" if "r \<in> cr_rule ` set (cp_rules out)" for r
    using that ok by (simp add: parts config_ok_def)
  show ?thesis
  proof (intro conjI ballI)
    show "\<forall>port. dc_port d = Some port \<longrightarrow>
        (\<exists>k \<in> set (li_controllers (local_inventory out)). cc_controller_id k = pr_controller_id port)"
      if "d \<in> set (li_devices (local_inventory out))" for d
      using ok that by (fastforce simp: parts config_ok_def device_ok_def)
    show "{dp_device_id (dep_source d), dp_device_id (dep_destination d)} \<subseteq> dc_device_id ` set (li_devices (local_inventory out))"
      if "d \<in> set (records (stm32_dependencies out))" for d
      using ok loc that by (auto simp: parts config_ok_def dependency_ok_def)
    show "te_owner_board_id e \<in> bc_board_id ` set (boards c)" if "e \<in> set (topo_entries (topology out))" for e
      using ok imageI [OF that, of te_owner_board_id] by (auto simp: parts config_ok_def device_ok_def board_known_def)
  next
    fix r assume r: "r \<in> cr_rule ` set (cp_rules out)"
    show "rule_reads r \<union> rule_sets r \<subseteq> te_device_id ` set (topo_entries (topology out))"
      "rule_boards r \<subseteq> bc_board_id ` set (boards c)"
      using rule_ok_names(1,2) [OF rules [OF r]] by (auto simp: parts device_known_def board_known_def)
    show "if rc_scope r = HouseLevel then bc_role (li_board (local_inventory out)) = Coordinator
        else rule_sets r \<subseteq> dc_device_id ` set (li_devices (local_inventory out))"
      using r rule_ok_names(3) [OF rules [OF r]] loc
      by (cases "rc_scope r") (simp_all add: parts rule_applies_to_board_def subset_iff)
  qed
qed

theorem compiled_references_witness:
  "\<exists>out. compile_config example_caps example_config (BoardId 2) = Inr out
     \<and> cr_rule ` set (cp_rules out) = {example_rule}
     \<and> DeviceId 10 \<in> te_device_id ` set (topo_entries (topology out))
     \<and> DeviceId 11 \<in> dc_device_id ` set (li_devices (local_inventory out))"
proof -
  define out where "out = project example_config \<lparr>bc_board_id = BoardId 2, bc_role = Zone\<rparr>"
  have res: "compile_config example_caps example_config (BoardId 2) = Inr out"
    unfolding out_def by (rule compile_config_complete [OF example_config_ok]) code_simp
  have rules: "cr_rule ` set (cp_rules out) = {example_rule}" unfolding out_def by code_simp
  have r: "example_rule \<in> cr_rule ` set (cp_rules out)" using rules by simp
  have "DeviceId 10 \<in> rule_reads example_rule" "DeviceId 11 \<in> rule_sets example_rule" "rc_scope example_rule \<noteq> HouseLevel"
    by (simp_all add: example_rule_def rule_reads_def rule_sets_def body_actions_def)
  then show ?thesis
    using compiled_references [OF res, THEN conjunct2, THEN conjunct2, THEN conjunct2, THEN bspec, OF r] res rules
    by (intro exI [of _ out]) auto
qed

text \<open>
  No rule is lost and none runs twice. In a well-formed configuration every rule is compiled for
  exactly one of the boards.
\<close>

theorem rule_compiled_once:
  assumes "config_fits caps c" "config_ok c" "r \<in> set (rules c)"
  shows "\<exists>!board. board \<in> set (boards c)
    \<and> (\<exists>out. compile_config caps c (bc_board_id board) = Inr out \<and> r \<in> cr_rule ` set (cp_rules out))"
proof -
  have "(\<exists>out. compile_config caps c (bc_board_id board) = Inr out \<and> r \<in> cr_rule ` set (cp_rules out))
      \<longleftrightarrow> rule_applies_to_board r board" if "board \<in> set (boards c)" for board
  proof -
    have "compile_config caps c (bc_board_id board) = Inr (project c board)"
      by (rule compile_config_complete [OF assms(1,2) find_board_unique [OF assms(2) that]])
    moreover have "cr_rule ` set (cp_rules (project c board)) = {r \<in> set (rules c). rule_applies_to_board r board}"
      by (auto simp: project_def Let_def compiled_rule.make_def image_iff)
    ultimately show ?thesis using assms(3) by simp
  qed
  then show ?thesis using rule_applies_once [OF assms(2,3)] by blast
qed

theorem rule_compiled_once_witness:
  "\<exists>!board. board \<in> set (boards example_config)
    \<and> (\<exists>out. compile_config example_caps example_config (bc_board_id board) = Inr out
         \<and> example_rule \<in> cr_rule ` set (cp_rules out))"
proof -
  have "example_rule \<in> set (rules example_config)" by (simp add: example_config_def)
  then show ?thesis by (rule rule_compiled_once [OF example_config_ok])
qed

end
