(* ===== verification/Bytes.thy ===== *)
theory Bytes
  imports Prelude
begin

text \<open>
  Integers as bytes, in both byte orders: the standard library's \<open>to_be_bytes\<close>, \<open>from_be_bytes\<close>,
  \<open>to_le_bytes\<close> and \<open>from_le_bytes\<close>, the bytes of a string, and what is done to a buffer by an operation that fills a part of it.
\<close>

unbundle bit_operations_syntax

section \<open>Integers as bytes\<close>

definition u16_to_be_bytes :: "u16 \<Rightarrow> bytes" where
  "u16_to_be_bytes w = [ucast (drop_bit 8 w), ucast w]"

definition u32_to_be_bytes :: "u32 \<Rightarrow> bytes" where
  "u32_to_be_bytes w = [ucast (drop_bit 24 w), ucast (drop_bit 16 w), ucast (drop_bit 8 w), ucast w]"

definition u16_from_be_bytes :: "byte \<Rightarrow> byte \<Rightarrow> u16" where
  "u16_from_be_bytes a b = push_bit 8 (ucast a) OR ucast b"

definition u32_from_be_bytes :: "byte \<Rightarrow> byte \<Rightarrow> byte \<Rightarrow> byte \<Rightarrow> u32" where
  "u32_from_be_bytes a b c d =
     push_bit 24 (ucast a) OR push_bit 16 (ucast b) OR push_bit 8 (ucast c) OR ucast d"

definition u16_to_le_bytes :: "u16 \<Rightarrow> bytes" where
  "u16_to_le_bytes w = [ucast w, ucast (drop_bit 8 w)]"

definition u16_from_le_bytes :: "byte \<Rightarrow> byte \<Rightarrow> u16" where
  "u16_from_le_bytes a b = u16_from_be_bytes b a"

definition u32_to_le_bytes :: "u32 \<Rightarrow> bytes" where
  "u32_to_le_bytes w = rev (u32_to_be_bytes w)"

text \<open>\<open>str::as_bytes\<close>.\<close>

definition str_bytes :: "string \<Rightarrow> bytes" where
  "str_bytes s = map (\<lambda>c. word_of_nat (of_char c)) s"

definition put_at :: "nat \<Rightarrow> bytes \<Rightarrow> bytes \<Rightarrow> bytes" where
  "put_at i bs buf = take i buf @ bs @ drop (i + length bs) buf"

section \<open>Bytes and integers\<close>

lemma u16_be_roundtrip: "u16_from_be_bytes (ucast (drop_bit 8 w)) (ucast w) = w" for w :: u16
  by (rule bit_word_eqI) (auto simp: u16_from_be_bytes_def bit_simps)

lemma u32_be_roundtrip:
  "u32_from_be_bytes (ucast (drop_bit 24 w)) (ucast (drop_bit 16 w)) (ucast (drop_bit 8 w)) (ucast w) = w" for w :: u32
proof (rule bit_word_eqI)
  fix n assume "n < LENGTH(32)"
  then consider "n < 8" | "8 \<le> n" "n < 16" | "16 \<le> n" "n < 24" | "24 \<le> n" "n < 32" by fastforce
  then show "bit (u32_from_be_bytes (ucast (drop_bit 24 w)) (ucast (drop_bit 16 w)) (ucast (drop_bit 8 w)) (ucast w)) n
      = bit w n"
    by cases (auto simp: u32_from_be_bytes_def bit_simps)
qed

lemma u16_from_be_inj:
  assumes "u16_from_be_bytes a b = u16_from_be_bytes a' b'"
  shows "a = a' \<and> b = b'"
proof
  show "b = b'"
  proof (rule bit_word_eqI)
    fix n assume "n < LENGTH(8)"
    then show "bit b n = bit b' n"
      using arg_cong [OF assms, of "\<lambda>w. bit w n"] by (auto simp: u16_from_be_bytes_def bit_simps dest: bit_imp_le_length)
  qed
  show "a = a'"
  proof (rule bit_word_eqI)
    fix n assume "n < LENGTH(8)"
    then show "bit a n = bit a' n"
      using arg_cong [OF assms, of "\<lambda>w. bit w (n + 8)"] by (auto simp: u16_from_be_bytes_def bit_simps dest: bit_imp_le_length)
  qed
qed

lemma u32_from_be_inj:
  assumes "u32_from_be_bytes a b c d = u32_from_be_bytes a' b' c' d'"
  shows "a = a' \<and> b = b' \<and> c = c' \<and> d = d'"
proof (intro conjI)
  show "d = d'"
  proof (rule bit_word_eqI)
    fix n assume "n < LENGTH(8)"
    then show "bit d n = bit d' n"
      using arg_cong [OF assms, of "\<lambda>w. bit w n"] by (auto simp: u32_from_be_bytes_def bit_simps dest: bit_imp_le_length)
  qed
  show "c = c'"
  proof (rule bit_word_eqI)
    fix n assume "n < LENGTH(8)"
    then show "bit c n = bit c' n"
      using arg_cong [OF assms, of "\<lambda>w. bit w (n + 8)"] by (auto simp: u32_from_be_bytes_def bit_simps dest: bit_imp_le_length)
  qed
  show "b = b'"
  proof (rule bit_word_eqI)
    fix n assume "n < LENGTH(8)"
    then show "bit b n = bit b' n"
      using arg_cong [OF assms, of "\<lambda>w. bit w (n + 16)"] by (auto simp: u32_from_be_bytes_def bit_simps dest: bit_imp_le_length)
  qed
  show "a = a'"
  proof (rule bit_word_eqI)
    fix n assume "n < LENGTH(8)"
    then show "bit a n = bit a' n"
      using arg_cong [OF assms, of "\<lambda>w. bit w (n + 24)"] by (auto simp: u32_from_be_bytes_def bit_simps dest: bit_imp_le_length)
  qed
qed

lemma length_bytes [simp]:
  "length (u16_to_be_bytes w) = 2" "length (u32_to_be_bytes v) = 4"
  "length (u16_to_le_bytes w) = 2" "length (u32_to_le_bytes v) = 4"
  by (simp_all add: u16_to_be_bytes_def u32_to_be_bytes_def u16_to_le_bytes_def u32_to_le_bytes_def)

lemma u16_le_roundtrip: "u16_from_le_bytes (u16_to_le_bytes w ! 0) (u16_to_le_bytes w ! 1) = w"
  by (simp add: u16_from_le_bytes_def u16_to_le_bytes_def u16_be_roundtrip)

lemma u16_le_roundtrip': "u16_to_le_bytes (u16_from_le_bytes a b) = [a, b]"
proof -
  let ?w = "u16_from_le_bytes a b"
  have "u16_from_be_bytes (ucast (drop_bit 8 ?w)) (ucast ?w) = u16_from_be_bytes b a"
    by (simp only: u16_be_roundtrip) (simp add: u16_from_le_bytes_def)
  then have "ucast (drop_bit 8 ?w) = b" "ucast ?w = a" using u16_from_be_inj by blast+
  then show ?thesis by (simp add: u16_to_le_bytes_def)
qed

lemma unat_u16_of_nat: "n < 2 ^ 16 \<Longrightarrow> unat (word_of_nat n :: u16) = n"
  by (simp add: unsigned_of_nat take_bit_nat_eq_self)

lemma length_put_at [simp]: "i + length bs \<le> length buf \<Longrightarrow> length (put_at i bs buf) = length buf"
  by (simp add: put_at_def)

lemma take_put_at: "i \<le> length buf \<Longrightarrow> take (i + length bs) (put_at i bs buf) = take i buf @ bs"
  by (simp add: put_at_def)

lemma put_at_0 [simp]: "take (length bs) (put_at 0 bs buf) = bs"
  by (simp add: put_at_def)

lemma slice_split:
  assumes "lo \<le> mid" "mid \<le> hi"
  shows "slice lo hi xs = slice lo mid xs @ slice mid hi xs"
proof -
  have eq: "hi - lo = (mid - lo) + (hi - mid)" using assms by simp
  show ?thesis unfolding slice_def eq take_add using assms by simp
qed

lemma str_bytes_eq_iff: "str_bytes s = str_bytes t \<longleftrightarrow> s = t"
proof -
  have lt: "(of_char c :: nat) < 256" for c by (metis atLeastLessThan_iff range_nat_of_char rangeI)
  have "inj (\<lambda>c. word_of_nat (of_char c) :: byte)"
  proof (rule injI)
    fix c d :: char
    assume "(word_of_nat (of_char c) :: byte) = word_of_nat (of_char d)"
    then have "unat (word_of_nat (of_char c) :: byte) = unat (word_of_nat (of_char d) :: byte)" by simp
    then show "c = d" using lt [of c] lt [of d] by (simp add: unsigned_of_nat take_bit_nat_eq_self)
  qed
  then show ?thesis by (simp add: str_bytes_def inj_map_eq_map)
qed

lemma length_str_bytes [simp]: "length (str_bytes s) = length s"
  by (simp add: str_bytes_def)

lemma u16_to_be_inj: "u16_to_be_bytes v = u16_to_be_bytes w \<longleftrightarrow> v = w"
  by (metis list.inject u16_be_roundtrip u16_to_be_bytes_def)

lemma byte_of_nat_inj:
  assumes "m \<le> 255" "n \<le> 255"
  shows "(word_of_nat m :: byte) = word_of_nat n \<longleftrightarrow> m = n"
proof -
  have "unat (word_of_nat k :: byte) = k" if "k \<le> 255" for k
    using that by (simp add: unsigned_of_nat take_bit_nat_eq_self)
  with assms show ?thesis
    by metis
qed

end
