(* ===== verification/Envelope.thy ===== *)
theory Envelope
  imports Bytes
begin

text \<open>
  The envelope around stored configuration blobs, \<^verbatim>\<open>crates/smartbox-config/src/serialization.rs\<close>: magic,
  format version, kind, versions, length and CRC-32 in front of a payload. The payload is written and read by the
  \<open>postcard\<close> crate, a parameter: \<open>pc_to_slice v n\<close> is the bytes it writes for \<open>v\<close> to a buffer of
  \<open>n\<close> bytes, \<open>pc_from_bytes\<close> reads them back.
\<close>

unbundle bit_operations_syntax

section \<open>Data\<close>

definition MAGIC :: bytes where
  "MAGIC = [0x53, 0x42, 0x43, 0x46]"

definition HEADER_LEN :: nat where
  "HEADER_LEN = 20"

definition FORMAT_VERSION :: u8 where
  "FORMAT_VERSION = 1"

datatype blob_kind = CanonicalConfig | CompiledArtifacts

primrec blob_kind_as_u8 :: "blob_kind \<Rightarrow> u8" where
  "blob_kind_as_u8 CanonicalConfig = 1"
| "blob_kind_as_u8 CompiledArtifacts = 2"

definition blob_kind_from_u8 :: "u8 \<Rightarrow> blob_kind option" where
  "blob_kind_from_u8 v =
     (if v = 1 then Some CanonicalConfig else if v = 2 then Some CompiledArtifacts else None)"

record 'a decoded_blob =
  db_kind :: blob_kind
  db_schema_version :: u16
  db_config_version :: u32
  db_value :: 'a

datatype codec_error = BufferTooSmall | BadMagic | UnsupportedFormatVersion u8
  | UnexpectedKind blob_kind blob_kind | UnknownKind u8 | LengthMismatch | CrcMismatch u32 u32
  | PostcardSerialize | PostcardDeserialize

record 'a postcard =
  pc_to_slice :: "'a \<Rightarrow> nat \<Rightarrow> bytes option"
  pc_from_bytes :: "bytes \<Rightarrow> 'a option"

section \<open>Checksum\<close>

definition crc32_bit :: "u32 \<Rightarrow> u32" where
  "crc32_bit crc = (let mask = 0 - (crc AND 1) in drop_bit 1 crc XOR (0xEDB88320 AND mask))"

definition crc32_byte :: "byte \<Rightarrow> u32 \<Rightarrow> u32" where
  "crc32_byte b crc = (crc32_bit ^^ 8) (crc XOR ucast b)"

definition crc32 :: "bytes \<Rightarrow> u32" where
  "crc32 bs = NOT (fold crc32_byte bs 0xFFFFFFFF)"

section \<open>Encoding\<close>

definition encode_enveloped ::
  "'a postcard \<Rightarrow> blob_kind \<Rightarrow> u16 \<Rightarrow> u32 \<Rightarrow> 'a \<Rightarrow> nat \<Rightarrow> codec_error + bytes" where
  "encode_enveloped pc kind sv cv v out_len =
     (if out_len < HEADER_LEN then Inl BufferTooSmall
      else (case pc_to_slice pc v (out_len - HEADER_LEN) of
              None \<Rightarrow> Inl PostcardSerialize
            | Some payload \<Rightarrow>
                Inr (MAGIC @ [FORMAT_VERSION, blob_kind_as_u8 kind] @ u16_to_be_bytes sv @ u32_to_be_bytes cv
                     @ u32_to_be_bytes (word_of_nat (length payload)) @ u32_to_be_bytes (crc32 payload) @ payload)))"

text \<open>
  A length that would overflow \<open>usize\<close> is longer than any input, so it ends in \<open>LengthMismatch\<close> with
  natural numbers as well.
\<close>

definition decode_enveloped :: "'a postcard \<Rightarrow> blob_kind \<Rightarrow> bytes \<Rightarrow> codec_error + 'a decoded_blob" where
  "decode_enveloped pc expected_kind inp =
     (if length inp < HEADER_LEN then Inl BufferTooSmall
      else if take 4 inp \<noteq> MAGIC then Inl BadMagic
      else if inp ! 4 \<noteq> FORMAT_VERSION then Inl (UnsupportedFormatVersion (inp ! 4))
      else (case blob_kind_from_u8 (inp ! 5) of
              None \<Rightarrow> Inl (UnknownKind (inp ! 5))
            | Some kind \<Rightarrow>
                if kind \<noteq> expected_kind then Inl (UnexpectedKind expected_kind kind)
                else
                  (let sv = u16_from_be_bytes (inp ! 6) (inp ! 7);
                       cv = u32_from_be_bytes (inp ! 8) (inp ! 9) (inp ! 10) (inp ! 11);
                       payload_len = unat (u32_from_be_bytes (inp ! 12) (inp ! 13) (inp ! 14) (inp ! 15));
                       expected_crc = u32_from_be_bytes (inp ! 16) (inp ! 17) (inp ! 18) (inp ! 19);
                       total_len = HEADER_LEN + payload_len
                   in if length inp \<noteq> total_len then Inl LengthMismatch
                      else
                        (let payload = drop HEADER_LEN inp;
                             actual_crc = crc32 payload
                         in if actual_crc \<noteq> expected_crc then Inl (CrcMismatch expected_crc actual_crc)
                            else (case pc_from_bytes pc payload of
                                    None \<Rightarrow> Inl PostcardDeserialize
                                  | Some v \<Rightarrow> Inr \<lparr>db_kind = kind, db_schema_version = sv, db_config_version = cv,
                                                   db_value = v\<rparr>)))))"

section \<open>The checksum sees every changed byte\<close>

lemma mask_odd: "- (x AND 1) = (if bit x 0 then - 1 else 0)" for x :: u32
  by (simp add: and_one_eq bit_0 mod_2_eq_odd)

lemma crc32_bit_alt: "crc32_bit x = (if bit x 0 then drop_bit 1 x XOR 0xEDB88320 else drop_bit 1 x)"
  by (simp add: crc32_bit_def mask_odd Let_def)

lemma crc32_bit_top: "bit (crc32_bit x) 31 = bit x 0"
proof -
  have "\<not> bit x 32" using bit_imp_le_length [of x 32] by auto
  then show ?thesis by (simp add: crc32_bit_alt bit_simps)
qed

text \<open>The top bit of the polynomial makes a step reversible.\<close>

lemma inj_crc32_bit: "inj crc32_bit"
proof (rule injI)
  fix x y
  assume eq: "crc32_bit x = crc32_bit y"
  then have b0: "bit x 0 = bit y 0" by (metis crc32_bit_top)
  have "drop_bit 1 x = drop_bit 1 y"
  proof (cases "bit x 0")
    case True
    then have "drop_bit 1 x XOR 0xEDB88320 = drop_bit 1 y XOR 0xEDB88320" using eq b0 by (simp add: crc32_bit_alt)
    then have "(drop_bit 1 x XOR 0xEDB88320) XOR 0xEDB88320 = (drop_bit 1 y XOR 0xEDB88320) XOR 0xEDB88320" by simp
    then show ?thesis by (simp add: xor.assoc)
  next
    case False
    then show ?thesis using eq b0 by (simp add: crc32_bit_alt)
  qed
  then have "bit (drop_bit 1 x) n = bit (drop_bit 1 y) n" for n by (simp only:)
  then have "bit x (Suc n) = bit y (Suc n)" for n by (simp add: bit_simps)
  then show "x = y" using b0 by (metis bit_word_eqI not0_implies_Suc)
qed

lemma crc32_byte_inj: "crc32_byte b x = crc32_byte b y \<longleftrightarrow> x = y"
proof
  assume "crc32_byte b x = crc32_byte b y"
  then have "x XOR ucast b = y XOR ucast b"
    unfolding crc32_byte_def by (rule injD [OF inj_fn [OF inj_crc32_bit]])
  then have "(x XOR ucast b) XOR ucast b = (y XOR ucast b) XOR ucast b" by simp
  then show "x = y" by (simp add: xor.assoc)
qed simp

lemma crc32_byte_differs: "b \<noteq> c \<Longrightarrow> crc32_byte b x \<noteq> crc32_byte c x"
proof
  assume "b \<noteq> c" "crc32_byte b x = crc32_byte c x"
  then have "x XOR ucast b = x XOR ucast c"
    unfolding crc32_byte_def using injD [OF inj_fn [OF inj_crc32_bit]] by blast
  then have "x XOR (x XOR ucast b) = x XOR (x XOR ucast c)" by simp
  then have "(ucast b :: u32) = ucast c" by (simp flip: xor.assoc)
  then have same: "bit (ucast b :: u32) n = bit (ucast c :: u32) n" for n by (simp only:)
  have "bit b n = bit c n" if "n < 8" for n using same [of n] that by (simp add: bit_simps)
  then have "b = c" by (intro bit_word_eqI) simp
  with \<open>b \<noteq> c\<close> show False by simp
qed

lemma crc32_fold_inj: "fold crc32_byte bs x = fold crc32_byte bs y \<longleftrightarrow> x = y"
  by (induction bs arbitrary: x y) (simp_all add: crc32_byte_inj)

lemma crc32_one_byte:
  assumes "i < length bs" "v \<noteq> bs ! i"
  shows "crc32 (bs[i := v]) \<noteq> crc32 bs"
proof -
  have split: "bs = take i bs @ bs ! i # drop (Suc i) bs" using assms(1) by (rule id_take_nth_drop)
  have "fold crc32_byte bs x
      = fold crc32_byte (drop (Suc i) bs) (crc32_byte (bs ! i) (fold crc32_byte (take i bs) x))" for x
    by (subst split) simp
  moreover have "fold crc32_byte (bs[i := v]) x
      = fold crc32_byte (drop (Suc i) bs) (crc32_byte v (fold crc32_byte (take i bs) x))" for x
    using assms(1) by (simp add: upd_conv_take_nth_drop)
  ultimately show ?thesis
    using crc32_byte_differs [OF assms(2)] by (simp add: crc32_def bit.compl_eq_compl_iff crc32_fold_inj)
qed

section \<open>Layout\<close>

text \<open>What the codec has to promise for one value: it reads back what it wrote, within the buffer.\<close>

definition postcard_roundtrip :: "'a postcard \<Rightarrow> 'a \<Rightarrow> bool" where
  "postcard_roundtrip pc v \<longleftrightarrow>
     (\<forall>n bs. pc_to_slice pc v n = Some bs \<longrightarrow> length bs \<le> n \<and> pc_from_bytes pc bs = Some v)"

definition header :: "blob_kind \<Rightarrow> u16 \<Rightarrow> u32 \<Rightarrow> bytes \<Rightarrow> bytes" where
  "header kind sv cv payload =
     MAGIC @ [FORMAT_VERSION, blob_kind_as_u8 kind] @ u16_to_be_bytes sv @ u32_to_be_bytes cv
       @ u32_to_be_bytes (word_of_nat (length payload)) @ u32_to_be_bytes (crc32 payload)"

lemma length_header [simp]: "length (header kind sv cv payload) = 20"
  by (simp add: header_def MAGIC_def u16_to_be_bytes_def u32_to_be_bytes_def)

lemma encode_enveloped_Inr:
  "encode_enveloped pc kind sv cv v n = Inr bs \<Longrightarrow>
   \<exists>payload. HEADER_LEN \<le> n \<and> pc_to_slice pc v (n - HEADER_LEN) = Some payload \<and> bs = header kind sv cv payload @ payload"
  by (auto simp: encode_enveloped_def header_def split: if_splits option.splits)

text \<open>The fields a decoder sees.\<close>

record fields =
  f_magic :: bytes
  f_format :: u8
  f_kind :: u8
  f_schema :: u16
  f_config :: u32
  f_length :: u32
  f_crc :: u32
  f_payload :: bytes

definition fields_of :: "bytes \<Rightarrow> fields" where
  "fields_of inp =
     \<lparr>f_magic = take 4 inp, f_format = inp ! 4, f_kind = inp ! 5,
      f_schema = u16_from_be_bytes (inp ! 6) (inp ! 7),
      f_config = u32_from_be_bytes (inp ! 8) (inp ! 9) (inp ! 10) (inp ! 11),
      f_length = u32_from_be_bytes (inp ! 12) (inp ! 13) (inp ! 14) (inp ! 15),
      f_crc = u32_from_be_bytes (inp ! 16) (inp ! 17) (inp ! 18) (inp ! 19),
      f_payload = drop 20 inp\<rparr>"

lemma decode_fields:
  "decode_enveloped pc kind inp = Inr db \<longleftrightarrow>
     20 \<le> length inp \<and> f_magic (fields_of inp) = MAGIC \<and> f_format (fields_of inp) = FORMAT_VERSION
     \<and> blob_kind_from_u8 (f_kind (fields_of inp)) = Some kind
     \<and> length inp = 20 + unat (f_length (fields_of inp)) \<and> crc32 (f_payload (fields_of inp)) = f_crc (fields_of inp)
     \<and> (\<exists>v. pc_from_bytes pc (f_payload (fields_of inp)) = Some v
         \<and> db = \<lparr>db_kind = kind, db_schema_version = f_schema (fields_of inp),
                 db_config_version = f_config (fields_of inp), db_value = v\<rparr>)"
  by (auto simp: decode_enveloped_def fields_of_def Let_def HEADER_LEN_def split: option.splits if_splits)

lemma fields_header:
  "fields_of (header kind sv cv payload @ rest) =
     \<lparr>f_magic = MAGIC, f_format = FORMAT_VERSION, f_kind = blob_kind_as_u8 kind, f_schema = sv, f_config = cv,
      f_length = word_of_nat (length payload), f_crc = crc32 payload, f_payload = rest\<rparr>"
  by (simp add: fields_of_def header_def MAGIC_def u16_to_be_bytes_def u32_to_be_bytes_def u16_be_roundtrip u32_be_roundtrip)

lemma kind_roundtrip: "blob_kind_from_u8 (blob_kind_as_u8 kind) = Some kind"
  by (cases kind) (simp_all add: blob_kind_from_u8_def)

lemma kind_from_u8_iff: "blob_kind_from_u8 w = Some kind \<longleftrightarrow> w = blob_kind_as_u8 kind"
  by (cases kind) (auto simp: blob_kind_from_u8_def)

lemma envelope_roundtrip_lemma:
  assumes "postcard_roundtrip pc v" "n \<le> 2 ^ 32" "encode_enveloped pc kind sv cv v n = Inr bs"
  shows "length bs \<le> n" "decode_enveloped pc kind bs =
      Inr \<lparr>db_kind = kind, db_schema_version = sv, db_config_version = cv, db_value = v\<rparr>"
proof -
  obtain payload where p: "20 \<le> n" "pc_to_slice pc v (n - 20) = Some payload" "bs = header kind sv cv payload @ payload"
    using encode_enveloped_Inr [OF assms(3)] by (auto simp: HEADER_LEN_def)
  then have l: "length payload \<le> n - 20" "pc_from_bytes pc payload = Some v"
    using assms(1) by (auto simp: postcard_roundtrip_def)
  then show "length bs \<le> n" using p by simp
  have "unat (word_of_nat (length payload) :: u32) = length payload"
    using l(1) p(1) assms(2) by (simp add: unsigned_of_nat take_bit_nat_eq_self)
  then show "decode_enveloped pc kind bs =
      Inr \<lparr>db_kind = kind, db_schema_version = sv, db_config_version = cv, db_value = v\<rparr>"
    unfolding decode_fields p(3) fields_header using l by (simp add: kind_roundtrip)
qed

lemma same_header_bytes:
  assumes "f_magic (fields_of x) = f_magic (fields_of y)" "f_format (fields_of x) = f_format (fields_of y)"
    and "f_kind (fields_of x) = f_kind (fields_of y)" "f_schema (fields_of x) = f_schema (fields_of y)"
    and "f_config (fields_of x) = f_config (fields_of y)" "f_length (fields_of x) = f_length (fields_of y)"
    and "20 \<le> length x" "20 \<le> length y" "i < 16"
  shows "x ! i = y ! i"
proof (cases "i < 4")
  case True
  then have "take 4 x ! i = take 4 y ! i" using assms(1) by (simp add: fields_of_def)
  then show ?thesis using True by simp
next
  case False
  have "x ! 6 = y ! 6 \<and> x ! 7 = y ! 7" by (rule u16_from_be_inj) (use assms(4) in \<open>simp add: fields_of_def\<close>)
  moreover have "x ! 8 = y ! 8 \<and> x ! 9 = y ! 9 \<and> x ! 10 = y ! 10 \<and> x ! 11 = y ! 11"
    by (rule u32_from_be_inj) (use assms(5) in \<open>simp add: fields_of_def\<close>)
  moreover have "x ! 12 = y ! 12 \<and> x ! 13 = y ! 13 \<and> x ! 14 = y ! 14 \<and> x ! 15 = y ! 15"
    by (rule u32_from_be_inj) (use assms(6) in \<open>simp add: fields_of_def\<close>)
  moreover have "x ! 4 = y ! 4" "x ! 5 = y ! 5" using assms(2,3) by (simp_all add: fields_of_def)
  moreover have "i \<in> {4, 5, 6, 7, 8, 9, 10, 11, 12, 13, 14, 15}" using False assms(9) by simp arith
  ultimately show ?thesis by auto
qed

lemma corrupt_envelope:
  assumes len: "length payload < 2 ^ 32" and bs: "bs = header kind sv cv payload @ payload"
    and i: "i < length bs" and v: "v \<noteq> bs ! i" and dec: "decode_enveloped pc kind (bs[i := v]) = Inr db"
  shows "db_schema_version db \<noteq> sv \<or> db_config_version db \<noteq> cv"
proof (rule ccontr)
  let ?bs = "bs[i := v]"
  assume "\<not> (db_schema_version db \<noteq> sv \<or> db_config_version db \<noteq> cv)"
  then have ver: "f_schema (fields_of ?bs) = sv" "f_config (fields_of ?bs) = cv"
    using dec by (auto simp: decode_fields)
  have ok: "f_magic (fields_of ?bs) = MAGIC" "f_format (fields_of ?bs) = FORMAT_VERSION"
      "f_kind (fields_of ?bs) = blob_kind_as_u8 kind" "length bs = 20 + unat (f_length (fields_of ?bs))"
      "crc32 (f_payload (fields_of ?bs)) = f_crc (fields_of ?bs)"
    using dec by (auto simp: decode_fields kind_from_u8_iff)
  have old: "fields_of bs = \<lparr>f_magic = MAGIC, f_format = FORMAT_VERSION, f_kind = blob_kind_as_u8 kind, f_schema = sv,
      f_config = cv, f_length = word_of_nat (length payload), f_crc = crc32 payload, f_payload = payload\<rparr>"
    unfolding bs by (rule fields_header)
  have "unat (f_length (fields_of ?bs)) = length payload" using ok(4) bs by simp
  then have flen: "f_length (fields_of ?bs) = word_of_nat (length payload)" by (metis of_nat_unat ucast_id)
  have "?bs ! j = bs ! j" if "j < 16" for j
    by (rule same_header_bytes) (use ok ver old flen that bs in simp_all)
  then have i16: "16 \<le> i" using i v by (metis not_le nth_list_update_eq)
  show False
  proof (cases "i < 20")
    case True
    then have "f_payload (fields_of ?bs) = payload" using old by (simp add: fields_of_def drop_update_cancel)
    then have "f_crc (fields_of ?bs) = f_crc (fields_of bs)" using ok(5) old by simp
    then have "?bs ! 16 = bs ! 16 \<and> ?bs ! 17 = bs ! 17 \<and> ?bs ! 18 = bs ! 18 \<and> ?bs ! 19 = bs ! 19"
      by (intro u32_from_be_inj) (simp add: fields_of_def)
    moreover have "i \<in> {16, 17, 18, 19}" using i16 True by simp arith
    ultimately have "?bs ! i = bs ! i" by auto
    then show False using i v by simp
  next
    case False
    then have "f_payload (fields_of ?bs) = payload[i - 20 := v]" "f_crc (fields_of ?bs) = crc32 payload"
      using old by (simp_all add: fields_of_def drop_update_swap)
    moreover have "crc32 (payload[i - 20 := v]) \<noteq> crc32 payload"
      by (rule crc32_one_byte) (use False i v bs in \<open>auto simp: nth_append\<close>)
    ultimately show False using ok(5) by simp
  qed
qed

section \<open>Properties\<close>

text \<open>
  C30: round trip. What \<open>encode_enveloped\<close> writes fits the buffer, and \<open>decode_enveloped\<close> reads back the kind,
  the versions and the value, for a buffer that a 32-bit machine can have and a payload codec that reads back
  what it wrote.
\<close>

theorem envelope_roundtrip:
  assumes "postcard_roundtrip pc v" "n \<le> 2 ^ 32" "encode_enveloped pc kind sv cv v n = Inr bs"
  shows "length bs \<le> n \<and> decode_enveloped pc kind bs =
      Inr \<lparr>db_kind = kind, db_schema_version = sv, db_config_version = cv, db_value = v\<rparr>"
  using envelope_roundtrip_lemma [OF assms] by simp

text \<open>A payload codec for the witnesses: one byte.\<close>

definition byte_postcard :: "byte postcard" where
  "byte_postcard = \<lparr>pc_to_slice = (\<lambda>v n. if 1 \<le> n then Some [v] else None),
     pc_from_bytes = (\<lambda>bs. case bs of [v] \<Rightarrow> Some v | _ \<Rightarrow> None)\<rparr>"

lemma byte_postcard_ok: "postcard_roundtrip byte_postcard v"
  by (auto simp: postcard_roundtrip_def byte_postcard_def split: if_splits)

theorem envelope_roundtrip_witness:
  "\<exists>bs. encode_enveloped byte_postcard CompiledArtifacts 1 7 42 64 = Inr bs \<and> length bs = 21
     \<and> decode_enveloped byte_postcard CompiledArtifacts bs =
         Inr \<lparr>db_kind = CompiledArtifacts, db_schema_version = 1, db_config_version = 7, db_value = 42\<rparr>"
proof -
  obtain bs where bs: "encode_enveloped byte_postcard CompiledArtifacts 1 7 42 64 = Inr bs" "length bs = 21"
    by (simp add: encode_enveloped_def byte_postcard_def HEADER_LEN_def MAGIC_def u16_to_be_bytes_def u32_to_be_bytes_def)
  then show ?thesis using envelope_roundtrip [OF byte_postcard_ok _ bs(1)] by simp
qed

text \<open>
  The checksum. Two payloads of the same length that differ in one byte have different checksums.
\<close>

theorem crc32_detects_one_byte:
  assumes "i < length bs" "v \<noteq> bs ! i"
  shows "crc32 (bs[i := v]) \<noteq> crc32 bs"
  using assms by (rule crc32_one_byte)

theorem crc32_detects_one_byte_witness: "crc32 ([1, 2, 3][1 := 9]) \<noteq> crc32 [1, 2, 3]"
  using crc32_detects_one_byte [of 1 "[1, 2, 3]" 9] by simp

end
