(* ===== verification/Config_Store.thy ===== *)
theory Config_Store
  imports Config_Compiler Envelope
begin

text \<open>
  The life of a configuration in storage: the slot state machine (\<^verbatim>\<open>crates/smartbox-config/src/active_slot.rs\<close>),
  the storage interface and its test double (\<^verbatim>\<open>storage.rs\<close>), the pipeline that prepares a candidate and loads
  the active configuration (\<^verbatim>\<open>pipeline.rs\<close>), and the manager the firmware calls (\<^verbatim>\<open>manager.rs\<close>). A
  storage back end is a record of operations on its state; the locale \<open>config_store_laws\<close> is what the pipeline
  needs of it.
\<close>

section \<open>The active slot\<close>

datatype config_slot_id = ConfigSlotId u32

datatype active_slot_error = InvalidSlot | CandidateAlreadyOpen | NoCandidateOpen | CandidateVersionNotNewer

record active_slot_state =
  as_active_slot :: config_slot_id
  as_active_config_version :: u32
  as_candidate :: "(config_slot_id \<times> u32) option"

definition active_slot_new :: "config_slot_id \<Rightarrow> u32 \<Rightarrow> active_slot_state" where
  "active_slot_new slot v = \<lparr>as_active_slot = slot, as_active_config_version = v, as_candidate = None\<rparr>"

definition begin_candidate ::
  "config_slot_id \<Rightarrow> u32 \<Rightarrow> active_slot_state \<Rightarrow> (active_slot_error + unit) \<times> active_slot_state" where
  "begin_candidate slot v a =
     (if slot = ConfigSlotId 0 then (Inl InvalidSlot, a)
      else if as_candidate a \<noteq> None then (Inl CandidateAlreadyOpen, a)
      else if v \<le> as_active_config_version a then (Inl CandidateVersionNotNewer, a)
      else (Inr (), a\<lparr>as_candidate := Some (slot, v)\<rparr>))"

definition commit_candidate ::
  "active_slot_state \<Rightarrow> (active_slot_error + config_slot_id) \<times> active_slot_state" where
  "commit_candidate a =
     (case as_candidate a of
        None \<Rightarrow> (Inl NoCandidateOpen, a)
      | Some (slot, v) \<Rightarrow>
          (Inr slot, a\<lparr>as_candidate := None, as_active_slot := slot, as_active_config_version := v\<rparr>))"

definition discard_candidate :: "active_slot_state \<Rightarrow> (active_slot_error + unit) \<times> active_slot_state" where
  "discard_candidate a =
     (case as_candidate a of
        None \<Rightarrow> (Inl NoCandidateOpen, a)
      | Some _ \<Rightarrow> (Inr (), a\<lparr>as_candidate := None\<rparr>))"

section \<open>Storage\<close>

record ('s, 'e) config_store =
  cs_active_slot :: "'s \<Rightarrow> 'e + config_slot_id"
  cs_write_active_slot :: "config_slot_id \<Rightarrow> 's \<Rightarrow> ('e + unit) \<times> 's"
  cs_read_blob :: "config_slot_id \<Rightarrow> blob_kind \<Rightarrow> nat \<Rightarrow> 's \<Rightarrow> 'e + bytes"
  cs_write_blob :: "config_slot_id \<Rightarrow> blob_kind \<Rightarrow> bytes \<Rightarrow> 's \<Rightarrow> ('e + unit) \<times> 's"
  cs_discard_slot :: "config_slot_id \<Rightarrow> 's \<Rightarrow> ('e + unit) \<times> 's"

datatype 'e config_store_error = CSStore 'e | CSCodec codec_error

definition load_active_blob ::
  "('s, 'e) config_store \<Rightarrow> 'a postcard \<Rightarrow> nat \<Rightarrow> blob_kind \<Rightarrow> 's \<Rightarrow> 'e config_store_error + 'a decoded_blob" where
  "load_active_blob st pc scratch kind s =
     and_then (map_err CSStore (cs_active_slot st s)) (\<lambda>slot.
     and_then (map_err CSStore (cs_read_blob st slot kind scratch s)) (\<lambda>bs.
     map_err CSCodec (decode_enveloped pc kind bs)))"

definition prepare_candidate_slot ::
  "('s, 'e) config_store \<Rightarrow> 'a postcard \<Rightarrow> config_slot_id \<Rightarrow> blob_kind \<Rightarrow> u16 \<Rightarrow> u32 \<Rightarrow> 'a \<Rightarrow> nat \<Rightarrow> 's
     \<Rightarrow> ('e config_store_error + unit) \<times> 's" where
  "prepare_candidate_slot st pc slot kind sv cv v scratch s =
     (case encode_enveloped pc kind sv cv v scratch of
        Inl e \<Rightarrow> (Inl (CSCodec e), s)
      | Inr encoded \<Rightarrow> apfst (map_err CSStore) (cs_write_blob st slot kind encoded s))"

definition commit_candidate_slot ::
  "('s, 'e) config_store \<Rightarrow> config_slot_id \<Rightarrow> 's \<Rightarrow> ('e config_store_error + unit) \<times> 's" where
  "commit_candidate_slot st slot s = apfst (map_err CSStore) (cs_write_active_slot st slot s)"

subsection \<open>The test double\<close>

text \<open>
  \<open>MockStore\<close> has two slots and panics on others and on a buffer that is too small. Its error type is \<open>()\<close>;
  here the error \<open>Some ()\<close> is that error, and \<open>None\<close> stands for the panic.
\<close>

record mock_store =
  ms_active :: u32
  slot_1_canonical :: bytes
  slot_1_compiled :: bytes
  slot_2_canonical :: bytes
  slot_2_compiled :: bytes
  fail_write_kind :: "blob_kind option"
  discard_count :: nat
  active_write_count :: nat

definition mock_store_default :: mock_store where
  "mock_store_default = \<lparr>ms_active = 0, slot_1_canonical = [], slot_1_compiled = [], slot_2_canonical = [],
     slot_2_compiled = [], fail_write_kind = None, discard_count = 0, active_write_count = 0\<rparr>"

definition mock_blob :: "config_slot_id \<Rightarrow> blob_kind \<Rightarrow> mock_store \<Rightarrow> bytes option" where
  "mock_blob slot kind s =
     (if slot = ConfigSlotId 1
      then (case kind of CanonicalConfig \<Rightarrow> Some (slot_1_canonical s) | CompiledArtifacts \<Rightarrow> Some (slot_1_compiled s))
      else if slot = ConfigSlotId 2
      then (case kind of CanonicalConfig \<Rightarrow> Some (slot_2_canonical s) | CompiledArtifacts \<Rightarrow> Some (slot_2_compiled s))
      else None)"

definition mock_blob_mut :: "config_slot_id \<Rightarrow> blob_kind \<Rightarrow> bytes \<Rightarrow> mock_store \<Rightarrow> mock_store option" where
  "mock_blob_mut slot kind bs s =
     (if slot = ConfigSlotId 1
      then (case kind of CanonicalConfig \<Rightarrow> Some (s\<lparr>slot_1_canonical := bs\<rparr>)
            | CompiledArtifacts \<Rightarrow> Some (s\<lparr>slot_1_compiled := bs\<rparr>))
      else if slot = ConfigSlotId 2
      then (case kind of CanonicalConfig \<Rightarrow> Some (s\<lparr>slot_2_canonical := bs\<rparr>)
            | CompiledArtifacts \<Rightarrow> Some (s\<lparr>slot_2_compiled := bs\<rparr>))
      else None)"

definition mock_read_blob :: "config_slot_id \<Rightarrow> blob_kind \<Rightarrow> nat \<Rightarrow> mock_store \<Rightarrow> unit option + bytes" where
  "mock_read_blob slot kind out_len s =
     (case mock_blob slot kind s of
        None \<Rightarrow> Inl None
      | Some stored \<Rightarrow> if length stored \<le> out_len then Inr stored else Inl None)"

definition mock_write_blob ::
  "config_slot_id \<Rightarrow> blob_kind \<Rightarrow> bytes \<Rightarrow> mock_store \<Rightarrow> (unit option + unit) \<times> mock_store" where
  "mock_write_blob slot kind bs s =
     (if fail_write_kind s = Some kind then (Inl (Some ()), s)
      else (case mock_blob_mut slot kind [] s of
              None \<Rightarrow> (Inl None, s)
            | Some cleared \<Rightarrow>
                (case from_slice 1024 bs of
                   None \<Rightarrow> (Inl (Some ()), cleared)
                 | Some bs' \<Rightarrow>
                     (case mock_blob_mut slot kind bs' cleared of
                        None \<Rightarrow> (Inl None, cleared)
                      | Some s' \<Rightarrow> (Inr (), s')))))"

definition mock_discard_slot :: "config_slot_id \<Rightarrow> mock_store \<Rightarrow> (unit option + unit) \<times> mock_store" where
  "mock_discard_slot slot s =
     (let s1 = s\<lparr>discard_count := discard_count s + 1\<rparr>
      in case mock_blob_mut slot CanonicalConfig [] s1 of
           None \<Rightarrow> (Inl None, s1)
         | Some s2 \<Rightarrow>
             (case mock_blob_mut slot CompiledArtifacts [] s2 of
                None \<Rightarrow> (Inl None, s2)
              | Some s3 \<Rightarrow> (Inr (), s3)))"

definition mock_write_active_slot :: "config_slot_id \<Rightarrow> mock_store \<Rightarrow> (unit option + unit) \<times> mock_store" where
  "mock_write_active_slot slot s =
     (case slot of ConfigSlotId n \<Rightarrow>
        (Inr (), s\<lparr>active_write_count := active_write_count s + 1, ms_active := n\<rparr>))"

definition mock_store_ops :: "(mock_store, unit option) config_store" where
  "mock_store_ops =
     \<lparr>cs_active_slot = (\<lambda>s. Inr (ConfigSlotId (ms_active s))), cs_write_active_slot = mock_write_active_slot,
      cs_read_blob = mock_read_blob, cs_write_blob = mock_write_blob, cs_discard_slot = mock_discard_slot\<rparr>"

section \<open>Pipeline\<close>

record prepared_candidate =
  pr_slot :: config_slot_id
  pr_schema_version :: u16
  pr_config_version :: u32

datatype 'e prepare_candidate_error = PCCompile compile_error | PCStore "'e config_store_error"
  | PCDiscardAfterStoreFailure "'e config_store_error" 'e

datatype 'e safe_boot_reason = SBStore 'e | SBCodec codec_error | SchemaVersionMismatch u16 u16
  | ConfigVersionMismatch u32 u32

datatype ('a, 'e) boot_config_result = BootReady 'a u16 u32 | SafeBoot "'e safe_boot_reason"

definition discard_after_store_failure ::
  "('s, 'e) config_store \<Rightarrow> config_slot_id \<Rightarrow> 'e config_store_error \<Rightarrow> 's \<Rightarrow> 'e prepare_candidate_error \<times> 's" where
  "discard_after_store_failure st slot e s =
     (case cs_discard_slot st slot s of
        (Inr _, s') \<Rightarrow> (PCStore e, s')
      | (Inl d, s') \<Rightarrow> (PCDiscardAfterStoreFailure e d, s'))"

definition prepare_candidate_blob ::
  "('s, 'e) config_store \<Rightarrow> 'a postcard \<Rightarrow> config_slot_id \<Rightarrow> blob_kind \<Rightarrow> u16 \<Rightarrow> u32 \<Rightarrow> 'a \<Rightarrow> nat \<Rightarrow> 's
     \<Rightarrow> ('e prepare_candidate_error + unit) \<times> 's" where
  "prepare_candidate_blob st pc slot kind sv cv v scratch s =
     (case prepare_candidate_slot st pc slot kind sv cv v scratch s of
        (Inr _, s') \<Rightarrow> (Inr (), s')
      | (Inl e, s') \<Rightarrow> apfst Inl (discard_after_store_failure st slot e s'))"

text \<open>The two instances of the payload codec.\<close>

record config_codecs =
  canonical_pc :: "canonical_config postcard"
  compiled_pc :: "compiled_config postcard"

definition compile_and_prepare_candidate ::
  "('s, 'e) config_store \<Rightarrow> config_codecs \<Rightarrow> config_caps \<Rightarrow> canonical_config \<Rightarrow> board_id \<Rightarrow> config_slot_id \<Rightarrow> nat
     \<Rightarrow> 's \<Rightarrow> ('e prepare_candidate_error + prepared_candidate) \<times> 's" where
  "compile_and_prepare_candidate st pcs caps c target slot scratch s =
     (case compile_config caps c target of
        Inl e \<Rightarrow> (Inl (PCCompile e), s)
      | Inr compiled \<Rightarrow>
          (case prepare_candidate_blob st (canonical_pc pcs) slot CanonicalConfig (schema_version c)
                  (config_version c) c scratch s of
             (Inl e, s1) \<Rightarrow> (Inl e, s1)
           | (Inr _, s1) \<Rightarrow>
               (case prepare_candidate_blob st (compiled_pc pcs) slot CompiledArtifacts (schema_version c)
                       (config_version c) compiled scratch s1 of
                  (Inl e, s2) \<Rightarrow> (Inl e, s2)
                | (Inr _, s2) \<Rightarrow>
                    (Inr \<lparr>pr_slot = slot, pr_schema_version = schema_version c,
                          pr_config_version = config_version c\<rparr>, s2))))"

definition load_active_compiled_config ::
  "('s, 'e) config_store \<Rightarrow> 'a postcard \<Rightarrow> u16 \<Rightarrow> u32 \<Rightarrow> nat \<Rightarrow> 's \<Rightarrow> ('a, 'e) boot_config_result" where
  "load_active_compiled_config st pc expected_sv expected_cv scratch s =
     (case load_active_blob st pc scratch CompiledArtifacts s of
        Inl (CSStore e) \<Rightarrow> SafeBoot (SBStore e)
      | Inl (CSCodec e) \<Rightarrow> SafeBoot (SBCodec e)
      | Inr decoded \<Rightarrow>
          if db_schema_version decoded \<noteq> expected_sv
          then SafeBoot (SchemaVersionMismatch expected_sv (db_schema_version decoded))
          else if db_config_version decoded \<noteq> expected_cv
          then SafeBoot (ConfigVersionMismatch expected_cv (db_config_version decoded))
          else BootReady (db_value decoded) (db_schema_version decoded) (db_config_version decoded))"

section \<open>The manager\<close>

record 's config_manager =
  cm_store :: 's

definition manager_new :: "'s \<Rightarrow> 's config_manager" where
  "manager_new s = \<lparr>cm_store = s\<rparr>"

datatype 'e activate_prepared_error = APStore "'e config_store_error"
  | SlotMismatch config_slot_id config_slot_id

definition prepare_update ::
  "('s, 'e) config_store \<Rightarrow> config_codecs \<Rightarrow> config_caps \<Rightarrow> canonical_config \<Rightarrow> board_id \<Rightarrow> config_slot_id \<Rightarrow> nat
     \<Rightarrow> 's config_manager \<Rightarrow> ('e prepare_candidate_error + prepared_candidate) \<times> 's config_manager" where
  "prepare_update st pcs caps c target slot scratch m =
     (let (res, s) = compile_and_prepare_candidate st pcs caps c target slot scratch (cm_store m)
      in (res, m\<lparr>cm_store := s\<rparr>))"

definition activate_prepared ::
  "('s, 'e) config_store \<Rightarrow> prepared_candidate \<Rightarrow> config_slot_id \<Rightarrow> 's config_manager
     \<Rightarrow> ('e activate_prepared_error + unit) \<times> 's config_manager" where
  "activate_prepared st prepared requested m =
     (if pr_slot prepared \<noteq> requested then (Inl (SlotMismatch (pr_slot prepared) requested), m)
      else (let (res, s) = commit_candidate_slot st (pr_slot prepared) (cm_store m)
            in (map_err APStore res, m\<lparr>cm_store := s\<rparr>)))"

definition boot_load ::
  "('s, 'e) config_store \<Rightarrow> config_codecs \<Rightarrow> u16 \<Rightarrow> u32 \<Rightarrow> nat \<Rightarrow> 's config_manager
     \<Rightarrow> (compiled_config, 'e) boot_config_result" where
  "boot_load st pcs expected_sv expected_cv scratch m =
     load_active_compiled_config st (compiled_pc pcs) expected_sv expected_cv scratch (cm_store m)"

section \<open>What the pipeline needs of a store\<close>

text \<open>
  For the slots a back end has: a blob that was written can be read back, writing and discarding touch
  neither the other slots nor the pointer to the active slot, and the pointer is replaced as a whole.
\<close>

locale config_store_laws =
  fixes st :: "('s, 'e) config_store"
    and usable :: "config_slot_id \<Rightarrow> bool"
  assumes write_read: "usable a \<Longrightarrow> cs_write_blob st a k bs s = (Inr u, s') \<Longrightarrow> length bs \<le> n \<Longrightarrow>
      cs_read_blob st a k n s' = Inr bs"
    and write_kind: "usable a \<Longrightarrow> cs_write_blob st a k bs s = (Inr u, s') \<Longrightarrow> k' \<noteq> k \<Longrightarrow>
      cs_read_blob st a k' n s' = cs_read_blob st a k' n s"
    and write_slot: "usable a \<Longrightarrow> usable b \<Longrightarrow> b \<noteq> a \<Longrightarrow>
      cs_read_blob st b k' n (snd (cs_write_blob st a k bs s)) = cs_read_blob st b k' n s"
    and write_active: "usable a \<Longrightarrow> cs_active_slot st (snd (cs_write_blob st a k bs s)) = cs_active_slot st s"
    and discard_slot: "usable a \<Longrightarrow> usable b \<Longrightarrow> b \<noteq> a \<Longrightarrow>
      cs_read_blob st b k' n (snd (cs_discard_slot st a s)) = cs_read_blob st b k' n s"
    and discard_active: "usable a \<Longrightarrow> cs_active_slot st (snd (cs_discard_slot st a s)) = cs_active_slot st s"
    and activate_active: "cs_write_active_slot st a s = (Inr u, s') \<Longrightarrow> cs_active_slot st s' = Inr a"
    and activate_read: "cs_read_blob st b k n (snd (cs_write_active_slot st a s)) = cs_read_blob st b k n s"
begin

text \<open>Preparing a candidate is invisible from the other slots.\<close>

definition unseen :: "config_slot_id \<Rightarrow> 's \<Rightarrow> 's \<Rightarrow> bool" where
  "unseen a s s' \<longleftrightarrow> cs_active_slot st s' = cs_active_slot st s
     \<and> (\<forall>b k n. usable b \<longrightarrow> b \<noteq> a \<longrightarrow> cs_read_blob st b k n s' = cs_read_blob st b k n s)"

lemma unseen_trans: "unseen a s s1 \<Longrightarrow> unseen a s1 s2 \<Longrightarrow> unseen a s s2"
  by (simp add: unseen_def)

lemma prepare_blob_unseen:
  assumes "usable a"
  shows "unseen a s (snd (prepare_candidate_blob st pc a k sv cv v n s))"
proof -
  have w: "unseen a s (snd (cs_write_blob st a k bs s))" for bs s
    using assms by (simp add: unseen_def write_slot write_active)
  have d: "unseen a s (snd (cs_discard_slot st a s))" for s
    using assms by (simp add: unseen_def discard_slot discard_active)
  have refl: "unseen a s s" for s by (simp add: unseen_def)
  have disc: "snd (discard_after_store_failure st a e t) = snd (cs_discard_slot st a t)" for e t
    by (simp add: discard_after_store_failure_def split: prod.split sum.split)
  show ?thesis
  proof (cases "encode_enveloped pc k sv cv v n")
    case (Inl e)
    then show ?thesis using d disc by (simp add: prepare_candidate_blob_def prepare_candidate_slot_def)
  next
    case (Inr bs)
    obtain x s1 where x: "cs_write_blob st a k bs s = (x, s1)" by fastforce
    then have "unseen a s s1" using w [of s bs] by simp
    then show ?thesis
      using Inr x d [of s1] unseen_trans disc
      by (cases x) (auto simp: prepare_candidate_blob_def prepare_candidate_slot_def)
  qed
qed

lemma prepare_unseen:
  assumes "usable a"
  shows "unseen a s (snd (compile_and_prepare_candidate st pcs caps c target a n s))"
proof -
  have refl: "unseen a s s" by (simp add: unseen_def)
  obtain x s1 where x: "prepare_candidate_blob st (canonical_pc pcs) a CanonicalConfig (schema_version c)
      (config_version c) c n s = (x, s1)" by fastforce
  have s1: "unseen a s s1" using prepare_blob_unseen [OF assms, of s "canonical_pc pcs"] x by (metis snd_conv)
  have s2: "unseen a s (snd (prepare_candidate_blob st (compiled_pc pcs) a CompiledArtifacts (schema_version c)
      (config_version c) v n s1))" for v
    using unseen_trans [OF s1 prepare_blob_unseen [OF assms]] .
  show ?thesis
    using refl x s1 s2
    by (auto simp: compile_and_prepare_candidate_def split: sum.split prod.split) (metis snd_conv)+
qed

lemma load_unseen:
  assumes "unseen a s s'" "cs_active_slot st s = Inr b" "usable b" "b \<noteq> a"
  shows "load_active_compiled_config st pc sv cv n s' = load_active_compiled_config st pc sv cv n s"
  using assms by (simp add: load_active_compiled_config_def load_active_blob_def unseen_def and_then_def)

text \<open>A blob that was prepared can be read.\<close>

lemma prepare_blob_ok:
  assumes "usable a" "prepare_candidate_blob st pc a k sv cv v n s = (Inr u, s')"
    and "postcard_roundtrip pc v" "n \<le> 2 ^ 32"
  obtains bs where "cs_read_blob st a k n s' = Inr bs"
    "decode_enveloped pc k bs = Inr \<lparr>db_kind = k, db_schema_version = sv, db_config_version = cv, db_value = v\<rparr>"
proof -
  obtain bs where enc: "encode_enveloped pc k sv cv v n = Inr bs"
    using assms(2) by (auto simp: prepare_candidate_blob_def prepare_candidate_slot_def apfst_def map_prod_def
        split: prod.splits sum.splits)
  then have w: "cs_write_blob st a k bs s = (Inr (), s')"
    using assms(2)
    by (cases "cs_write_blob st a k bs s"; cases "fst (cs_write_blob st a k bs s)")
      (auto simp: prepare_candidate_blob_def prepare_candidate_slot_def apfst_def map_prod_def split: prod.splits)
  note bs = enc w
  note rt = envelope_roundtrip_lemma [OF assms(3,4) bs(1)]
  show ?thesis using that [OF write_read [OF assms(1) bs(2) rt(1)] rt(2)] .
qed

lemma activate_load:
  assumes "cs_write_active_slot st a s = (Inr u, s')" "cs_read_blob st a CompiledArtifacts n s = Inr bs"
    and "decode_enveloped pc CompiledArtifacts bs
      = Inr \<lparr>db_kind = CompiledArtifacts, db_schema_version = sv, db_config_version = cv, db_value = v\<rparr>"
  shows "load_active_compiled_config st pc sv cv n s' = BootReady v sv cv"
proof -
  have "cs_read_blob st a CompiledArtifacts n s' = Inr bs"
    using assms(1,2) activate_read [of a CompiledArtifacts n a s] by simp
  then show ?thesis
    using assms(3) activate_active [OF assms(1)]
    by (simp add: load_active_compiled_config_def load_active_blob_def and_then_def)
qed

lemma prepare_activate_load:
  assumes "usable a" "postcard_roundtrip (compiled_pc pcs) out" "n \<le> 2 ^ 32" "compile_config caps c target = Inr out"
    and prep: "compile_and_prepare_candidate st pcs caps c target a n s = (Inr prepared, s1)"
    and act: "cs_write_active_slot st (pr_slot prepared) s1 = (Inr u, s2)"
  shows "load_active_compiled_config st (compiled_pc pcs) (schema_version c) (config_version c) n s2
    = BootReady out (schema_version c) (config_version c)"
proof -
  obtain t where t: "prepare_candidate_blob st (compiled_pc pcs) a CompiledArtifacts (schema_version c)
      (config_version c) out n t = (Inr (), s1)" and p: "pr_slot prepared = a"
    using prep assms(4) by (auto simp: compile_and_prepare_candidate_def split: prod.splits sum.splits)
  obtain bs where "cs_read_blob st a CompiledArtifacts n s1 = Inr bs"
    "decode_enveloped (compiled_pc pcs) CompiledArtifacts bs = Inr \<lparr>db_kind = CompiledArtifacts,
       db_schema_version = schema_version c, db_config_version = config_version c, db_value = out\<rparr>"
    by (rule prepare_blob_ok [OF assms(1) t assms(2,3)])
  then show ?thesis by (rule activate_load [OF act [unfolded p]])
qed

end

section \<open>The test double satisfies the laws\<close>

definition mock_usable :: "config_slot_id \<Rightarrow> bool" where
  "mock_usable a \<longleftrightarrow> a = ConfigSlotId 1 \<or> a = ConfigSlotId 2"

lemmas mock_store_defs = mock_store_ops_def mock_read_blob_def mock_write_blob_def mock_discard_slot_def
  mock_write_active_slot_def mock_blob_def mock_blob_mut_def mock_usable_def Let_def

interpretation two_slots: config_store_laws mock_store_ops mock_usable
proof (unfold_locales, goal_cases)
  case (1 a k bs s u s' n)
  then show ?case by (cases k) (auto simp: mock_store_defs split: if_splits option.splits)
next
  case (2 a k bs s u s' k' n)
  then show ?case by (cases k; cases k') (auto simp: mock_store_defs split: if_splits option.splits)
next
  case (3 a b k' n k bs s)
  then show ?case by (cases k; cases k') (auto simp: mock_store_defs split: option.splits)
next
  case (4 a k bs s)
  then show ?case by (cases k) (auto simp: mock_store_defs split: option.splits)
next
  case (5 a b k' n s)
  then show ?case by (cases k') (auto simp: mock_store_defs split: option.splits)
next
  case (6 a s)
  then show ?case by (auto simp: mock_store_defs)
next
  case (7 a s u s')
  then show ?case by (cases a) (auto simp: mock_store_defs)
next
  case (8 b k n a s)
  then show ?case by (cases a; cases k) (auto simp: mock_store_defs)
qed

section \<open>Versions only grow\<close>

datatype candidate_op = Begin config_slot_id u32 | Commit | Discard

primrec candidate_op_run :: "candidate_op \<Rightarrow> active_slot_state \<Rightarrow> active_slot_state" where
  "candidate_op_run (Begin a v) st = snd (begin_candidate a v st)"
| "candidate_op_run Commit st = snd (commit_candidate st)"
| "candidate_op_run Discard st = snd (discard_candidate st)"

definition slot_state_inv :: "active_slot_state \<Rightarrow> bool" where
  "slot_state_inv a \<longleftrightarrow>
     (\<forall>slot v. as_candidate a = Some (slot, v) \<longrightarrow> slot \<noteq> ConfigSlotId 0 \<and> as_active_config_version a < v)"

lemmas slot_defs' = begin_candidate_def commit_candidate_def discard_candidate_def slot_state_inv_def

lemma candidate_op_inv: "slot_state_inv a \<Longrightarrow> slot_state_inv (candidate_op_run op a)"
  by (cases op) (auto simp: slot_defs' split: option.split)

lemma candidate_op_version:
  "slot_state_inv a \<Longrightarrow> as_active_config_version a \<le> as_active_config_version (candidate_op_run op a)
   \<and> (as_active_slot (candidate_op_run op a) \<noteq> as_active_slot a \<longrightarrow>
        as_active_config_version a < as_active_config_version (candidate_op_run op a)
        \<and> as_active_slot (candidate_op_run op a) \<noteq> ConfigSlotId 0)"
  by (cases op) (auto simp: slot_defs' split: option.split intro: less_imp_le)

lemma candidate_ops_version:
  "slot_state_inv a \<Longrightarrow> slot_state_inv (fold candidate_op_run ops a)
   \<and> as_active_config_version a \<le> as_active_config_version (fold candidate_op_run ops a)
   \<and> (as_active_slot (fold candidate_op_run ops a) \<noteq> as_active_slot a \<longrightarrow>
        as_active_config_version a < as_active_config_version (fold candidate_op_run ops a)
        \<and> as_active_slot (fold candidate_op_run ops a) \<noteq> ConfigSlotId 0)"
proof (induction ops arbitrary: a)
  case (Cons op ops)
  show ?case
    using Cons.IH [OF candidate_op_inv [OF Cons.prems, of op]] candidate_op_version [OF Cons.prems, of op]
    by (auto intro: order.trans less_le_trans le_less_trans)
qed simp

section \<open>Properties\<close>

text \<open>
  C6: an update reaches the next boot. For every back end that keeps the laws: when \<open>prepare_update\<close> and
  \<open>activate_prepared\<close> have succeeded, booting with the configuration's versions gives exactly the artifacts
  compiled for the board.
\<close>

theorem update_then_boot:
  assumes "config_store_laws st usable" "usable slot"
    and "\<forall>out. compile_config caps c target = Inr out \<longrightarrow> postcard_roundtrip (compiled_pc pcs) out" "n \<le> 2 ^ 32"
    and "prepare_update st pcs caps c target slot n m = (Inr prepared, m1)"
    and "activate_prepared st prepared slot m1 = (Inr (), m2)"
  shows "\<exists>out. compile_config caps c target = Inr out
    \<and> boot_load st pcs (schema_version c) (config_version c) n m2
        = BootReady out (schema_version c) (config_version c)"
proof -
  obtain s1 where prep: "compile_and_prepare_candidate st pcs caps c target slot n (cm_store m) = (Inr prepared, s1)"
      and m1: "m1 = m\<lparr>cm_store := s1\<rparr>"
    using assms(5) by (auto simp: prepare_update_def split: prod.splits)
  obtain s2 where act: "cs_write_active_slot st (pr_slot prepared) s1 = (Inr (), s2)" and m2: "cm_store m2 = s2"
    using assms(6) m1
    by (cases "cs_write_active_slot st (pr_slot prepared) s1")
      (auto simp: activate_prepared_def commit_candidate_slot_def split: prod.splits if_splits)
  obtain out where out: "compile_config caps c target = Inr out"
    using prep by (auto simp: compile_and_prepare_candidate_def split: sum.splits)
  then show ?thesis
    using config_store_laws.prepare_activate_load [OF assms(1,2) _ assms(4) out prep act] assms(3) m2
    by (simp add: boot_load_def)
qed

text \<open>
  For the witnesses: payload codecs that know one value, the example configuration and its artifacts for
  board 2.
\<close>

definition one_value_postcard :: "'a \<Rightarrow> 'a postcard" where
  "one_value_postcard v = \<lparr>pc_to_slice = (\<lambda>x n. if x = v \<and> 1 \<le> n then Some [1] else None),
     pc_from_bytes = (\<lambda>bs. if bs = [1] then Some v else None)\<rparr>"

lemma one_value_postcard_ok: "postcard_roundtrip (one_value_postcard v) x"
  by (auto simp: postcard_roundtrip_def one_value_postcard_def split: if_splits)

definition example_artifacts :: compiled_config where
  "example_artifacts = project example_config \<lparr>bc_board_id = BoardId 2, bc_role = Zone\<rparr>"

definition example_codecs :: config_codecs where
  "example_codecs = \<lparr>canonical_pc = one_value_postcard example_config,
     compiled_pc = one_value_postcard example_artifacts\<rparr>"

definition example_manager :: "mock_store config_manager" where
  "example_manager = manager_new (mock_store_default\<lparr>ms_active := 2\<rparr>)"

definition example_update :: "(unit option prepare_candidate_error + prepared_candidate) \<times> mock_store config_manager" where
  "example_update =
     prepare_update mock_store_ops example_codecs example_caps example_config (BoardId 2) (ConfigSlotId 1) 64 example_manager"

definition example_prepared :: prepared_candidate where
  "example_prepared = \<lparr>pr_slot = ConfigSlotId 1, pr_schema_version = 1, pr_config_version = 7\<rparr>"

theorem update_then_boot_witness:
  "fst example_update = Inr example_prepared
   \<and> fst (activate_prepared mock_store_ops example_prepared (ConfigSlotId 1) (snd example_update)) = Inr ()
   \<and> (\<exists>out. boot_load mock_store_ops example_codecs 1 7 64
       (snd (activate_prepared mock_store_ops example_prepared (ConfigSlotId 1) (snd example_update))) = BootReady out 1 7)"
proof -
  let ?act = "activate_prepared mock_store_ops example_prepared (ConfigSlotId 1) (snd example_update)"
  have p: "fst example_update = Inr example_prepared" by code_simp
  have a: "fst ?act = Inr ()" by code_simp
  have "prepare_update mock_store_ops example_codecs example_caps example_config (BoardId 2) (ConfigSlotId 1) 64
      example_manager = (Inr example_prepared, snd example_update)"
    using p by (simp add: example_update_def prod_eq_iff)
  moreover have "?act = (Inr (), snd ?act)" using a by (simp add: prod_eq_iff)
  moreover have "postcard_roundtrip (compiled_pc example_codecs) out" for out
    by (simp add: example_codecs_def one_value_postcard_ok)
  ultimately have "\<exists>out. boot_load mock_store_ops example_codecs (schema_version example_config)
      (config_version example_config) 64 (snd ?act)
      = BootReady out (schema_version example_config) (config_version example_config)"
    using update_then_boot [OF two_slots.config_store_laws_axioms, of "ConfigSlotId 1" example_caps example_config
        "BoardId 2" example_codecs 64 example_manager example_prepared "snd example_update" "snd ?act"]
    by (auto simp: mock_usable_def)
  then show ?thesis using p a by (simp add: example_config_def)
qed

text \<open>
  C32: preparing is safe. Whatever \<open>prepare_update\<close> does with a slot other than the active one, succeed, fail
  to compile, fail to encode, fail to write or fail to clean up: the next boot is what it was before.
\<close>

theorem prepare_keeps_boot:
  assumes "config_store_laws st usable" "usable slot" "usable active" "active \<noteq> slot"
    and "cs_active_slot st (cm_store m) = Inr active"
  shows "boot_load st pcs sv cv n (snd (prepare_update st pcs caps c target slot k m)) = boot_load st pcs sv cv n m"
  using config_store_laws.load_unseen [OF assms(1) config_store_laws.prepare_unseen [OF assms(1,2)] assms(5,3,4)]
  by (simp add: boot_load_def prepare_update_def case_prod_unfold Let_def)

theorem prepare_keeps_boot_witness:
  "boot_load mock_store_ops example_codecs 1 7 64
     (snd (prepare_update mock_store_ops example_codecs example_caps example_config (BoardId 2) (ConfigSlotId 1) 64
        example_manager))
   = boot_load mock_store_ops example_codecs 1 7 64 example_manager"
  by (rule prepare_keeps_boot [OF two_slots.config_store_laws_axioms, of _ "ConfigSlotId 2"])
    (simp_all add: mock_usable_def example_manager_def manager_new_def mock_store_ops_def)

text \<open>
  C33: corruption leads to a safe boot. If one byte of the stored artifacts of the active slot has changed
  since they were encoded, the boot does not start from them.
\<close>

theorem corrupt_blob_safe_boot:
  assumes "encode_enveloped pc CompiledArtifacts sv cv v k = Inr bs" "postcard_roundtrip pc v" "k \<le> 2 ^ 32"
    and "cs_active_slot st s = Inr active" "cs_read_blob st active CompiledArtifacts n s = Inr (bs[i := x])"
    and "i < length bs" "x \<noteq> bs ! i"
  shows "\<exists>reason. load_active_compiled_config st pc sv cv n s = SafeBoot reason"
proof -
  obtain payload where p: "20 \<le> k" "pc_to_slice pc v (k - 20) = Some payload"
      "bs = header CompiledArtifacts sv cv payload @ payload"
    using encode_enveloped_Inr [OF assms(1)] by (auto simp: HEADER_LEN_def)
  then have "length payload < 2 ^ 32" using assms(2,3) unfolding postcard_roundtrip_def by fastforce
  then have "db_schema_version db \<noteq> sv \<or> db_config_version db \<noteq> cv"
    if "decode_enveloped pc CompiledArtifacts (bs[i := x]) = Inr db" for db
    using corrupt_envelope [OF _ p(3) assms(6,7) that] by blast
  then show ?thesis
    using assms(4,5)
    by (cases "decode_enveloped pc CompiledArtifacts (bs[i := x])")
      (auto simp: load_active_compiled_config_def load_active_blob_def and_then_def)
qed

definition example_blob :: bytes where
  "example_blob = header CompiledArtifacts 1 7 [42] @ [42]"

definition example_corrupted :: mock_store where
  "example_corrupted = mock_store_default\<lparr>ms_active := 1, slot_1_compiled := example_blob[20 := 43]\<rparr>"

theorem corrupt_blob_safe_boot_witness:
  "encode_enveloped byte_postcard CompiledArtifacts 1 7 42 64 = Inr example_blob
   \<and> (\<exists>reason. load_active_compiled_config mock_store_ops byte_postcard 1 7 64 example_corrupted = SafeBoot reason)"
proof
  show enc: "encode_enveloped byte_postcard CompiledArtifacts 1 7 42 64 = Inr example_blob" by code_simp
  have len: "length example_blob = 21" by (simp add: example_blob_def)
  have at: "example_blob ! 20 = 42" by (simp add: example_blob_def nth_append)
  show "\<exists>reason. load_active_compiled_config mock_store_ops byte_postcard 1 7 64 example_corrupted = SafeBoot reason"
    by (rule corrupt_blob_safe_boot [OF enc byte_postcard_ok, where active = "ConfigSlotId 1" and i = 20 and x = 43])
      (simp_all add: len at example_corrupted_def mock_store_ops_def mock_read_blob_def mock_blob_def)
qed

text \<open>
  C39: the slot pointer. However candidates are opened, committed and discarded, the active version never goes back, and
  the active slot changes only together with a greater version and never to the invalid slot zero.
\<close>

theorem active_version_grows:
  "let a = fold candidate_op_run ops (active_slot_new slot v)
   in v \<le> as_active_config_version a
      \<and> (as_active_slot a \<noteq> slot \<longrightarrow> v < as_active_config_version a \<and> as_active_slot a \<noteq> ConfigSlotId 0)"
proof -
  have "slot_state_inv (active_slot_new slot v)" by (simp add: slot_state_inv_def active_slot_new_def)
  from candidate_ops_version [OF this, of ops] show ?thesis by (simp add: Let_def active_slot_new_def)
qed

theorem active_version_grows_witness:
  "as_active_slot (fold candidate_op_run [Begin (ConfigSlotId 2) 8, Commit] (active_slot_new (ConfigSlotId 1) 7)) = ConfigSlotId 2
   \<and> 7 < as_active_config_version (fold candidate_op_run [Begin (ConfigSlotId 2) 8, Commit] (active_slot_new (ConfigSlotId 1) 7))"
proof -
  let ?a = "fold candidate_op_run [Begin (ConfigSlotId 2) 8, Commit] (active_slot_new (ConfigSlotId 1) 7)"
  have "as_active_slot ?a = ConfigSlotId 2" by code_simp
  then show ?thesis
    using active_version_grows [of "[Begin (ConfigSlotId 2) 8, Commit]" "ConfigSlotId 1" 7] by (simp add: Let_def)
qed

end
