(* ===== verification/Tls_Identity.thy ===== *)
theory Tls_Identity
  imports Bytes
begin

text \<open>
  The server's TLS identity, \<^verbatim>\<open>crates/GatoMQTT/src/tls/mod.rs\<close>: certificate and key with their stored
  form, the fingerprint shown to the user, and \<open>ensure_tls_identity\<close>, which loads the identity or generates and
  stores one. The store and the generator are records of operations on their state; SHA-256 is a
  parameter. The capacities \<open>CERT_MAX\<close>, \<open>KEY_MAX\<close> and \<open>STORAGE_MAX\<close> are arguments.
\<close>

unbundle bit_operations_syntax

section \<open>Data\<close>

definition MAX_CERTIFICATE_DER_LEN :: nat where
  "MAX_CERTIFICATE_DER_LEN = 1024"

definition MAX_PRIVATE_KEY_DER_LEN :: nat where
  "MAX_PRIVATE_KEY_DER_LEN = 256"

definition FINGERPRINT_HEX_LEN :: nat where
  "FINGERPRINT_HEX_LEN = 95"

definition STORAGE_MAGIC :: bytes where
  "STORAGE_MAGIC = [0x47, 0x4D, 0x54, 0x4C]"

definition STORAGE_VERSION :: u8 where
  "STORAGE_VERSION = 1"

record tls_identity =
  certificate_der :: bytes
  private_key_der :: bytes

datatype identity_error = CertificateTooLarge | PrivateKeyTooLarge | StorageBufferTooSmall
  | InvalidStorageMagic | UnsupportedStorageVersion u8 | CorruptedStorage

definition identity_new :: "nat \<Rightarrow> nat \<Rightarrow> bytes \<Rightarrow> bytes \<Rightarrow> identity_error + tls_identity" where
  "identity_new cert_max key_max cert key =
     and_then (ok_or CertificateTooLarge (from_slice cert_max cert)) (\<lambda>cert'.
     and_then (ok_or PrivateKeyTooLarge (from_slice key_max key)) (\<lambda>key'.
     Inr \<lparr>certificate_der = cert', private_key_der = key'\<rparr>))"

section \<open>Storage format\<close>

definition extend_from_slice :: "nat \<Rightarrow> 'a list \<Rightarrow> 'a list \<Rightarrow> 'a list option" where
  "extend_from_slice cap ys xs = (if length xs + length ys \<le> cap then Some (xs @ ys) else None)"

fun extend_all :: "nat \<Rightarrow> bytes list \<Rightarrow> bytes \<Rightarrow> identity_error + bytes" where
  "extend_all cap [] out = Inr out"
| "extend_all cap (part # parts) out =
     and_then (ok_or StorageBufferTooSmall (extend_from_slice cap part out)) (extend_all cap parts)"

definition identity_encode :: "nat \<Rightarrow> tls_identity \<Rightarrow> identity_error + bytes" where
  "identity_encode storage_max idn =
     (if 2 ^ 16 \<le> length (certificate_der idn) then Inl CertificateTooLarge
      else if 2 ^ 16 \<le> length (private_key_der idn) then Inl PrivateKeyTooLarge
      else
        (let cert_len = word_of_nat (length (certificate_der idn)) :: u16;
             key_len = word_of_nat (length (private_key_der idn)) :: u16;
             total_len = 9 + unat cert_len + unat key_len
         in if total_len > storage_max then Inl StorageBufferTooSmall
            else extend_all storage_max [STORAGE_MAGIC, [STORAGE_VERSION], u16_to_le_bytes cert_len,
                   u16_to_le_bytes key_len, certificate_der idn, private_key_der idn] []))"

definition identity_decode :: "nat \<Rightarrow> nat \<Rightarrow> bytes \<Rightarrow> identity_error + tls_identity" where
  "identity_decode cert_max key_max storage =
     (if length storage < 9 then Inl CorruptedStorage
      else if take 4 storage \<noteq> STORAGE_MAGIC then Inl InvalidStorageMagic
      else if storage ! 4 \<noteq> STORAGE_VERSION then Inl (UnsupportedStorageVersion (storage ! 4))
      else
        (let cert_len = unat (u16_from_le_bytes (storage ! 5) (storage ! 6));
             key_len = unat (u16_from_le_bytes (storage ! 7) (storage ! 8));
             total_len = 9 + cert_len + key_len
         in if length storage \<noteq> total_len then Inl CorruptedStorage
            else (let cert_start = 9; cert_end = cert_start + cert_len; key_end = cert_end + key_len
                  in identity_new cert_max key_max (slice cert_start cert_end storage)
                       (slice cert_end key_end storage))))"

section \<open>Fingerprints\<close>

definition fingerprint_sha256 :: "(bytes \<Rightarrow> bytes) \<Rightarrow> bytes \<Rightarrow> bytes" where
  "fingerprint_sha256 sha256 cert = sha256 cert"

definition hex_nibble :: "u8 \<Rightarrow> char" where
  "hex_nibble nibble =
     (if nibble \<le> 9 then char_of (unat (0x30 + nibble)) else char_of (unat (0x41 + (nibble - 10))))"

definition push_hex_byte :: "string \<Rightarrow> u8 \<Rightarrow> string" where
  "push_hex_byte out b =
     push_or_drop FINGERPRINT_HEX_LEN (hex_nibble (b AND 0x0F))
       (push_or_drop FINGERPRINT_HEX_LEN (hex_nibble (drop_bit 4 b)) out)"

fun fingerprint_loop :: "nat \<Rightarrow> bytes \<Rightarrow> string \<Rightarrow> string" where
  "fingerprint_loop index [] out = out"
| "fingerprint_loop index (b # bs) out =
     fingerprint_loop (index + 1) bs
       (push_hex_byte (if index > 0 then push_or_drop FINGERPRINT_HEX_LEN (CHR '':'') out else out) b)"

definition fingerprint_hex :: "bytes \<Rightarrow> string" where
  "fingerprint_hex fingerprint = fingerprint_loop 0 fingerprint []"

section \<open>Bootstrapping\<close>

datatype ('e, 'f) bootstrap_error = BootLoad 'e | BootSave 'e | BootGenerate 'f

record bootstrapped_identity =
  bi_identity :: tls_identity
  bi_fingerprint :: bytes
  bi_generated :: bool

record ('s, 'e) identity_store =
  is_load :: "'s \<Rightarrow> ('e + tls_identity option) \<times> 's"
  is_save :: "tls_identity \<Rightarrow> 's \<Rightarrow> ('e + unit) \<times> 's"

record ('g, 'f) identity_generator =
  ig_generate :: "'g \<Rightarrow> ('f + tls_identity) \<times> 'g"

definition bootstrapped :: "(bytes \<Rightarrow> bytes) \<Rightarrow> tls_identity \<Rightarrow> bool \<Rightarrow> bootstrapped_identity" where
  "bootstrapped sha256 idn generated =
     \<lparr>bi_identity = idn, bi_fingerprint = fingerprint_sha256 sha256 (certificate_der idn),
      bi_generated = generated\<rparr>"

definition ensure_tls_identity ::
  "(bytes \<Rightarrow> bytes) \<Rightarrow> ('s, 'e) identity_store \<Rightarrow> ('g, 'f) identity_generator \<Rightarrow> 's \<Rightarrow> 'g
     \<Rightarrow> (('e, 'f) bootstrap_error + bootstrapped_identity) \<times> 's \<times> 'g" where
  "ensure_tls_identity sha256 st gen s g =
     (case is_load st s of
        (Inl e, s1) \<Rightarrow> (Inl (BootLoad e), s1, g)
      | (Inr (Some idn), s1) \<Rightarrow> (Inr (bootstrapped sha256 idn False), s1, g)
      | (Inr None, s1) \<Rightarrow>
          (case ig_generate gen g of
             (Inl e, g1) \<Rightarrow> (Inl (BootGenerate e), s1, g1)
           | (Inr idn, g1) \<Rightarrow>
               (case is_save st idn s1 of
                  (Inl e, s2) \<Rightarrow> (Inl (BootSave e), s2, g1)
                | (Inr _, s2) \<Rightarrow> (Inr (bootstrapped sha256 idn True), s2, g1))))"

subsection \<open>The test doubles\<close>

record mock_identity_store =
  mis_identity :: "tls_identity option"
  save_calls :: nat
  fail_load :: bool
  fail_save :: bool

definition mock_load :: "mock_identity_store \<Rightarrow> (string + tls_identity option) \<times> mock_identity_store" where
  "mock_load m = (if fail_load m then Inl ''load failed'' else Inr (mis_identity m), m)"

definition mock_save :: "tls_identity \<Rightarrow> mock_identity_store \<Rightarrow> (string + unit) \<times> mock_identity_store" where
  "mock_save idn m =
     (if fail_save m then (Inl ''save failed'', m)
      else (Inr (), m\<lparr>save_calls := save_calls m + 1, mis_identity := Some idn\<rparr>))"

definition mock_identity_ops :: "(mock_identity_store, string) identity_store" where
  "mock_identity_ops = \<lparr>is_load = mock_load, is_save = mock_save\<rparr>"

record mock_generator =
  mg_identity :: tls_identity
  mg_calls :: nat
  mg_fail :: bool

definition mock_generate :: "mock_generator \<Rightarrow> (string + tls_identity) \<times> mock_generator" where
  "mock_generate g =
     (if mg_fail g then (Inl ''generate failed'', g)
      else (Inr (mg_identity g), g\<lparr>mg_calls := mg_calls g + 1\<rparr>))"

definition mock_generator_ops :: "(mock_generator, string) identity_generator" where
  "mock_generator_ops = \<lparr>ig_generate = mock_generate\<rparr>"

section \<open>What the bootstrap needs of a store\<close>

locale identity_store_laws =
  fixes st :: "('s, 'e) identity_store"
    and stored :: "'s \<Rightarrow> tls_identity option"
  assumes load_result: "is_load st s = (Inr x, s') \<Longrightarrow> x = stored s"
    and load_keeps: "stored (snd (is_load st s)) = stored s"
    and save_stores: "is_save st idn s = (Inr u, s') \<Longrightarrow> stored s' = Some idn"
begin

lemma ensure_stored:
  assumes "ensure_tls_identity sha256 st gen s g = (Inr b, s', g')"
  shows "stored s' = Some (bi_identity b)"
    "bi_fingerprint b = fingerprint_sha256 sha256 (certificate_der (bi_identity b))"
    "bi_generated b \<longleftrightarrow> stored s = None" "\<not> bi_generated b \<Longrightarrow> g' = g \<and> stored s' = stored s"
proof -
  obtain x s1 where l: "is_load st s = (x, s1)" by fastforce
  then obtain y where y: "x = Inr y" using assms by (cases x) (auto simp: ensure_tls_identity_def)
  have s: "y = stored s" "stored s1 = stored s" using load_result load_keeps [of s] l y by auto
  have "stored s' = Some (bi_identity b)
    \<and> bi_fingerprint b = fingerprint_sha256 sha256 (certificate_der (bi_identity b))
    \<and> (bi_generated b \<longleftrightarrow> stored s = None) \<and> (\<not> bi_generated b \<longrightarrow> g' = g \<and> stored s' = stored s)"
    using assms l y s save_stores
    by (auto simp: ensure_tls_identity_def bootstrapped_def split: option.splits prod.splits sum.splits)
  then show "stored s' = Some (bi_identity b)"
    "bi_fingerprint b = fingerprint_sha256 sha256 (certificate_der (bi_identity b))"
    "bi_generated b \<longleftrightarrow> stored s = None" "\<not> bi_generated b \<Longrightarrow> g' = g \<and> stored s' = stored s"
    by auto
qed

lemma ensure_again:
  assumes first: "ensure_tls_identity sha256 st gen s g = (Inr b, s', g')"
    and again: "ensure_tls_identity sha256 st gen' s' h = (Inr b', s'', h')"
  shows "bi_identity b' = bi_identity b \<and> bi_fingerprint b' = bi_fingerprint b \<and> \<not> bi_generated b' \<and> h' = h"
  using ensure_stored [OF first] ensure_stored [OF again] by auto

end

interpretation mock_identity: identity_store_laws mock_identity_ops mis_identity
  by unfold_locales (auto simp: mock_identity_ops_def mock_load_def mock_save_def split: if_splits)

section \<open>The stored form\<close>

definition stored_form :: "tls_identity \<Rightarrow> bytes" where
  "stored_form idn =
     STORAGE_MAGIC @ [STORAGE_VERSION] @ u16_to_le_bytes (word_of_nat (length (certificate_der idn)))
       @ u16_to_le_bytes (word_of_nat (length (private_key_der idn))) @ certificate_der idn @ private_key_der idn"

lemma extend_all_ok:
  "length out + length (concat parts) \<le> cap \<Longrightarrow> extend_all cap parts out = Inr (out @ concat parts)"
  by (induction parts arbitrary: out) (simp_all add: extend_from_slice_def)

lemma length_stored_form [simp]:
  "length (stored_form idn) = 9 + length (certificate_der idn) + length (private_key_der idn)"
  by (simp add: stored_form_def STORAGE_MAGIC_def)

lemma encode_stored_form:
  "identity_encode n idn = Inr bs \<longleftrightarrow>
     length (certificate_der idn) < 2 ^ 16 \<and> length (private_key_der idn) < 2 ^ 16
     \<and> 9 + length (certificate_der idn) + length (private_key_der idn) \<le> n \<and> bs = stored_form idn"
proof -
  have *: "extend_all n [STORAGE_MAGIC, [STORAGE_VERSION], u16_to_le_bytes a, u16_to_le_bytes b, c, k] []
      = Inr (STORAGE_MAGIC @ [STORAGE_VERSION] @ u16_to_le_bytes a @ u16_to_le_bytes b @ c @ k)"
    if "9 + length c + length k \<le> n" for a b c k
    using that by (subst extend_all_ok) (simp_all add: STORAGE_MAGIC_def)
  show ?thesis
    by (auto simp: identity_encode_def Let_def unat_u16_of_nat * stored_form_def simp del: extend_all.simps)
qed

lemma decode_stored_form:
  assumes "length (certificate_der idn) < 2 ^ 16" "length (private_key_der idn) < 2 ^ 16"
  shows "identity_decode cm km (stored_form idn) = identity_new cm km (certificate_der idn) (private_key_der idn)"
proof -
  have le: "u16_from_le_bytes (ucast w) (ucast (drop_bit 8 w)) = w" for w :: u16
    using u16_le_roundtrip [of w] by (simp add: u16_to_le_bytes_def)
  have drop9: "drop (9 + n) bs = drop n (drop 9 bs)" for n and bs :: bytes by (simp add: add.commute)
  show ?thesis
    using assms
    by (simp add: drop9 del: drop_drop add: identity_decode_def stored_form_def STORAGE_MAGIC_def u16_to_le_bytes_def le unat_u16_of_nat slice_def
        Let_def)
qed

lemma stored_form_cases:
  assumes "identity_decode cm km bs = Inr idn"
  shows "bs = stored_form idn" "length (certificate_der idn) < 2 ^ 16" "length (private_key_der idn) < 2 ^ 16"
    "length (certificate_der idn) \<le> cm" "length (private_key_der idn) \<le> km"
proof -
  have hd: "9 \<le> length bs" "take 4 bs = STORAGE_MAGIC" "bs ! 4 = STORAGE_VERSION"
    using assms by (auto simp: identity_decode_def split: if_splits)
  define c where "c = u16_from_le_bytes (bs ! 5) (bs ! 6)"
  define k where "k = u16_from_le_bytes (bs ! 7) (bs ! 8)"
  have len: "length bs = 9 + unat c + unat k"
    using assms by (auto simp: identity_decode_def c_def k_def Let_def split: if_splits)
  have new: "identity_new cm km (take (unat c) (drop 9 bs)) (take (unat k) (drop (9 + unat c) bs)) = Inr idn"
    using assms hd len by (simp add: identity_decode_def Let_def c_def k_def slice_def)
  then have idn: "certificate_der idn = take (unat c) (drop 9 bs)" "private_key_der idn = drop (9 + unat c) bs"
    and caps: "length (certificate_der idn) \<le> cm" "length (private_key_der idn) \<le> km"
    using len by (auto simp: identity_new_def and_then_eq_Inr)
  have lens: "length (certificate_der idn) = unat c" "length (private_key_der idn) = unat k" using idn len by auto
  have "drop 5 bs = [bs ! 5, bs ! 6, bs ! 7, bs ! 8] @ drop 9 bs"
    using hd(1) by (simp add: Cons_nth_drop_Suc numeral_eq_Suc)
  moreover have "bs = STORAGE_MAGIC @ [STORAGE_VERSION] @ drop 5 bs"
    using hd id_take_nth_drop [of 4 bs] by simp
  moreover have "drop 9 bs = certificate_der idn @ private_key_der idn"
    using idn by (metis add.commute append_take_drop_id drop_drop)
  ultimately show "bs = stored_form idn"
    using u16_le_roundtrip' [of "bs ! 5" "bs ! 6"] u16_le_roundtrip' [of "bs ! 7" "bs ! 8"] lens
    by (simp add: stored_form_def c_def k_def)
  show "length (certificate_der idn) < 2 ^ 16" "length (private_key_der idn) < 2 ^ 16"
    using lens unsigned_less [of c] unsigned_less [of k] by simp_all
  show "length (certificate_der idn) \<le> cm" "length (private_key_der idn) \<le> km" by (fact caps)+
qed

section \<open>The printed fingerprint\<close>

definition hex_byte :: "u8 \<Rightarrow> string" where
  "hex_byte b = [hex_nibble (drop_bit 4 b), hex_nibble (b AND 0x0F)]"

lemma push_hex_byte_room: "length out + 2 \<le> 95 \<Longrightarrow> push_hex_byte out b = out @ hex_byte b"
  by (simp add: push_hex_byte_def FINGERPRINT_HEX_LEN_def hex_byte_def push_or_drop_simps)

lemma fingerprint_loop_rest:
  "length out + 3 * length bs \<le> 95 \<Longrightarrow>
   fingerprint_loop (Suc i) bs out = out @ concat (map (\<lambda>b. CHR '':'' # hex_byte b) bs)"
proof (induction bs arbitrary: i out)
  case (Cons b bs)
  have "push_hex_byte (push_or_drop FINGERPRINT_HEX_LEN CHR '':'' out) b = out @ CHR '':'' # hex_byte b"
    using Cons.prems by (simp add: push_hex_byte_room FINGERPRINT_HEX_LEN_def push_or_drop_simps)
  then show ?case using Cons.IH [of "out @ CHR '':'' # hex_byte b" "Suc i"] Cons.prems by (simp add: hex_byte_def)
qed simp

lemma fingerprint_hex_text:
  "length (b # bs) = 32 \<Longrightarrow> fingerprint_hex (b # bs) = hex_byte b @ concat (map (\<lambda>b. CHR '':'' # hex_byte b) bs)"
  by (simp add: fingerprint_hex_def fingerprint_loop_rest push_hex_byte_room hex_byte_def)

lemma hex_nibble_inj:
  assumes "hex_nibble a = hex_nibble b" "unat a < 16" "unat b < 16"
  shows "a = b"
proof -
  have code: "(of_char (hex_nibble n) :: nat) = (if unat n \<le> 9 then 48 + unat n else 55 + unat n)"
    if "unat n < 16" for n
    using that by (auto simp: hex_nibble_def word_le_nat_alt unat_word_ariths unat_sub of_char_of)
  show ?thesis
    using code [OF assms(2)] code [OF assms(3)] assms by (auto simp: word_unat_eq_iff split: if_splits)
qed

lemma hex_byte_inj: "hex_byte a = hex_byte b \<longleftrightarrow> a = b"
proof
  assume h: "hex_byte a = hex_byte b"
  have lo: "unat (x AND 0x0F) < 16" for x :: u8
  proof -
    have "x AND 0x0F = take_bit 4 x" by (simp add: take_bit_eq_mask mask_eq_exp_minus_1)
    then show ?thesis using take_bit_nat_less_exp [of 4 "unat x"] by (simp add: unsigned_take_bit_eq)
  qed
  have hi: "unat (drop_bit 4 x) < 16" for x :: u8
  proof -
    have "unat x < 256" using unsigned_less [of x, where ?'a = nat] by simp
    then show ?thesis by (simp add: drop_bit_eq_div unat_div)
  qed
  have "drop_bit 4 a = drop_bit 4 b" "a AND 0x0F = b AND 0x0F"
    using h hex_nibble_inj lo hi by (auto simp: hex_byte_def)
  then have "drop_bit 4 a = drop_bit 4 b" "take_bit 4 a = take_bit 4 b"
    by (simp_all add: take_bit_eq_mask mask_eq_exp_minus_1)
  then show "a = b" by (metis bits_ident)
qed simp

lemma hex_text_inj:
  "length as = length bs \<Longrightarrow>
   concat (map (\<lambda>b. CHR '':'' # hex_byte b) as) = concat (map (\<lambda>b. CHR '':'' # hex_byte b) bs) \<longleftrightarrow> as = bs"
  by (induction as bs rule: list_induct2) (auto simp flip: hex_byte_inj simp: hex_byte_def)

section \<open>Properties\<close>

text \<open>
  C25: the stored identity. An identity is encoded exactly when both lengths fit 16 bits and the buffer has room, and
  \<open>decode\<close> accepts exactly the encodings of identities within its capacities, and returns that identity.
\<close>

theorem identity_codec_exact:
  "((\<exists>bs. identity_encode n idn = Inr bs) \<longleftrightarrow>
      length (certificate_der idn) < 2 ^ 16 \<and> length (private_key_der idn) < 2 ^ 16
      \<and> 9 + length (certificate_der idn) + length (private_key_der idn) \<le> n)
   \<and> (identity_decode cm km bs = Inr idn \<longleftrightarrow>
      identity_encode (length bs) idn = Inr bs \<and> length (certificate_der idn) \<le> cm
      \<and> length (private_key_der idn) \<le> km)"
proof
  show "(\<exists>bs. identity_encode n idn = Inr bs) \<longleftrightarrow>
      length (certificate_der idn) < 2 ^ 16 \<and> length (private_key_der idn) < 2 ^ 16
      \<and> 9 + length (certificate_der idn) + length (private_key_der idn) \<le> n"
    by (auto simp: encode_stored_form)
  show "identity_decode cm km bs = Inr idn \<longleftrightarrow>
      identity_encode (length bs) idn = Inr bs \<and> length (certificate_der idn) \<le> cm
      \<and> length (private_key_der idn) \<le> km"
    using stored_form_cases [of cm km bs idn] decode_stored_form [of idn cm km]
    by (auto simp: encode_stored_form identity_new_def)
qed

text \<open>
  C28: the server keeps its identity. With a store that returns what was saved, once the bootstrap has
  succeeded every later one that succeeds yields the same identity and the same fingerprint, generates nothing and
  leaves the generator alone.
\<close>

theorem identity_stable:
  assumes "identity_store_laws st stored"
    and "ensure_tls_identity sha256 st gen s g = (Inr b, s', g')"
    and "ensure_tls_identity sha256 st gen' s' h = (Inr b', s'', h')"
  shows "bi_identity b' = bi_identity b \<and> bi_fingerprint b' = bi_fingerprint b \<and> \<not> bi_generated b' \<and> h' = h
    \<and> (bi_generated b \<longleftrightarrow> stored s = None)"
  using identity_store_laws.ensure_again [OF assms] identity_store_laws.ensure_stored [OF assms(1,2)] by simp

definition example_identity :: tls_identity where
  "example_identity = \<lparr>certificate_der = [1, 2, 3], private_key_der = [4, 5]\<rparr>"

definition example_store :: mock_identity_store where
  "example_store = \<lparr>mis_identity = None, save_calls = 0, fail_load = False, fail_save = False\<rparr>"

definition example_generator :: mock_generator where
  "example_generator = \<lparr>mg_identity = example_identity, mg_calls = 0, mg_fail = False\<rparr>"

theorem identity_stable_witness:
  "\<exists>b s' g' b' s'' h'.
     ensure_tls_identity (\<lambda>_. replicate 32 7) mock_identity_ops mock_generator_ops example_store example_generator
       = (Inr b, s', g') \<and> bi_generated b
     \<and> ensure_tls_identity (\<lambda>_. replicate 32 7) mock_identity_ops mock_generator_ops s' g' = (Inr b', s'', h')
     \<and> bi_identity b' = bi_identity b \<and> \<not> bi_generated b' \<and> h' = g'"
proof -
  define s' where "s' = example_store\<lparr>save_calls := 1, mis_identity := Some example_identity\<rparr>"
  define g' where "g' = example_generator\<lparr>mg_calls := 1\<rparr>"
  note defs = ensure_tls_identity_def mock_identity_ops_def mock_load_def mock_save_def mock_generator_ops_def
    mock_generate_def example_store_def example_generator_def
  have first: "ensure_tls_identity (\<lambda>_. replicate 32 7) mock_identity_ops mock_generator_ops example_store example_generator
      = (Inr (bootstrapped (\<lambda>_. replicate 32 7) example_identity True), s', g')"
    by (simp add: defs s'_def g'_def)
  have again: "ensure_tls_identity (\<lambda>_. replicate 32 7) mock_identity_ops mock_generator_ops s' g'
      = (Inr (bootstrapped (\<lambda>_. replicate 32 7) example_identity False), s', g')"
    by (simp add: defs s'_def g'_def)
  show ?thesis
    by (rule exI [of _ "bootstrapped (\<lambda>_. replicate 32 7) example_identity True"], rule exI [of _ s'], rule exI [of _ g'],
        rule exI [of _ "bootstrapped (\<lambda>_. replicate 32 7) example_identity False"], rule exI [of _ s'], rule exI [of _ g'])
      (use first again identity_stable [OF mock_identity.identity_store_laws_axioms first again] in
        \<open>simp add: bootstrapped_def\<close>)
qed

text \<open>
  The printed fingerprint. All 32 bytes appear, in 95 characters, and two certificates whose hashes differ are shown
  differently.
\<close>

theorem fingerprint_hex_faithful:
  assumes "length fp = 32" "length fp' = 32"
  shows "length (fingerprint_hex fp) = FINGERPRINT_HEX_LEN \<and> (fingerprint_hex fp = fingerprint_hex fp' \<longleftrightarrow> fp = fp')"
proof -
  obtain b bs b' bs' where fp: "fp = b # bs" "fp' = b' # bs'" using assms by (cases fp; cases fp') auto
  have "length (concat (map (\<lambda>b. CHR '':'' # hex_byte b) cs)) = 3 * length cs" for cs
    by (induction cs) (simp_all add: hex_byte_def)
  then show ?thesis
    using assms hex_text_inj [of bs bs'] hex_byte_inj [of b b']
    by (auto simp: fp fingerprint_hex_text FINGERPRINT_HEX_LEN_def hex_byte_def)
qed

theorem fingerprint_hex_faithful_witness:
  "fingerprint_hex (replicate 32 0xAB) \<noteq> fingerprint_hex (replicate 32 0xBA)"
  using fingerprint_hex_faithful [of "replicate 32 0xAB" "replicate 32 0xBA"] by (simp add: replicate_eq_replicate)

end
