(* ===== verification/Mqtt_Types.thy ===== *)
theory Mqtt_Types
  imports Prelude
begin

text \<open>
  The MQTT vocabulary the broker shares with the packet codec crate (\<^verbatim>\<open>mqttrs\<close>), the
  quality-of-service helpers of \<^verbatim>\<open>crates/GatoMQTT/src/qos.rs\<close> and the configuration record of
  \<^verbatim>\<open>crates/GatoMQTT/src/config.rs\<close>. The codec itself is not part of the repository: it is
  the parameter record \<open>mqttrs\<close>, and \<open>mqttrs_fits\<close> and \<open>mqttrs_pids\<close> are what the broker relies on.
\<close>

section \<open>Packets\<close>

datatype qos = AtMostOnce | AtLeastOnce | ExactlyOnce

type_synonym pid = u16

datatype qospid = QosPid0 | QosPid1 pid | QosPid2 pid

primrec qospid_qos :: "qospid \<Rightarrow> qos" where
  "qospid_qos QosPid0 = AtMostOnce"
| "qospid_qos (QosPid1 p) = AtLeastOnce"
| "qospid_qos (QosPid2 p) = ExactlyOnce"

datatype protocol = MQTT311 | MQIsdp

datatype connect_return_code = Accepted | RefusedProtocolVersion | RefusedIdentifierRejected
  | ServerUnavailable | BadUsernamePassword | NotAuthorized

record last_will =
  will_topic :: string
  will_message :: bytes
  will_qos :: qos
  will_retain :: bool

record connect =
  protocol :: protocol
  keep_alive :: u16
  client_id :: string
  clean_session :: bool
  last_will :: "last_will option"
  username :: "string option"
  password :: "bytes option"

record connack =
  session_present :: bool
  code :: connect_return_code

record publish =
  dup :: bool
  qospid :: qospid
  pub_retain :: bool
  topic_name :: string
  pub_payload :: bytes

record subscribe_topic =
  topic_path :: string
  topic_qos :: qos

record subscribe =
  sub_pid :: pid
  sub_topics :: "subscribe_topic list"

datatype subscribe_return_code = Success qos | Failure

record suback =
  suback_pid :: pid
  return_codes :: "subscribe_return_code list"

record unsubscribe =
  unsub_pid :: pid
  unsub_topics :: "string list"

datatype packet = Connect connect | Connack connack | Publish publish | Puback pid | Pubrec pid
  | Pubrel pid | Pubcomp pid | Subscribe subscribe | Suback suback | Unsubscribe unsubscribe
  | Unsuback pid | Pingreq | Pingresp | Disconnect

text \<open>Of the codec's errors the broker names two; \<open>CodecError\<close> stands for the others.\<close>

datatype mqtt_error = InvalidHeader | InvalidLength | CodecError nat

section \<open>The codec as a parameter\<close>

text \<open>
  \<open>encode_slice p cap\<close> is the bytes written to the front of a buffer of \<open>cap\<close> bytes;
  \<open>decode_slice bs\<close> is the packet at the front of \<open>bs\<close>, or \<open>None\<close> when more bytes are
  needed; \<open>pid_try_from\<close>, \<open>pid_new\<close> and \<open>pid_succ\<close> are the non-zero packet identifier
  \<open>Pid::try_from\<close>, \<open>Pid::new\<close> and \<open>pid + 1\<close>.
\<close>

record mqttrs =
  encode_slice :: "packet \<Rightarrow> nat \<Rightarrow> mqtt_error + bytes"
  decode_slice :: "bytes \<Rightarrow> mqtt_error + packet option"
  pid_try_from :: "u16 \<Rightarrow> pid option"
  pid_new :: pid
  pid_succ :: "pid \<Rightarrow> pid"

definition mqttrs_fits :: "mqttrs \<Rightarrow> bool" where
  "mqttrs_fits mq \<longleftrightarrow> (\<forall>p cap bs. encode_slice mq p cap = Inr bs \<longrightarrow> length bs \<le> cap)"

definition mqttrs_pids :: "mqttrs \<Rightarrow> bool" where
  "mqttrs_pids mq \<longleftrightarrow> (\<forall>p. pid_try_from mq p = (if p = 0 then None else Some p))"

lemma mqttrs_fitsD: "mqttrs_fits mq \<Longrightarrow> encode_slice mq p cap = Inr bs \<Longrightarrow> length bs \<le> cap"
  by (simp add: mqttrs_fits_def)

lemma mqttrs_pidsD: "mqttrs_pids mq \<Longrightarrow> p \<noteq> 0 \<Longrightarrow> pid_try_from mq p = Some p"
  by (simp add: mqttrs_pids_def)

text \<open>An instance of the parameter for worked examples: packets without variable part.\<close>

definition example_codec :: mqttrs where
  "example_codec =
     \<lparr>encode_slice = (\<lambda>p cap. if cap < 2 then Inl (CodecError 0)
          else Inr [case p of Pingreq \<Rightarrow> 0xC0 | Pingresp \<Rightarrow> 0xD0 | Publish _ \<Rightarrow> 0x30 | _ \<Rightarrow> 0x20, 0]),
      decode_slice = (\<lambda>bs. if bs = [0xC0, 0] then Inr (Some Pingreq)
          else if bs = [0xE0, 0] then Inr (Some Disconnect) else Inl InvalidHeader),
      pid_try_from = (\<lambda>p. if p = 0 then None else Some p),
      pid_new = 1,
      pid_succ = (\<lambda>p. if p + 1 = 0 then 1 else p + 1)\<rparr>"

lemma example_codec_ok: "mqttrs_fits example_codec" "mqttrs_pids example_codec"
  by (auto simp: mqttrs_fits_def mqttrs_pids_def example_codec_def split: if_splits)

section \<open>Quality of service\<close>

primrec qos_rank :: "qos \<Rightarrow> nat" where
  "qos_rank AtMostOnce = 0"
| "qos_rank AtLeastOnce = 1"
| "qos_rank ExactlyOnce = 2"

definition max_qos :: "qos \<Rightarrow> qos \<Rightarrow> qos" where
  "max_qos lhs rhs = (if qos_rank rhs \<le> qos_rank lhs then lhs else rhs)"

definition min_qos :: "qos \<Rightarrow> qos \<Rightarrow> qos" where
  "min_qos lhs rhs = (if qos_rank lhs \<le> qos_rank rhs then lhs else rhs)"

text \<open>The ranks order the levels linearly; \<open>max_qos\<close> and \<open>min_qos\<close> are the order's own.\<close>

instantiation qos :: linorder
begin

definition less_eq_qos :: "qos \<Rightarrow> qos \<Rightarrow> bool" where
  "less_eq_qos a b \<longleftrightarrow> qos_rank a \<le> qos_rank b"

definition less_qos :: "qos \<Rightarrow> qos \<Rightarrow> bool" where
  "less_qos a b \<longleftrightarrow> qos_rank a < qos_rank b"

instance
proof
  fix x y z :: qos
  show "x < y \<longleftrightarrow> x \<le> y \<and> \<not> y \<le> x" by (auto simp: less_eq_qos_def less_qos_def)
  show "x \<le> x" by (simp add: less_eq_qos_def)
  show "x \<le> y \<Longrightarrow> y \<le> z \<Longrightarrow> x \<le> z" by (simp add: less_eq_qos_def)
  show "x \<le> y \<Longrightarrow> y \<le> x \<Longrightarrow> x = y" by (cases x; cases y) (auto simp: less_eq_qos_def)
  show "x \<le> y \<or> y \<le> x" by (auto simp: less_eq_qos_def)
qed

end

lemma max_qos_max [simp]: "max_qos a b = max a b"
  by (cases a; cases b) (auto simp: max_qos_def max_def less_eq_qos_def)

lemma min_qos_min [simp]: "min_qos a b = min a b"
  by (cases a; cases b) (auto simp: min_qos_def min_def less_eq_qos_def)

lemma AtMostOnce_least [simp]: "AtMostOnce \<le> q"
  by (simp add: less_eq_qos_def)

section \<open>Configuration\<close>

record broker_config =
  house_token_username :: string
  house_token_password :: string
  rate_capacity :: u8
  cfg_rate_per_sec :: u8
  max_violations :: u8
  max_outbox_drops :: u8
  qos1_retry_ms :: u32
  qos1_max_retries :: u8

definition GATOMQTT_CONFIG :: broker_config where
  "GATOMQTT_CONFIG =
     \<lparr>house_token_username = ''house'',
      house_token_password = ''secret'',
      rate_capacity = 20,
      cfg_rate_per_sec = 10,
      max_violations = 50,
      max_outbox_drops = 16,
      qos1_retry_ms = 5000,
      qos1_max_retries = 3\<rparr>"

end
