(* ===== verification/Topics.thy ===== *)
theory Topics
  imports Mqtt_Types
begin

text \<open>
  Topic filters: the matcher of \<^verbatim>\<open>crates/GatoMQTT/src/router/subscriptions.rs\<close>, the filter
  validation of \<^verbatim>\<open>handler/subscribe.rs\<close> and the topic schema of \<^verbatim>\<open>topics.rs\<close>. Rust
  strings are byte strings here (\<open>string\<close>): the matcher only compares levels and looks for
  the ASCII characters \<open>/\<close>, \<open>+\<close>, \<open>#\<close> and \<open>$\<close>, which never occur inside a multi-byte
  character, and lengths are byte lengths as in Rust.
\<close>

section \<open>Splitting at a separator\<close>

text \<open>\<open>str::split\<close> with a single character.\<close>

fun split_on :: "'a \<Rightarrow> 'a list \<Rightarrow> 'a list list" where
  "split_on c [] = [[]]"
| "split_on c (x # xs) =
     (if x = c then [] # split_on c xs
      else (case split_on c xs of [] \<Rightarrow> [[x]] | l # ls \<Rightarrow> (x # l) # ls))"

fun join_with :: "'a \<Rightarrow> 'a list list \<Rightarrow> 'a list" where
  "join_with c [] = []"
| "join_with c [l] = l"
| "join_with c (l # ls) = l @ c # join_with c ls"

lemma split_on_ne [simp]: "split_on c xs \<noteq> []"
  by (cases xs) (auto split: list.splits)

lemma split_on_append_sep: "split_on c (xs @ c # ys) = split_on c xs @ split_on c ys"
  by (induction xs) (auto split: list.splits)

lemma split_on_no_sep: "c \<notin> set xs \<Longrightarrow> split_on c xs = [xs]"
  by (induction xs) auto

lemma split_on_levels: "l \<in> set (split_on c xs) \<Longrightarrow> c \<notin> set l"
  by (induction xs arbitrary: l) (auto split: if_splits list.splits)

lemma join_with_Cons: "ls \<noteq> [] \<Longrightarrow> join_with c (l # ls) = l @ c # join_with c ls"
  by (cases ls) auto

lemma join_split [simp]: "join_with c (split_on c xs) = xs"
proof (induction xs)
  case (Cons x xs)
  obtain l ls where "split_on c xs = l # ls" by (cases "split_on c xs") auto
  with Cons show ?case by (cases ls) (auto simp: join_with_Cons)
qed simp

lemma split_join:
  "ls \<noteq> [] \<Longrightarrow> \<forall>l\<in>set ls. c \<notin> set l \<Longrightarrow> split_on c (join_with c ls) = ls"
proof (induction c ls rule: join_with.induct)
  case (3 c l l' ls)
  then show ?case by (simp add: split_on_append_sep split_on_no_sep)
qed (simp_all add: split_on_no_sep)

lemma set_split_on: "d \<noteq> c \<Longrightarrow> d \<in> set xs \<longleftrightarrow> (\<exists>l\<in>set (split_on c xs). d \<in> set l)"
  by (induction xs) (auto split: list.splits)

lemma split_on_eq_iff:
  assumes "ls \<noteq> []" "\<forall>l\<in>set ls. c \<notin> set l"
  shows "split_on c xs = ls \<longleftrightarrow> xs = join_with c ls"
  using split_join [OF assms] join_split [of c xs] by auto

section \<open>Matching\<close>

definition contains_wildcards :: "string \<Rightarrow> bool" where
  "contains_wildcards flt = (\<exists>b\<in>set flt. b = CHR ''+'' \<or> b = CHR ''#'')"

fun match_levels :: "string list \<Rightarrow> string list \<Rightarrow> bool" where
  "match_levels (f # fs) ts =
     (if f = ''#'' then True
      else (case ts of
          [] \<Rightarrow> False
        | t # ts' \<Rightarrow>
            if f = ''+'' \<and> t \<noteq> [] then match_levels fs ts'
            else if f = t then match_levels fs ts'
            else False))"
| "match_levels [] ts = (ts = [])"

definition topic_matches :: "string \<Rightarrow> string \<Rightarrow> bool" where
  "topic_matches flt pub_topic =
     (if flt = pub_topic then True
      else if take 1 pub_topic = ''$'' \<and> contains_wildcards flt then False
      else match_levels (split_on CHR ''/'' flt) (split_on CHR ''/'' pub_topic))"

text \<open>The reference: a level filter accepts a level; a filter with \<open>#\<close> accepts by prefix.\<close>

definition level_accepts :: "string \<Rightarrow> string \<Rightarrow> bool" where
  "level_accepts f t \<longleftrightarrow> f = t \<or> (f = ''+'' \<and> t \<noteq> [])"

definition levels_accept :: "string list \<Rightarrow> string list \<Rightarrow> bool" where
  "levels_accept fs ts \<longleftrightarrow>
     (if ''#'' \<in> set fs
      then (let pre = takeWhile (\<lambda>f. f \<noteq> ''#'') fs
            in length pre \<le> length ts \<and> list_all2 level_accepts pre (take (length pre) ts))
      else list_all2 level_accepts fs ts)"

lemma levels_accept_simps:
  "levels_accept [] ts \<longleftrightarrow> ts = []"
  "levels_accept (''#'' # fs) ts"
  "f \<noteq> ''#'' \<Longrightarrow> \<not> levels_accept (f # fs) []"
  "f \<noteq> ''#'' \<Longrightarrow> levels_accept (f # fs) (t # ts) \<longleftrightarrow> level_accepts f t \<and> levels_accept fs ts"
  by (simp_all add: levels_accept_def Let_def conj_ac)

lemma match_levels_accept: "match_levels fs ts = levels_accept fs ts"
proof (induction fs arbitrary: ts)
  case (Cons f fs)
  show ?case
  proof (cases "f = ''#''")
    case False
    then show ?thesis
      by (cases ts) (simp_all add: levels_accept_simps level_accepts_def Cons.IH)
  qed (simp add: levels_accept_simps)
qed (simp add: levels_accept_simps)

section \<open>Filter validation\<close>

definition is_valid_filter :: "string \<Rightarrow> bool" where
  "is_valid_filter flt =
     (if flt = [] \<or> length flt > 128 then False
      else if (case position (\<lambda>c. c = CHR ''#'') flt of
                 None \<Rightarrow> False
               | Some hash_pos \<Rightarrow>
                   hash_pos \<noteq> length flt - 1
                   \<or> (hash_pos > 0 \<and> flt ! (hash_pos - 1) \<noteq> CHR ''/''))
      then False
      else (\<forall>level\<in>set (split_on CHR ''/'' flt).
              \<not> (CHR ''+'' \<in> set level \<and> level \<noteq> ''+'')))"

text \<open>The reference: wildcards only as whole levels, the multi-level one only at the end.\<close>

definition well_formed_levels :: "string list \<Rightarrow> bool" where
  "well_formed_levels ls \<longleftrightarrow>
     (\<forall>l\<in>set ls. CHR ''+'' \<in> set l \<longrightarrow> l = ''+'')
     \<and> (\<forall>l\<in>set (butlast ls). CHR ''#'' \<notin> set l)
     \<and> (CHR ''#'' \<in> set (last ls) \<longrightarrow> last ls = ''#'')"

lemma join_with_snoc: "ls \<noteq> [] \<Longrightarrow> join_with c (ls @ [l]) = join_with c ls @ c # l"
  by (induction c ls rule: join_with.induct) auto

lemma hash_ok_iff:
  assumes "f \<noteq> []"
  shows "(case position (\<lambda>c. c = CHR ''#'') f of
            None \<Rightarrow> True
          | Some h \<Rightarrow> h = length f - 1 \<and> (0 < h \<longrightarrow> f ! (h - 1) = CHR ''/''))
    \<longleftrightarrow> (\<forall>l\<in>set (butlast (split_on CHR ''/'' f)). CHR ''#'' \<notin> set l)
        \<and> (CHR ''#'' \<in> set (last (split_on CHR ''/'' f)) \<longrightarrow> last (split_on CHR ''/'' f) = ''#'')"
    (is "?L \<longleftrightarrow> ?R")
proof -
  obtain init l where ls: "split_on CHR ''/'' f = init @ [l]"
    by (metis append_butlast_last_id split_on_ne)
  have in_f: "CHR ''#'' \<in> set f \<longleftrightarrow> (\<exists>k\<in>set init. CHR ''#'' \<in> set k) \<or> CHR ''#'' \<in> set l"
    using set_split_on [of "CHR ''#''" "CHR ''/''" f] ls by auto
  show ?thesis
  proof (cases "position (\<lambda>c. c = CHR ''#'') f")
    case None
    then have "CHR ''#'' \<notin> set f" by (auto simp: position_None)
    then show ?thesis using None in_f ls by simp
  next
    case (Some h)
    obtain ys x zs where "f = ys @ x # zs" "length ys = h" "x = CHR ''#''" "\<forall>y\<in>set ys. y \<noteq> CHR ''#''"
      using position_split [OF Some] by blast
    then have split: "f = ys @ CHR ''#'' # zs" "length ys = h" "CHR ''#'' \<notin> set ys" by auto
    have "?L \<longleftrightarrow> zs = [] \<and> (ys = [] \<or> last ys = CHR ''/'')"
      using Some split by (cases ys rule: rev_cases) (auto simp: nth_append)
    also have "\<dots> \<longleftrightarrow> ?R"
    proof
      assume "zs = [] \<and> (ys = [] \<or> last ys = CHR ''/'')"
      then consider "f = ''#''" | ys' where "ys = ys' @ [CHR ''/'']" "f = ys' @ ''/#''"
        using split by (cases ys rule: rev_cases) auto
      then show ?R
      proof cases
        case 2
        then have "split_on CHR ''/'' f = split_on CHR ''/'' ys' @ [''#'']"
          by (simp add: split_on_append_sep)
        moreover have "\<forall>k\<in>set (split_on CHR ''/'' ys'). CHR ''#'' \<notin> set k"
          using split(3) 2 set_split_on [of "CHR ''#''" "CHR ''/''" ys'] by auto
        ultimately show ?thesis by simp
      qed simp
    next
      assume R: ?R
      have "CHR ''#'' \<in> set f" using split by simp
      then have l: "l = ''#''" "\<forall>k\<in>set init. CHR ''#'' \<notin> set k" using R in_f ls by auto
      have f: "f = join_with CHR ''/'' (init @ [''#''])"
        using join_split [of "CHR ''/''" f] ls l by simp
      show "zs = [] \<and> (ys = [] \<or> last ys = CHR ''/'')"
      proof (cases "init = []")
        case True
        then show ?thesis using f split by (cases ys) auto
      next
        case False
        let ?p = "join_with CHR ''/'' init"
        have "split_on CHR ''/'' ?p = init"
          using False split_on_levels [of _ "CHR ''/''" f] ls by (intro split_join) auto
        then have "CHR ''#'' \<notin> set (?p @ ''/'')"
          using l(2) set_split_on [of "CHR ''#''" "CHR ''/''" ?p] by auto
        moreover have "ys @ CHR ''#'' # zs = (?p @ ''/'') @ ''#''"
          using f split(1) join_with_snoc [OF False, of "CHR ''/''" "''#''"] by simp
        ultimately have "ys = ?p @ ''/'' \<and> zs = []"
          using split(3) append_Cons_eq_iff [of "CHR ''#''" "?p @ ''/''" "[]" ys zs] by auto
        then show ?thesis by simp
      qed
    qed
    finally show ?thesis .
  qed
qed

lemma is_valid_filter_iff:
  "is_valid_filter f \<longleftrightarrow>
     f \<noteq> [] \<and> length f \<le> 128 \<and> well_formed_levels (split_on CHR ''/'' f)"
proof (cases "f = []")
  case False
  have "is_valid_filter f \<longleftrightarrow> length f \<le> 128
      \<and> (case position (\<lambda>c. c = CHR ''#'') f of
            None \<Rightarrow> True
          | Some h \<Rightarrow> h = length f - 1 \<and> (0 < h \<longrightarrow> f ! (h - 1) = CHR ''/''))
      \<and> (\<forall>l\<in>set (split_on CHR ''/'' f). CHR ''+'' \<in> set l \<longrightarrow> l = ''+'')"
    using False by (cases "position (\<lambda>c. c = CHR ''#'') f")
      (auto simp: is_valid_filter_def not_less)
  then show ?thesis
    unfolding hash_ok_iff [OF False] well_formed_levels_def using False by blast
qed (simp add: is_valid_filter_def)

section \<open>The topic schema\<close>

definition COMMAND_FILTER :: string where
  "COMMAND_FILTER = ''sb/+/device/+/set''"

definition STATE_FILTER :: string where
  "STATE_FILTER = ''sb/+/device/+/state''"

definition is_command_topic :: "string \<Rightarrow> bool" where
  "is_command_topic topic = topic_matches COMMAND_FILTER topic"

definition is_state_topic :: "string \<Rightarrow> bool" where
  "is_state_topic topic = topic_matches STATE_FILTER topic"

lemma split_plus_shape:
  assumes "a \<noteq> ''+''" "b \<noteq> ''+''" "c \<noteq> ''+''" "CHR ''/'' \<notin> set (a @ b @ c)"
  shows "list_all2 level_accepts [a, ''+'', b, ''+'', c] (split_on CHR ''/'' t) \<longleftrightarrow>
    (\<exists>h d. h \<noteq> [] \<and> d \<noteq> [] \<and> CHR ''/'' \<notin> set h \<and> CHR ''/'' \<notin> set d
       \<and> t = a @ ''/'' @ h @ ''/'' @ b @ ''/'' @ d @ ''/'' @ c)"
    (is "?L \<longleftrightarrow> ?R")
proof
  assume ?L
  then obtain h d where "split_on CHR ''/'' t = [a, h, b, d, c]" "h \<noteq> []" "d \<noteq> []"
    using assms(1-3) by (auto simp: list_all2_Cons1 level_accepts_def)
  then show ?R
    using join_split [of "CHR ''/''" t] split_on_levels [of _ "CHR ''/''" t] by auto
next
  assume ?R
  then obtain h d where hd: "h \<noteq> []" "d \<noteq> []" "CHR ''/'' \<notin> set h" "CHR ''/'' \<notin> set d"
    and t: "t = join_with CHR ''/'' [a, h, b, d, c]" by auto
  then have "split_on CHR ''/'' t = [a, h, b, d, c]"
    using assms(4) by (subst split_on_eq_iff) auto
  then show ?L
    using hd by (simp add: level_accepts_def)
qed

lemma schema_matches:
  assumes "flt = ''sb/+/device/+/'' @ c" "c \<noteq> ''+''" "CHR ''/'' \<notin> set c" "c \<noteq> ''#''"
  shows "topic_matches flt t \<longleftrightarrow>
    (\<exists>h d. h \<noteq> [] \<and> d \<noteq> [] \<and> CHR ''/'' \<notin> set h \<and> CHR ''/'' \<notin> set d
       \<and> t = ''sb/'' @ h @ ''/device/'' @ d @ ''/'' @ c)"
    (is "_ \<longleftrightarrow> ?R")
proof -
  have "flt = join_with CHR ''/'' [''sb'', ''+'', ''device'', ''+'', c]"
    using assms(1) by simp
  then have sp: "split_on CHR ''/'' flt = [''sb'', ''+'', ''device'', ''+'', c]"
    using assms(3) by (subst split_on_eq_iff) auto
  have acc: "levels_accept (split_on CHR ''/'' flt) (split_on CHR ''/'' t) \<longleftrightarrow> ?R"
    using split_plus_shape [of "''sb''" "''device''" c t] assms(2-4)
    by (simp add: sp levels_accept_def)
  have "flt = t \<Longrightarrow> ?R"
    using assms(1) by (intro exI [of _ "''+''"]) simp
  moreover have "?R \<Longrightarrow> take 1 t \<noteq> ''$''" by auto
  ultimately show ?thesis
    unfolding topic_matches_def match_levels_accept acc by (simp only: if_bool_eq_disj) blast
qed

section \<open>Properties\<close>

text \<open>
  C37: the matcher accepts a topic exactly when the filter is the topic itself or,
  unless a wildcard would have to match a topic that starts with \<open>$\<close>, the filter's levels
  accept the topic's levels one by one, a level \<open>#\<close> ending the comparison with success once
  the levels before it have been accepted.
\<close>

theorem topic_matches_spec:
  "topic_matches f t =
     (f = t \<or> levels_accept (split_on CHR ''/'' f) (split_on CHR ''/'' t)
        \<and> (if contains_wildcards f then take 1 t \<noteq> ''$'' else True))"
  by (auto simp: topic_matches_def match_levels_accept)

text \<open>
  The subscription filter check accepts exactly the non-empty strings of at most 128
  bytes in which \<open>+\<close> only occurs as a whole level and \<open>#\<close> only as the whole last level.
\<close>

theorem valid_filter_characterised:
  "is_valid_filter f =
     (f \<noteq> [] \<and> length f \<le> 128 \<and> well_formed_levels (split_on CHR ''/'' f))"
  by (rule is_valid_filter_iff)

text \<open>
  A topic is forwarded as a device command exactly when it reads
  \<open>sb/<house>/device/<device>/set\<close> with a non-empty house and device without \<open>/\<close>.
\<close>

theorem command_topic_shape:
  "is_command_topic t =
     (\<exists>house device. house \<noteq> [] \<and> device \<noteq> [] \<and> CHR ''/'' \<notin> set house
        \<and> CHR ''/'' \<notin> set device
        \<and> t = ''sb/'' @ house @ ''/device/'' @ device @ ''/set'')"
  using schema_matches [of COMMAND_FILTER "''set''" t]
  by (simp add: is_command_topic_def COMMAND_FILTER_def)

end
