(* ===== verification/Rate_Limit.thy ===== *)
theory Rate_Limit
  imports Prelude
begin

text \<open>
  The token bucket of \<^verbatim>\<open>crates/GatoMQTT/src/session/rate_limit.rs\<close>, at the machine widths of
  the source: the counters are 8-bit and saturate, the time stamps are 64-bit ticks.
\<close>

record token_bucket =
  tokens :: u8
  capacity :: u8
  rate_per_sec :: u8
  last_refill :: instant
  violations :: u8

definition bucket_new :: "u8 \<Rightarrow> u8 \<Rightarrow> token_bucket" where
  "bucket_new cap rate =
     \<lparr>tokens = cap, capacity = cap, rate_per_sec = rate, last_refill = 0, violations = 0\<rparr>"

definition bucket_refill :: "time_driver \<Rightarrow> instant \<Rightarrow> token_bucket \<Rightarrow> token_bucket" where
  "bucket_refill td now b =
     (case checked_duration_since now (last_refill b) of
        None \<Rightarrow> b
      | Some elapsed \<Rightarrow>
          let elapsed_secs = as_secs td elapsed in
          if elapsed_secs > 0
          then let refill = ucast (min (saturating_mul elapsed_secs (ucast (rate_per_sec b))) 255)
               in b\<lparr>tokens := min (saturating_add (tokens b) refill) (capacity b),
                    last_refill := now\<rparr>
          else b)"

definition try_consume :: "time_driver \<Rightarrow> instant \<Rightarrow> token_bucket \<Rightarrow> bool \<times> token_bucket" where
  "try_consume td now b =
     (let b = bucket_refill td now b in
      if tokens b > 0
      then (True, b\<lparr>tokens := tokens b - 1, violations := 0\<rparr>)
      else (False, b\<lparr>violations := saturating_add (violations b) 1\<rparr>))"

definition reset_violations :: "token_bucket \<Rightarrow> token_bucket" where
  "reset_violations b = b\<lparr>violations := 0\<rparr>"

definition bucket_default :: token_bucket where
  "bucket_default = bucket_new 0 0"

definition bucket_inv :: "token_bucket \<Rightarrow> bool" where
  "bucket_inv b \<longleftrightarrow> tokens b \<le> capacity b"

text \<open>What is documented of \<open>Duration::as_secs\<close>: whole seconds, rounded down.\<close>

definition secs_floor :: "time_driver \<Rightarrow> nat \<Rightarrow> bool" where
  "secs_floor td hz \<longleftrightarrow> 0 < hz \<and> (\<forall>d. unat (as_secs td d) = unat d div hz)"

lemma unat_byte_refill:
  "unat (ucast (min (saturating_mul es (ucast (r :: u8))) 255 :: u64) :: u8)
     = min (unat (es :: u64) * unat r) 255"
proof -
  let ?m = "min (saturating_mul es (ucast r)) 255 :: u64"
  have m: "unat ?m = min (unat (saturating_mul es (ucast r :: u64))) 255"
    by (auto simp: min_def word_le_nat_alt)
  then have "unat ?m < 2 ^ 8" by simp
  then have "unat (ucast ?m :: u8) = unat ?m"
    by (simp add: unsigned_ucast_eq take_bit_nat_eq_self)
  moreover have "unat (ucast r :: u64) = unat r"
    by (simp add: unsigned_ucast_eq take_bit_nat_eq_self less_le_trans [OF unsigned_less])
  moreover have "unat (saturating_mul es (ucast r :: u64))
      = min (unat es * unat (ucast r :: u64)) (2 ^ 64 - 1)"
    by (simp add: unat_saturating_mul)
  ultimately show ?thesis using m by (simp add: min.assoc)
qed

lemma refill_inv: "bucket_inv b \<Longrightarrow> bucket_inv (bucket_refill td now b)"
  by (auto simp: bucket_refill_def bucket_inv_def Let_def split: option.splits)

lemma refill_fields [simp]:
  "capacity (bucket_refill td now b) = capacity b"
  "rate_per_sec (bucket_refill td now b) = rate_per_sec b"
  "violations (bucket_refill td now b) = violations b"
  by (auto simp: bucket_refill_def Let_def split: option.splits)

lemma refill_last: "last_refill (bucket_refill td now b) \<in> {last_refill b, now}"
  by (auto simp: bucket_refill_def Let_def split: option.splits)

lemma refill_last_mono: "last_refill b \<le> last_refill (bucket_refill td now b)"
  by (auto simp: bucket_refill_def Let_def checked_duration_since_def split: option.splits)

lemma div_add_le: "(a :: nat) div h + b div h \<le> (a + b) div h"
  using div_add1_eq [of a b h] by simp

lemma refill_tokens:
  assumes "secs_floor td hz"
  shows "unat (tokens (bucket_refill td now b)) \<le> unat (tokens b)
    + unat (rate_per_sec b) * ((unat (last_refill (bucket_refill td now b)) - unat (last_refill b)) div hz)"
proof (cases "checked_duration_since now (last_refill b)")
  case None
  then show ?thesis by (simp add: bucket_refill_def)
next
  case (Some el)
  have el: "unat el = unat now - unat (last_refill b)"
    using checked_duration_since_SomeD [OF Some] by simp
  let ?es = "as_secs td el"
  have es: "unat ?es = unat el div hz" using assms by (simp add: secs_floor_def)
  show ?thesis
  proof (cases "?es > 0")
    case False
    then show ?thesis using Some by (simp add: bucket_refill_def Let_def)
  next
    case True
    let ?r = "ucast (min (saturating_mul ?es (ucast (rate_per_sec b))) 255 :: u64) :: u8"
    have "unat (min (saturating_add (tokens b) ?r) (capacity b)) \<le> unat (saturating_add (tokens b) ?r)"
      by (simp add: word_le_nat_alt [symmetric])
    also have "\<dots> \<le> unat (tokens b) + unat ?r" by (simp add: unat_saturating_add)
    also have "unat ?r \<le> unat ?es * unat (rate_per_sec b)" by (simp add: unat_byte_refill)
    finally show ?thesis
      using Some True el es by (simp add: bucket_refill_def Let_def mult.commute)
  qed
qed

section \<open>Sequences of publishes\<close>

text \<open>How many of the attempts at the given times are accepted, and the bucket after them.\<close>

fun consume_run :: "time_driver \<Rightarrow> token_bucket \<Rightarrow> instant list \<Rightarrow> nat \<times> token_bucket" where
  "consume_run td b [] = (0, b)"
| "consume_run td b (t # ts) =
     (let r = try_consume td t b; q = consume_run td (snd r) ts
      in (of_bool (fst r) + fst q, snd q))"

lemma try_consume_tokens:
  assumes "secs_floor td hz"
  shows "of_bool (fst (try_consume td now b)) + unat (tokens (snd (try_consume td now b)))
      \<le> unat (tokens b) + unat (rate_per_sec b)
        * ((unat (last_refill (snd (try_consume td now b))) - unat (last_refill b)) div hz)"
proof -
  have "tokens b' > 0 \<Longrightarrow> unat (tokens b' - 1) = unat (tokens b') - 1 \<and> 0 < unat (tokens b')"
    for b' :: token_bucket
    by (simp add: unat_minus_one word_gt_0 unat_gt_0)
  then show ?thesis
    using refill_tokens [OF assms, of now b] by (auto simp: try_consume_def Let_def)
qed

lemma try_consume_frame [simp]:
  "rate_per_sec (snd (try_consume td now b)) = rate_per_sec b"
  "capacity (snd (try_consume td now b)) = capacity b"
  "last_refill (snd (try_consume td now b)) = last_refill (bucket_refill td now b)"
  by (simp_all add: try_consume_def Let_def)

lemma try_consume_inv: "bucket_inv b \<Longrightarrow> bucket_inv (snd (try_consume td now b))"
proof -
  assume "bucket_inv b"
  then have "bucket_inv (bucket_refill td now b)" by (rule refill_inv)
  then show ?thesis
    by (auto simp: try_consume_def Let_def bucket_inv_def intro: order_trans [rotated]
        word_sub_le [of 1] simp: word_le_nat_alt unat_minus_one word_gt_0)
qed

lemma consume_run_bound:
  assumes "secs_floor td hz" "\<forall>t\<in>set ts. t \<le> T" "last_refill b \<le> T"
  shows "fst (consume_run td b ts) + unat (tokens (snd (consume_run td b ts)))
    \<le> unat (tokens b) + unat (rate_per_sec b) * ((unat T - unat (last_refill b)) div hz)"
  using assms(2,3)
proof (induction ts arbitrary: b)
  case (Cons t ts)
  let ?r = "try_consume td t b"
  let ?b = "snd ?r"
  have lr: "last_refill ?b \<le> T" "last_refill b \<le> last_refill ?b"
    using refill_last [of td t b] refill_last_mono [of b td t] Cons.prems by auto
  then have IH: "fst (consume_run td ?b ts) + unat (tokens (snd (consume_run td ?b ts)))
    \<le> unat (tokens ?b) + unat (rate_per_sec b) * ((unat T - unat (last_refill ?b)) div hz)"
    using Cons.IH [of ?b] Cons.prems(1) by simp
  have "(unat (last_refill ?b) - unat (last_refill b)) div hz
      + (unat T - unat (last_refill ?b)) div hz \<le> (unat T - unat (last_refill b)) div hz"
    using div_add_le [of "unat (last_refill ?b) - unat (last_refill b)" hz
        "unat T - unat (last_refill ?b)"] lr by (simp add: word_le_nat_alt)
  then have "unat (rate_per_sec b) * ((unat (last_refill ?b) - unat (last_refill b)) div hz)
      + unat (rate_per_sec b) * ((unat T - unat (last_refill ?b)) div hz)
      \<le> unat (rate_per_sec b) * ((unat T - unat (last_refill b)) div hz)"
    by (metis add_mult_distrib2 mult_le_mono2)
  then show ?case
    using try_consume_tokens [OF assms(1), of t b] IH by (simp add: Let_def)
qed simp

section \<open>Properties\<close>

text \<open>
  C19: rate limiting. However a client spaces its publishes up to time \<open>T\<close>, a bucket
  accepts at most the tokens it holds plus the configured rate times the whole seconds
  since its last refill; in particular a fresh bucket never lets more than its capacity
  through in a burst.
\<close>

theorem rate_limit_bound:
  assumes "secs_floor td hz" "\<forall>t\<in>set ts. t \<le> T" "last_refill b \<le> T"
  shows "fst (consume_run td b ts)
    \<le> unat (tokens b) + unat (rate_per_sec b) * ((unat T - unat (last_refill b)) div hz)"
  using consume_run_bound [OF assms] by simp

definition ms_driver :: time_driver where
  "ms_driver = \<lparr>from_secs = (\<lambda>s. s * 1000), from_millis = (\<lambda>m. m), as_secs = (\<lambda>d. d div 1000)\<rparr>"

lemma ms_driver_floor: "secs_floor ms_driver 1000"
  by (simp add: secs_floor_def ms_driver_def unat_div)

theorem rate_limit_bound_witness:
  "fst (consume_run ms_driver (bucket_new 2 1) [5, 6, 7, 8]) \<le> 2"
  using rate_limit_bound [OF ms_driver_floor, of "[5, 6, 7, 8]" 8 "bucket_new 2 1"]
  by (simp add: bucket_new_def)

text \<open>
  Recovery. Once a whole second has passed since the last refill, a client of a
  bucket with a non-zero rate and capacity is served again, and its violation count is
  cleared.
\<close>

theorem rate_limit_recovers:
  assumes "secs_floor td hz" "last_refill b \<le> now" "hz \<le> unat now - unat (last_refill b)"
    and "0 < rate_per_sec b" "0 < capacity b"
  shows "fst (try_consume td now b) \<and> violations (snd (try_consume td now b)) = 0"
proof -
  let ?el = "now - last_refill b"
  have cd: "checked_duration_since now (last_refill b) = Some ?el"
    using assms(2) by (simp add: checked_duration_since_def)
  have es: "unat (as_secs td ?el) = (unat now - unat (last_refill b)) div hz"
    using assms(1,2) by (simp add: secs_floor_def unat_sub)
  then have es1: "1 \<le> unat (as_secs td ?el)"
    using assms(1,3) by (simp add: secs_floor_def Suc_le_eq div_greater_zero_iff)
  let ?r = "ucast (min (saturating_mul (as_secs td ?el) (ucast (rate_per_sec b))) 255 :: u64) :: u8"
  have "1 \<le> unat ?r"
    using es1 assms(4) by (simp add: unat_byte_refill word_gt_0 unat_gt_0 Suc_le_eq)
  then have "0 < saturating_add (tokens b) ?r"
    by (simp add: word_less_nat_alt unat_saturating_add)
  then have "0 < tokens (bucket_refill td now b)"
    using cd es1 assms(5) by (auto simp: bucket_refill_def Let_def word_less_nat_alt)
  then show ?thesis
    by (simp add: try_consume_def Let_def)
qed

theorem rate_limit_recovers_witness:
  "fst (try_consume ms_driver 1500 ((bucket_new 2 1)\<lparr>tokens := 0, violations := 7\<rparr>))"
  using rate_limit_recovers [OF ms_driver_floor,
      of "(bucket_new 2 1)\<lparr>tokens := 0, violations := 7\<rparr>" 1500]
  by (simp add: bucket_new_def)

end
