(* ===== verification/Session_State.thy ===== *)
theory Session_State
  imports Topics Rate_Limit
begin

text \<open>
  Per-session state of \<^verbatim>\<open>crates/GatoMQTT/src/session/state.rs\<close>: subscriptions, QoS 1
  in-flight entries, the bounded outbox, keep-alive and packet identifiers. The capacities
  \<open>MAX_SUBS\<close> and \<open>MAX_INFLIGHT\<close> are const generics of the Rust type; the operations
  that can run into them take them as arguments.
\<close>

section \<open>State\<close>

definition MAX_OUTBOUND_FRAME_SIZE :: nat where
  "MAX_OUTBOUND_FRAME_SIZE = 192"

definition MAX_OUTBOX_DEPTH :: nat where
  "MAX_OUTBOX_DEPTH = 8"

type_synonym session_id = nat

record subscription =
  sub_filter :: string
  sub_qos :: qos

record stored_publish_handle =
  h_slot :: nat
  h_generation :: u32

record inflight_entry =
  packet_id :: u16
  inf_publish :: stored_publish_handle
  inf_qos :: qos
  sent_at :: instant
  retries :: u8

record lwt_message =
  lwt_topic :: string
  lwt_payload :: bytes
  lwt_qos :: qos
  lwt_retain :: bool

record outbound_packet =
  ob_bytes :: bytes

record session_state =
  sess_client_id :: string
  subscriptions :: "subscription list"
  inflight :: "inflight_entry list"
  outbox :: "outbound_packet list"
  rate :: token_bucket
  keepalive_secs :: u16
  last_activity :: instant
  lwt :: "lwt_message option"
  outbox_drops :: u8
  quarantined :: bool
  next_packet_id_counter :: u16

section \<open>Operations\<close>

definition session_new :: "string \<Rightarrow> u16 \<Rightarrow> session_state" where
  "session_new cid keepalive =
     \<lparr>sess_client_id = cid,
      subscriptions = [],
      inflight = [],
      outbox = [],
      rate = bucket_new (rate_capacity GATOMQTT_CONFIG) (cfg_rate_per_sec GATOMQTT_CONFIG),
      keepalive_secs = keepalive,
      last_activity = 0,
      lwt = None,
      outbox_drops = 0,
      quarantined = False,
      next_packet_id_counter = 0\<rparr>"

definition inflight_add :: "nat \<Rightarrow> inflight_entry \<Rightarrow> session_state \<Rightarrow> session_state option" where
  "inflight_add max_inflight entry s =
     map_option (\<lambda>es. s\<lparr>inflight := es\<rparr>) (vec_push max_inflight entry (inflight s))"

definition inflight_remove :: "u16 \<Rightarrow> session_state \<Rightarrow> inflight_entry option \<times> session_state" where
  "inflight_remove pid s =
     (case position (\<lambda>e. packet_id e = pid) (inflight s) of
        None \<Rightarrow> (None, s)
      | Some index \<Rightarrow>
          (Some (inflight s ! index), s\<lparr>inflight := remove_at index (inflight s)\<rparr>))"

definition inflight_ack :: "u16 \<Rightarrow> session_state \<Rightarrow> bool \<times> session_state" where
  "inflight_ack pid s = (let (e, s') = inflight_remove pid s in (e \<noteq> None, s'))"

definition entry_due :: "time_driver \<Rightarrow> instant \<Rightarrow> u32 \<Rightarrow> inflight_entry \<Rightarrow> bool" where
  "entry_due td now timeout_ms e =
     (case checked_duration_since now (sent_at e) of
        None \<Rightarrow> False
      | Some elapsed \<Rightarrow> elapsed \<ge> from_millis td (ucast timeout_ms))"

definition inflight_expired_at ::
  "time_driver \<Rightarrow> instant \<Rightarrow> u32 \<Rightarrow> session_state \<Rightarrow> inflight_entry list" where
  "inflight_expired_at td now timeout_ms s = filter (entry_due td now timeout_ms) (inflight s)"

definition update_activity_at :: "instant \<Rightarrow> session_state \<Rightarrow> session_state" where
  "update_activity_at now s = s\<lparr>last_activity := now\<rparr>"

definition keepalive_deadline :: "time_driver \<Rightarrow> session_state \<Rightarrow> instant" where
  "keepalive_deadline td s =
     (if keepalive_secs s = 0 then instant_max
      else (let timeout_secs = (ucast (keepalive_secs s) * 3) div 2 :: u64
            in case checked_add (last_activity s) (from_secs td timeout_secs) of
                 None \<Rightarrow> instant_max
               | Some t \<Rightarrow> t))"

definition is_keepalive_expired :: "time_driver \<Rightarrow> instant \<Rightarrow> session_state \<Rightarrow> bool" where
  "is_keepalive_expired td now s =
     (if keepalive_secs s = 0 then False else now > keepalive_deadline td s)"

definition retry_remaining :: "time_driver \<Rightarrow> instant \<Rightarrow> u32 \<Rightarrow> inflight_entry \<Rightarrow> duration" where
  "retry_remaining td now qos1_retry e =
     (let retry_timeout = from_millis td (ucast qos1_retry);
          elapsed = (case checked_duration_since now (sent_at e) of None \<Rightarrow> 0 | Some d \<Rightarrow> d)
      in if elapsed \<ge> retry_timeout then 0 else retry_timeout - elapsed)"

definition next_wakeup_after ::
  "time_driver \<Rightarrow> instant \<Rightarrow> u32 \<Rightarrow> duration \<Rightarrow> session_state \<Rightarrow> duration" where
  "next_wakeup_after td now qos1_retry max_wait s =
     (let keepalive_wait =
        (if keepalive_secs s > 0
         then map_option (min max_wait) (checked_duration_since (keepalive_deadline td s) now)
         else Some max_wait)
      in case keepalive_wait of
           None \<Rightarrow> 1
         | Some wait \<Rightarrow>
             max (fold (\<lambda>e w. min w (retry_remaining td now qos1_retry e)) (inflight s) wait) 1)"

definition next_packet_id :: "session_state \<Rightarrow> u16 \<times> session_state" where
  "next_packet_id s =
     (let n = next_packet_id_counter s + 1;
          n' = (if n = 0 then 1 else n)
      in (n', s\<lparr>next_packet_id_counter := n'\<rparr>))"

section \<open>Invariant\<close>

definition lwt_inv :: "lwt_message \<Rightarrow> bool" where
  "lwt_inv l \<longleftrightarrow> length (lwt_topic l) \<le> 128 \<and> length (lwt_payload l) \<le> 512"

definition session_inv :: "nat \<Rightarrow> nat \<Rightarrow> session_state \<Rightarrow> bool" where
  "session_inv max_subs max_inflight s \<longleftrightarrow>
     length (sess_client_id s) \<le> 64
     \<and> length (subscriptions s) \<le> max_subs
     \<and> distinct (map sub_filter (subscriptions s))
     \<and> (\<forall>sub\<in>set (subscriptions s). is_valid_filter (sub_filter sub))
     \<and> length (inflight s) \<le> max_inflight
     \<and> (\<forall>e\<in>set (inflight s). packet_id e \<noteq> 0 \<and> inf_qos e = AtLeastOnce)
     \<and> length (outbox s) \<le> MAX_OUTBOX_DEPTH
     \<and> (\<forall>p\<in>set (outbox s). length (ob_bytes p) \<le> MAX_OUTBOUND_FRAME_SIZE)
     \<and> (\<forall>l. lwt s = Some l \<longrightarrow> lwt_inv l)
     \<and> bucket_inv (rate s)"

named_theorems session_ops \<open>how the operations change the fields\<close>

lemma session_new_inv: "length cid \<le> 64 \<Longrightarrow> session_inv m n (session_new cid ka)"
  by (simp add: session_inv_def session_new_def bucket_inv_def bucket_new_def)

lemma inflight_add_SomeD:
  "inflight_add cap e s = Some s' \<Longrightarrow>
   s' = s\<lparr>inflight := inflight s @ [e]\<rparr> \<and> length (inflight s) < cap"
  by (auto simp: inflight_add_def)

lemma inflight_remove_cases:
  obtains (absent) "inflight_remove pid s = (None, s)" "\<forall>e\<in>set (inflight s). packet_id e \<noteq> pid"
  | (present) ys e zs where "inflight s = ys @ e # zs" "packet_id e = pid"
      "\<forall>x\<in>set ys. packet_id x \<noteq> pid"
      "inflight_remove pid s = (Some e, s\<lparr>inflight := ys @ zs\<rparr>)"
proof (cases "position (\<lambda>e. packet_id e = pid) (inflight s)")
  case None
  then have "inflight_remove pid s = (None, s)" by (simp add: inflight_remove_def)
  moreover have "\<forall>e\<in>set (inflight s). packet_id e \<noteq> pid"
    using None by (simp add: position_None)
  ultimately show ?thesis by (rule absent)
next
  case (Some i)
  obtain ys e zs where sp: "inflight s = ys @ e # zs" "length ys = i" "packet_id e = pid"
      "\<forall>x\<in>set ys. packet_id x \<noteq> pid"
    using position_split [OF Some] by blast
  then have "inflight_remove pid s = (Some e, s\<lparr>inflight := ys @ zs\<rparr>)"
    using Some by (auto simp: inflight_remove_def nth_append remove_at_def)
  with sp show ?thesis using present by blast
qed

lemma next_packet_id_nonzero: "fst (next_packet_id s) \<noteq> 0"
  by (simp add: next_packet_id_def Let_def)

lemma next_packet_id_frame [session_ops]:
  "snd (next_packet_id s) = s\<lparr>next_packet_id_counter := fst (next_packet_id s)\<rparr>"
  by (simp add: next_packet_id_def Let_def)

lemma next_packet_id_value:
  "unat (fst (next_packet_id s)) = unat (next_packet_id_counter s) mod 65535 + 1"
proof (cases "next_packet_id_counter s = - 1")
  case True
  then show ?thesis
    by (simp add: next_packet_id_def Let_def unat_minus_1)
next
  case False
  then have "unat (next_packet_id_counter s + 1) = Suc (unat (next_packet_id_counter s))"
    by (rule unat_Suc_if)
  moreover have "unat (next_packet_id_counter s) < 65535"
    using unsigned_less [of "next_packet_id_counter s", where 'a = nat] False
      word_unat_eq_iff [of "next_packet_id_counter s" "- 1"] by (simp add: unat_minus_1)
  moreover have "next_packet_id_counter s + 1 \<noteq> 0"
    using False by (metis add_eq_0_iff add.commute minus_minus)
  ultimately show ?thesis by (simp add: next_packet_id_def Let_def)
qed

section \<open>Packet identifiers in sequence\<close>

fun packet_ids :: "nat \<Rightarrow> session_state \<Rightarrow> u16 list" where
  "packet_ids 0 s = []"
| "packet_ids (Suc n) s = fst (next_packet_id s) # packet_ids n (snd (next_packet_id s))"

lemma length_packet_ids [simp]: "length (packet_ids n s) = n"
  by (induction n arbitrary: s) auto

lemma packet_ids_nth:
  "i < n \<Longrightarrow> unat (packet_ids n s ! i) = (unat (next_packet_id_counter s) + i) mod 65535 + 1"
proof (induction n arbitrary: s i)
  case (Suc n)
  show ?case
  proof (cases i)
    case 0
    then show ?thesis by (simp add: next_packet_id_value)
  next
    case (Suc j)
    have "unat (packet_ids n (snd (next_packet_id s)) ! j)
        = (unat (fst (next_packet_id s)) + j) mod 65535 + 1"
      using Suc.prems Suc \<open>i = Suc j\<close> Suc.IH [of j "snd (next_packet_id s)"]
      by (simp add: next_packet_id_frame)
    then show ?thesis
      using Suc mod_add_left_eq [of "unat (next_packet_id_counter s)" 65535 "Suc j"]
      by (simp add: next_packet_id_value)
  qed
qed simp

lemma fold_min_le:
  "fold (\<lambda>e w. min w (f e)) es w0 \<le> w0"
  "e \<in> set es \<Longrightarrow> fold (\<lambda>e w. min w (f e)) es w0 \<le> f e"
  for w0 :: "'b::linorder"
proof -
  show le: "fold (\<lambda>e w. min w (f e)) es w0 \<le> w0" for es and w0 :: 'b
  proof (induction es arbitrary: w0)
    case (Cons a es)
    show ?case using Cons [of "min w0 (f a)"] by simp
  qed simp
  show "e \<in> set es \<Longrightarrow> fold (\<lambda>e w. min w (f e)) es w0 \<le> f e"
  proof (induction es arbitrary: w0)
    case (Cons a es)
    then show ?case using le [of es "min w0 (f a)"] by auto
  qed simp
qed

section \<open>Properties\<close>

text \<open>
  Packet identifiers. Of up to 65535 successive identifiers no two are equal and none
  is the reserved value 0, wherever the 16-bit counter starts.
\<close>

theorem packet_ids_distinct:
  assumes "n \<le> 65535"
  shows "distinct (packet_ids n s) \<and> 0 \<notin> set (packet_ids n s)"
proof -
  have "packet_ids n s ! i \<noteq> packet_ids n s ! j" if "i < j" "j < n" for i j
  proof
    assume "packet_ids n s ! i = packet_ids n s ! j"
    then have "(unat (next_packet_id_counter s) + i) mod 65535
        = (unat (next_packet_id_counter s) + j) mod 65535"
      using packet_ids_nth [of i n s] packet_ids_nth [of j n s] that by simp
    then have "65535 dvd j - i"
      using that by (metis mod_eq_dvd_iff_nat add_diff_cancel_left nat_add_left_cancel_le less_imp_le)
    then show False using that assms by (auto dest: dvd_imp_le)
  qed
  then have "distinct (packet_ids n s)"
    by (auto simp: distinct_conv_nth) (metis linorder_neqE_nat)
  moreover have "0 \<notin> set (packet_ids n s)"
    using packet_ids_nth [of _ n s] by (auto simp: in_set_conv_nth) (metis Suc_neq_Zero unsigned_0)
  ultimately show ?thesis by simp
qed

theorem packet_ids_distinct_witness:
  "distinct (packet_ids 3 ((session_new ''c'' 0)\<lparr>next_packet_id_counter := 65534\<rparr>))
   \<and> packet_ids 3 ((session_new ''c'' 0)\<lparr>next_packet_id_counter := 65534\<rparr>) = [65535, 1, 2]"
  using packet_ids_distinct [of 3 "(session_new ''c'' 0)\<lparr>next_packet_id_counter := 65534\<rparr>"]
  by (simp add: next_packet_id_def numeral_3_eq_3)

text \<open>
  Keep-alive. A session is expired exactly when it has a keep-alive interval and more
  than one and a half times that interval has passed since the last activity, computed
  without overflow: a deadline beyond the last representable instant never expires.
\<close>

theorem keepalive_expiry:
  "is_keepalive_expired td now s =
     (keepalive_secs s \<noteq> 0
      \<and> unat (last_activity s)
          + unat (from_secs td (word_of_nat (unat (keepalive_secs s) * 3 div 2))) < unat now)"
proof -
  let ?k = "ucast (keepalive_secs s) :: u64"
  have k: "unat ?k = unat (keepalive_secs s)" "unat (keepalive_secs s) < 65536"
    using unsigned_less [of "keepalive_secs s", where 'a = nat]
    by (simp_all add: unsigned_ucast_eq take_bit_nat_eq_self)
  then have "unat (?k * 3) = unat (keepalive_secs s) * 3"
    by (simp add: unat_word_ariths)
  then have "unat (?k * 3 div 2) = unat (keepalive_secs s) * 3 div 2"
    by (simp add: unat_div)
  then have "(?k * 3) div 2 = word_of_nat (unat (keepalive_secs s) * 3 div 2)"
    by (metis of_nat_unat ucast_id)
  moreover have "unat now \<le> 2 ^ 64 - 1"
    using unsigned_less [of now, where 'a = nat] by simp
  moreover have "\<not> instant_max < now"
    by (simp add: instant_max_def word_less_nat_alt not_less unsigned_minus_1_eq_mask
        mask_eq_exp_minus_1) (use calculation(2) in simp)
  ultimately show ?thesis
    by (auto simp: is_keepalive_expired_def keepalive_deadline_def checked_add_def Let_def
        word_less_nat_alt unat_word_ariths)
qed

text \<open>
  The connection loop's sleep. It lasts at least one tick; when longer, it stays
  within the given bound, ends no later than the keep-alive deadline and no later than the
  first retry of an in-flight message falls due.
\<close>

theorem next_wakeup_in_time:
  assumes "w = next_wakeup_after td now retry max_wait s"
  shows "1 \<le> w \<and> (w = 1 \<or>
     w \<le> max_wait
     \<and> (keepalive_secs s = 0 \<or> unat now + unat w \<le> unat (keepalive_deadline td s))
     \<and> (\<forall>e\<in>set (inflight s). w \<le> retry_remaining td now retry e))"
proof -
  define f where "f w0 = fold (\<lambda>e w. min w (retry_remaining td now retry e)) (inflight s) w0" for w0
  have f: "f w0 \<le> w0" "\<forall>e\<in>set (inflight s). f w0 \<le> retry_remaining td now retry e" for w0
    by (auto simp: f_def fold_min_le)
  have left: "unat now + unat (min max_wait d) \<le> unat (keepalive_deadline td s)"
    if "checked_duration_since (keepalive_deadline td s) now = Some d" for d
    using checked_duration_since_SomeD [OF that] by (auto simp: min_def word_le_nat_alt)
  have w: "w = (case if keepalive_secs s > 0
        then map_option (min max_wait) (checked_duration_since (keepalive_deadline td s) now)
        else Some max_wait of None \<Rightarrow> 1 | Some wait \<Rightarrow> max (f wait) 1)"
    by (simp add: assms next_wakeup_after_def f_def Let_def split: option.split)
  consider "w = 1" | wait where "w = max (f wait) 1"
      "wait \<le> max_wait" "keepalive_secs s = 0 \<or> unat now + unat wait \<le> unat (keepalive_deadline td s)"
  proof (cases "keepalive_secs s = 0")
    case True
    then show ?thesis using w that(2) [of max_wait] by simp
  next
    case False
    then show ?thesis
      using w that left by (cases "checked_duration_since (keepalive_deadline td s) now")
        (auto simp: word_neq_0_conv)
  qed
  then show ?thesis
  proof cases
    case 2
    have "f wait \<le> max_wait" "unat (f wait) \<le> unat wait"
      using f(1) [of wait] 2(2) by (auto simp: word_le_nat_alt)
    then show ?thesis
      using 2 f(2) [of wait] by (cases "f wait \<le> 1") (auto simp: max_def)
  qed simp
qed

theorem next_wakeup_in_time_witness:
  "next_wakeup_after ms_driver 1000 5000 3600000 ((session_new ''c'' 10)\<lparr>last_activity := 500\<rparr>) = 14500
   \<and> (1 :: duration) \<le> 14500"
  using next_wakeup_in_time [of 14500 ms_driver 1000 5000 3600000
      "(session_new ''c'' 10)\<lparr>last_activity := 500\<rparr>"]
  by (simp add: next_wakeup_after_def session_new_def keepalive_deadline_def checked_add_def
      ms_driver_def checked_duration_since_def min_def)

end
