(* ===== verification/Slot.thy ===== *)
theory Slot
  imports Prelude
begin

text \<open>
  \<open>Slot<T>\<close> of \<^verbatim>\<open>crates/GatoMQTT/src/slot.rs\<close>: an optional storage cell with an explicit
  occupancy flag next to possibly uninitialised storage. The storage is modelled with
  the three states \<open>MaybeUninit\<close> can be in from the point of view of ownership: never
  written, holding a value, or holding a value that has been moved out. The invariant
  \<open>slot_inv\<close> says that the flag is set exactly when the storage holds a value, so that no
  operation reads storage it does not own. The locale \<open>optional_cell\<close> is the
  interface the registry relies on, for arrays of cells too.
\<close>

section \<open>The cell\<close>

datatype 'a maybe_uninit = Uninit | Init 'a | MovedOut

record 'a slot =
  occupied :: bool
  cell :: "'a maybe_uninit"

primrec assume_init :: "'a maybe_uninit \<Rightarrow> 'a option" where
  "assume_init Uninit = None"
| "assume_init (Init v) = Some v"
| "assume_init MovedOut = None"

definition slot_EMPTY :: "'a slot" where
  "slot_EMPTY = \<lparr>occupied = False, cell = Uninit\<rparr>"

definition slot_new :: "'a slot" where
  "slot_new = slot_EMPTY"

definition slot_is_some :: "'a slot \<Rightarrow> bool" where
  "slot_is_some s = occupied s"

definition slot_is_none :: "'a slot \<Rightarrow> bool" where
  "slot_is_none s = (\<not> occupied s)"

definition slot_as_ref :: "'a slot \<Rightarrow> 'a option" where
  "slot_as_ref s = (if occupied s then assume_init (cell s) else None)"

text \<open>\<open>as_mut\<close> hands out a mutable reference: the model takes the update to run on it.\<close>

definition slot_as_mut :: "('a \<Rightarrow> 'a) \<Rightarrow> 'a slot \<Rightarrow> 'a slot" where
  "slot_as_mut f s =
     (if occupied s
      then (case cell s of Init v \<Rightarrow> s\<lparr>cell := Init (f v)\<rparr> | Uninit \<Rightarrow> s | MovedOut \<Rightarrow> s)
      else s)"

definition slot_replace :: "'a slot \<Rightarrow> 'a \<Rightarrow> 'a option \<times> 'a slot" where
  "slot_replace s v =
     (let (old, s') =
        (if occupied s
         then (assume_init (cell s), \<lparr>occupied = False, cell = MovedOut\<rparr>)
         else (None, s))
      in (old, s'\<lparr>cell := Init v, occupied := True\<rparr>))"

definition slot_take :: "'a slot \<Rightarrow> 'a option \<times> 'a slot" where
  "slot_take s =
     (if occupied s then (assume_init (cell s), \<lparr>occupied = False, cell = MovedOut\<rparr>)
      else (None, s))"

definition slot_default :: "'a slot" where
  "slot_default = slot_EMPTY"

text \<open>\<open>Drop\<close>: the values whose destructor runs.\<close>

definition slot_drop :: "'a slot \<Rightarrow> 'a option" where
  "slot_drop s = (if occupied s then assume_init (cell s) else None)"

definition slot_clone :: "'a slot \<Rightarrow> 'a slot" where
  "slot_clone s =
     (case slot_as_ref s of None \<Rightarrow> slot_EMPTY | Some v \<Rightarrow> snd (slot_replace slot_EMPTY v))"

definition slot_eq :: "'a slot \<Rightarrow> 'a slot \<Rightarrow> bool" where
  "slot_eq s t = (slot_as_ref s = slot_as_ref t)"

definition slot_inv :: "'a slot \<Rightarrow> bool" where
  "slot_inv s \<longleftrightarrow> (occupied s \<longleftrightarrow> (\<exists>v. cell s = Init v))"

lemmas slot_defs = slot_EMPTY_def slot_new_def slot_is_some_def slot_is_none_def slot_as_ref_def
  slot_as_mut_def slot_replace_def slot_take_def slot_default_def slot_drop_def slot_clone_def
  slot_eq_def slot_inv_def

lemma slot_inv_ops [simp]:
  "slot_inv slot_EMPTY"
  "slot_inv (snd (slot_replace s v))"
  "slot_inv s \<Longrightarrow> slot_inv (snd (slot_take s))"
  "slot_inv s \<Longrightarrow> slot_inv (slot_as_mut f s)"
  "slot_inv (slot_clone s)"
  by (auto simp: slot_defs split: maybe_uninit.splits option.splits)

lemma slot_inv_is_none: "slot_inv s \<Longrightarrow> slot_is_none s \<longleftrightarrow> slot_as_ref s = None"
  by (cases "cell s") (auto simp: slot_defs)

section \<open>The interface of an optional cell\<close>

locale optional_cell =
  fixes empty :: "'s"
    and get :: "'s \<Rightarrow> 'a option"
    and modify :: "('a \<Rightarrow> 'a) \<Rightarrow> 's \<Rightarrow> 's"
    and put :: "'s \<Rightarrow> 'a \<Rightarrow> 'a option \<times> 's"
    and clear :: "'s \<Rightarrow> 'a option \<times> 's"
    and vacant :: "'s \<Rightarrow> bool"
    and invar :: "'s \<Rightarrow> bool"
  assumes get_empty: "get empty = None"
    and get_modify: "get (modify f s) = map_option f (get s)"
    and get_put: "get (snd (put s v)) = Some v"
    and put_old: "fst (put s v) = get s"
    and get_clear: "get (snd (clear s)) = None"
    and clear_old: "fst (clear s) = get s"
    and vacant_iff: "invar s \<Longrightarrow> vacant s \<longleftrightarrow> get s = None"
    and invar_empty: "invar empty"
    and invar_put: "invar (snd (put s v))"
    and invar_clear: "invar s \<Longrightarrow> invar (snd (clear s))"
    and invar_modify: "invar s \<Longrightarrow> invar (modify f s)"
begin

lemmas cell_laws = get_empty get_modify get_put put_old get_clear clear_old
lemmas cell_invars = invar_empty invar_put invar_clear invar_modify

lemma look_empty: "look get (replicate n empty) = Map.empty"
  by (auto simp: look_def cell_laws fun_eq_iff)

lemma look_put:
  "i < length xs \<Longrightarrow> look get (xs[i := snd (put (xs ! i) v)]) = (look get xs)(i \<mapsto> v)"
  by (auto simp: look_def cell_laws fun_eq_iff nth_list_update)

lemma look_clear:
  "look get (xs[i := snd (clear (xs ! i))]) = (look get xs)(i := None)"
  by (auto simp: look_def cell_laws fun_eq_iff nth_list_update)

lemma look_modify:
  "look get (xs[i := modify f (xs ! i)]) = (look get xs)(i := map_option f (look get xs i))"
  by (auto simp: look_def cell_laws fun_eq_iff nth_list_update)

lemma first_vacant:
  assumes "\<forall>x\<in>set xs. invar x" "position vacant xs = Some i"
  shows "i < length xs" "look get xs i = None" "\<And>j. j < i \<Longrightarrow> look get xs j \<noteq> None"
  using position_SomeD [OF assms(2)] assms(1) by (auto simp: look_def vacant_iff)

lemma no_vacant:
  "\<forall>x\<in>set xs. invar x \<Longrightarrow>
   position vacant xs = None \<longleftrightarrow> (\<forall>i<length xs. look get xs i \<noteq> None)"
  by (auto simp: look_def vacant_iff position_None all_set_conv_all_nth)

lemma invar_array_put: "\<forall>x\<in>set xs. invar x \<Longrightarrow> \<forall>x\<in>set (xs[i := snd (put (xs ! i) v)]). invar x"
  by (auto dest!: set_update_subset_insert [THEN subsetD] simp: cell_invars)

lemma invar_array_clear: "\<forall>x\<in>set xs. invar x \<Longrightarrow> \<forall>x\<in>set (xs[i := snd (clear (xs ! i))]). invar x"
  by (cases "i < length xs")
    (auto dest!: set_update_subset_insert [THEN subsetD] simp: cell_invars list_update_beyond)

lemma invar_array_modify: "\<forall>x\<in>set xs. invar x \<Longrightarrow> \<forall>x\<in>set (xs[i := modify f (xs ! i)]). invar x"
  by (cases "i < length xs")
    (auto dest!: set_update_subset_insert [THEN subsetD] simp: cell_invars list_update_beyond)

end

interpretation slot: optional_cell
  slot_EMPTY slot_as_ref slot_as_mut slot_replace slot_take slot_is_none slot_inv
  by unfold_locales (auto simp: slot_defs split: maybe_uninit.splits option.splits)

lemmas slot_simps [simp] = slot.get_empty slot.get_modify slot.get_put slot.put_old slot.get_clear
  slot.clear_old

section \<open>Sequences of operations\<close>

datatype 'a slot_op = OpReplace 'a | OpTake | OpAsMut "'a \<Rightarrow> 'a"

definition cons_some :: "'a option \<Rightarrow> 'a list \<Rightarrow> 'a list" where
  "cons_some x xs = (case x of None \<Rightarrow> xs | Some v \<Rightarrow> v # xs)"

fun slot_run :: "'a slot \<Rightarrow> 'a slot_op list \<Rightarrow> 'a list \<times> 'a slot" where
  "slot_run s [] = ([], s)"
| "slot_run s (OpReplace v # ops) =
     (let r = slot_replace s v in apfst (cons_some (fst r)) (slot_run (snd r) ops))"
| "slot_run s (OpTake # ops) =
     (let r = slot_take s in apfst (cons_some (fst r)) (slot_run (snd r) ops))"
| "slot_run s (OpAsMut f # ops) = slot_run (slot_as_mut f s) ops"

fun slot_inputs :: "'a slot_op list \<Rightarrow> 'a list" where
  "slot_inputs [] = []"
| "slot_inputs (OpReplace v # ops) = v # slot_inputs ops"
| "slot_inputs (OpTake # ops) = slot_inputs ops"
| "slot_inputs (OpAsMut f # ops) = slot_inputs ops"

text \<open>The same sequence on \<open>Option\<close>, the type \<open>Slot\<close> stands in for.\<close>

fun option_run :: "'a option \<Rightarrow> 'a slot_op list \<Rightarrow> 'a list \<times> 'a option" where
  "option_run x [] = ([], x)"
| "option_run x (OpReplace v # ops) = apfst (cons_some x) (option_run (Some v) ops)"
| "option_run x (OpTake # ops) = apfst (cons_some x) (option_run None ops)"
| "option_run x (OpAsMut f # ops) = option_run (map_option f x) ops"

lemma slot_run_option:
  "fst (slot_run s ops) = fst (option_run (slot_as_ref s) ops)"
  "slot_as_ref (snd (slot_run s ops)) = snd (option_run (slot_as_ref s) ops)"
  by (induction s ops rule: slot_run.induct) (simp_all add: Let_def)

lemma slot_run_inv: "slot_inv s \<Longrightarrow> slot_inv (snd (slot_run s ops))"
  by (induction s ops rule: slot_run.induct) (simp_all add: Let_def slot.cell_invars)

lemma option_run_count:
  "length (fst (option_run x ops)) + of_bool (snd (option_run x ops) \<noteq> None)
   = length (slot_inputs ops) + of_bool (x \<noteq> None)"
proof (induction x ops rule: option_run.induct)
  case (2 x v ops)
  then show ?case by (cases x) (simp_all add: cons_some_def)
next
  case (3 x ops)
  then show ?case by (cases x) (simp_all add: cons_some_def)
qed simp_all

lemma slot_drop_as_ref: "slot_drop s = slot_as_ref s"
  by (simp add: slot_drop_def slot_as_ref_def)

section \<open>Properties\<close>

text \<open>
  Any sequence of \<open>replace\<close>, \<open>take\<close> and \<open>as_mut\<close> calls on an empty slot
  gives the results and the final content the same sequence gives on an \<open>Option\<close>; the
  storage flag stays in step with the storage (no read of uninitialised or moved-out
  storage), and every value put in is either handed back once or dropped once at the end.
\<close>

theorem slot_refines_option:
  "fst (slot_run slot_EMPTY ops) = fst (option_run None ops)
   \<and> slot_as_ref (snd (slot_run slot_EMPTY ops)) = snd (option_run None ops)
   \<and> slot_inv (snd (slot_run slot_EMPTY ops))
   \<and> length (fst (slot_run slot_EMPTY ops))
       + of_bool (slot_drop (snd (slot_run slot_EMPTY ops)) \<noteq> None)
     = length (slot_inputs ops)"
  using option_run_count [of None ops] slot_run_inv [of slot_EMPTY ops]
  by (simp add: slot_run_option slot_drop_as_ref)

end
