(* ===== verification/Registry.thy ===== *)
theory Registry
  imports Session_State Slot "HOL-Library.Multiset"
begin

text \<open>
  The session registry of \<^verbatim>\<open>crates/GatoMQTT/src/session/registry.rs\<close>: a fixed array of
  session slots, a bounded queue of last-will messages and a fixed pool of publishes that
  the QoS 1 in-flight entries of all sessions share by reference count.

  The const generics \<open>N\<close> and \<open>MAX_INFLIGHT\<close> are the lengths of the two arrays;
  \<open>MAX_SUBS\<close> is an argument where it matters. The invariant \<open>refs_ok\<close> states that every
  pool entry's reference count is the number of in-flight entries that hold its handle,
  so an entry is freed exactly when nobody refers to it.
\<close>

section \<open>State\<close>

datatype registry_error = Full | LwtQueueFull | PublishStoreFull | PublishTopicTooLong
  | PublishPayloadTooLarge | PublishRefcountOverflow | PublishHandleInvalid

record stored_publish =
  sp_topic :: string
  sp_payload :: bytes
  sp_retain :: bool
  generation :: u32
  refcount :: u16

record session_registry =
  slots :: "session_state slot list"
  published_lwts :: "lwt_message list"
  stored_publishes :: "stored_publish slot list"
  next_publish_generation :: u32

section \<open>Operations\<close>

definition registry_new :: "nat \<Rightarrow> nat \<Rightarrow> session_registry" where
  "registry_new n max_inflight =
     \<lparr>slots = replicate n slot_EMPTY,
      published_lwts = [],
      stored_publishes = replicate max_inflight slot_EMPTY,
      next_publish_generation = 1\<rparr>"

definition registry_insert ::
  "session_state \<Rightarrow> session_registry \<Rightarrow> (registry_error + session_id) \<times> session_registry" where
  "registry_insert state r =
     (case position slot_is_none (slots r) of
        Some sid \<Rightarrow> (Inr sid, r\<lparr>slots := (slots r)[sid := snd (slot_replace (slots r ! sid) state)]\<rparr>)
      | None \<Rightarrow> (Inl Full, r))"

definition registry_get :: "session_registry \<Rightarrow> session_id \<Rightarrow> session_state option" where
  "registry_get r sid = look slot_as_ref (slots r) sid"

text \<open>\<open>get_mut\<close>: the update to run on the borrowed session, if there is one.\<close>

definition registry_get_mut ::
  "session_id \<Rightarrow> (session_state \<Rightarrow> session_state) \<Rightarrow> session_registry \<Rightarrow> session_registry" where
  "registry_get_mut sid f r =
     (if sid < length (slots r) then r\<lparr>slots := (slots r)[sid := slot_as_mut f (slots r ! sid)]\<rparr>
      else r)"

definition stored_publish_of :: "session_registry \<Rightarrow> stored_publish_handle \<Rightarrow> stored_publish option" where
  "stored_publish_of r h =
     (case look slot_as_ref (stored_publishes r) (h_slot h) of
        None \<Rightarrow> None
      | Some stored \<Rightarrow> if generation stored = h_generation h then Some stored else None)"

definition stored_publish_mut ::
  "stored_publish_handle \<Rightarrow> (stored_publish \<Rightarrow> stored_publish) \<Rightarrow> session_registry \<Rightarrow> session_registry" where
  "stored_publish_mut h f r =
     (if stored_publish_of r h = None then r
      else r\<lparr>stored_publishes :=
        (stored_publishes r)[h_slot h := slot_as_mut f (stored_publishes r ! h_slot h)]\<rparr>)"

definition store_publish_ref ::
  "string \<Rightarrow> bytes \<Rightarrow> bool \<Rightarrow> session_registry
     \<Rightarrow> (registry_error + stored_publish_handle) \<times> session_registry" where
  "store_publish_ref topic payload retain r =
     (case position slot_is_none (stored_publishes r) of
        None \<Rightarrow> (Inl PublishStoreFull, r)
      | Some i \<Rightarrow>
          (let g = next_publish_generation r;
               g' = (if g + 1 = 0 then 1 else g + 1);
               r' = r\<lparr>next_publish_generation := g'\<rparr>
           in case from_slice 128 topic of
                None \<Rightarrow> (Inl PublishTopicTooLong, r')
              | Some topic' \<Rightarrow>
                  (case from_slice 512 payload of
                     None \<Rightarrow> (Inl PublishPayloadTooLarge, r')
                   | Some payload' \<Rightarrow>
                       (let stored = \<lparr>sp_topic = topic', sp_payload = payload', sp_retain = retain,
                              generation = g, refcount = 1\<rparr>
                        in (Inr \<lparr>h_slot = i, h_generation = g\<rparr>,
                            r'\<lparr>stored_publishes := (stored_publishes r)
                                 [i := snd (slot_replace (stored_publishes r ! i) stored)]\<rparr>)))))"

definition acquire_stored_publish ::
  "stored_publish_handle \<Rightarrow> session_registry \<Rightarrow> (registry_error + unit) \<times> session_registry" where
  "acquire_stored_publish h r =
     (case stored_publish_of r h of
        None \<Rightarrow> (Inl PublishHandleInvalid, r)
      | Some stored \<Rightarrow>
          (case checked_add (refcount stored) 1 of
             None \<Rightarrow> (Inl PublishRefcountOverflow, r)
           | Some c \<Rightarrow> (Inr (), stored_publish_mut h (\<lambda>s. s\<lparr>refcount := c\<rparr>) r)))"

definition release_stored_publish :: "stored_publish_handle \<Rightarrow> session_registry \<Rightarrow> session_registry" where
  "release_stored_publish h r =
     (case stored_publish_of r h of
        None \<Rightarrow> r
      | Some stored \<Rightarrow>
          (let c = saturating_sub (refcount stored) 1;
               r' = stored_publish_mut h (\<lambda>s. s\<lparr>refcount := c\<rparr>) r
           in if c = 0
              then r'\<lparr>stored_publishes := (stored_publishes r')
                     [h_slot h := snd (slot_take (stored_publishes r' ! h_slot h))]\<rparr>
              else r'))"

definition registry_remove ::
  "session_id \<Rightarrow> session_registry \<Rightarrow> session_state option \<times> session_registry" where
  "registry_remove sid r =
     (if sid < length (slots r)
      then (case slot_take (slots r ! sid) of
              (None, _) \<Rightarrow> (None, r)
            | (Some removed, s') \<Rightarrow>
                (Some removed,
                 fold (\<lambda>e. release_stored_publish (inf_publish e)) (inflight removed)
                   (r\<lparr>slots := (slots r)[sid := s']\<rparr>)))
      else (None, r))"

definition registry_iter :: "session_registry \<Rightarrow> (session_id \<times> session_state) list" where
  "registry_iter r =
     List.map_filter (\<lambda>(sid, s). map_option (Pair sid) (slot_as_ref s)) (enumerate 0 (slots r))"

definition find_by_client_id :: "string \<Rightarrow> session_registry \<Rightarrow> session_id option" where
  "find_by_client_id cid r =
     map_option fst (List.find (\<lambda>(_, state). sess_client_id state = cid) (registry_iter r))"

definition registry_len :: "session_registry \<Rightarrow> nat" where
  "registry_len r = length (registry_iter r)"

definition registry_is_full :: "session_registry \<Rightarrow> bool" where
  "registry_is_full r = (registry_len r = length (slots r))"

definition record_published_lwt ::
  "lwt_message \<Rightarrow> session_registry \<Rightarrow> (registry_error + unit) \<times> session_registry" where
  "record_published_lwt l r =
     (case vec_push (length (slots r)) l (published_lwts r) of
        None \<Rightarrow> (Inl LwtQueueFull, r)
      | Some q \<Rightarrow> (Inr (), r\<lparr>published_lwts := q\<rparr>))"

definition take_published_lwt :: "session_registry \<Rightarrow> lwt_message option \<times> session_registry" where
  "take_published_lwt r =
     (case published_lwts r of
        [] \<Rightarrow> (None, r)
      | l # q \<Rightarrow> (Some l, r\<lparr>published_lwts := q\<rparr>))"

section \<open>Reference-counted pools\<close>

text \<open>
  \<open>refs_exact cnt M\<close>: the handles with a count are those in use, and the count of each is
  its number of uses in the multiset \<open>M\<close>.
\<close>

definition refs_exact :: "('h \<Rightarrow> nat option) \<Rightarrow> 'h multiset \<Rightarrow> bool" where
  "refs_exact cnt M \<longleftrightarrow>
     (\<forall>h. case cnt h of None \<Rightarrow> h \<notin># M | Some c \<Rightarrow> c = count M h \<and> 0 < c)"

lemma refs_exactD:
  assumes "refs_exact cnt M"
  shows "h \<in># M \<Longrightarrow> cnt h = Some (count M h)" "cnt h = Some c \<Longrightarrow> c = count M h \<and> 0 < c"
    "cnt h = None \<Longrightarrow> h \<notin># M"
  using assms unfolding refs_exact_def by (auto split: option.splits dest: spec [of _ h])

lemma refs_exact_iff: "refs_exact cnt M \<longleftrightarrow> (\<forall>h. cnt h = (if h \<in># M then Some (count M h) else None))"
  unfolding refs_exact_def by (auto split: option.splits simp: count_greater_zero_iff)
     (metis count_greater_zero_iff option.distinct(1) option.inject option.exhaust)+

text \<open>
  What a pool of counted entries promises: a reference given back lowers the count by one
  and the last one frees the entry; one more reference raises it; a new entry has a
  handle that was not live and one reference. The users of the pool hold
  references (\<open>users\<close>), which these operations leave alone.
\<close>

locale refcount_pool =
  fixes count_of :: "'r \<Rightarrow> 'h \<Rightarrow> nat option"
    and users :: "'r \<Rightarrow> 'h multiset"
    and acquire :: "'h \<Rightarrow> 'r \<Rightarrow> 'r option"
    and release :: "'h \<Rightarrow> 'r \<Rightarrow> 'r"
    and store :: "'v \<Rightarrow> 'r \<Rightarrow> ('h \<times> 'r) option"
    and ok :: "'r \<Rightarrow> bool"
  assumes release_count: "count_of r h = Some c \<Longrightarrow>
      count_of (release h r) = (count_of r)(h := if c \<le> 1 then None else Some (c - 1))"
    and release_users: "users (release h r) = users r"
    and acquire_count: "acquire h r = Some r' \<Longrightarrow>
      \<exists>c. count_of r h = Some c \<and> count_of r' = (count_of r)(h \<mapsto> c + 1)"
    and acquire_users: "acquire h r = Some r' \<Longrightarrow> users r' = users r"
    and store_count: "ok r \<Longrightarrow> store v r = Some (h, r') \<Longrightarrow>
      count_of r h = None \<and> count_of r' = (count_of r)(h \<mapsto> 1)"
    and store_users: "store v r = Some (h, r') \<Longrightarrow> users r' = users r"
begin

lemma release_exact:
  assumes "refs_exact (count_of r) (users r + add_mset h M)"
  shows "refs_exact (count_of (release h r)) (users (release h r) + M)"
proof -
  have "count_of r h = Some (Suc (count (users r + M) h))"
    using refs_exactD(1) [OF assms, of h] by simp
  then show ?thesis
    using assms by (auto simp: refs_exact_iff release_count release_users count_eq_zero_iff)
qed

lemma release_all_exact:
  "refs_exact (count_of r) (users r + mset hs + M) \<Longrightarrow>
   refs_exact (count_of (fold release hs r)) (users (fold release hs r) + M)"
proof (induction hs arbitrary: r)
  case (Cons h hs)
  then show ?case
    using release_exact [of r h "mset hs + M"] Cons.IH [of "release h r"]
    by (simp add: ac_simps)
qed simp

lemma acquire_exact:
  assumes "acquire h r = Some r'" "refs_exact (count_of r) (users r + M)"
  shows "refs_exact (count_of r') (users r' + add_mset h M)"
proof -
  obtain c where c: "count_of r h = Some c" "count_of r' = (count_of r)(h \<mapsto> c + 1)"
    using acquire_count [OF assms(1)] by blast
  then have "c = count (users r + M) h" using refs_exactD(2) [OF assms(2) c(1)] by simp
  then show ?thesis
    using assms(2) c by (auto simp: refs_exact_iff acquire_users [OF assms(1)])
qed

lemma store_exact:
  assumes "store v r = Some (h, r')" "ok r" "refs_exact (count_of r) (users r + M)"
  shows "refs_exact (count_of r') (users r' + add_mset h M)"
proof -
  have "count_of r h = None" "count_of r' = (count_of r)(h \<mapsto> 1)"
    using store_count [OF assms(2,1)] by auto
  moreover have "h \<notin># users r + M" using refs_exactD(3) [OF assms(3)] calculation(1) by blast
  ultimately show ?thesis
    using assms(3) by (auto simp: refs_exact_iff store_users [OF assms(1)] count_eq_zero_iff)
qed

end

section \<open>The sessions as a map\<close>

definition slot_handles :: "session_state slot \<Rightarrow> stored_publish_handle list" where
  "slot_handles s = (case slot_as_ref s of None \<Rightarrow> [] | Some st \<Rightarrow> map inf_publish (inflight st))"

definition handle_refs :: "session_registry \<Rightarrow> stored_publish_handle multiset" where
  "handle_refs r = mset (concat (map slot_handles (slots r)))"

definition pool_count :: "session_registry \<Rightarrow> stored_publish_handle \<Rightarrow> nat option" where
  "pool_count r h = map_option (\<lambda>sp. unat (refcount sp)) (stored_publish_of r h)"

definition slots_ok :: "session_registry \<Rightarrow> bool" where
  "slots_ok r \<longleftrightarrow> (\<forall>s\<in>set (slots r). slot_inv s) \<and> (\<forall>s\<in>set (stored_publishes r). slot_inv s)"

named_theorems registry_simps \<open>how the registry's operations change its parts\<close>

lemma mset_concat_update:
  "i < length xs \<Longrightarrow>
   mset (concat (map f (xs[i := y]))) + mset (f (xs ! i)) = mset (concat (map f xs)) + mset (f y)"
proof (induction xs arbitrary: i)
  case (Cons x xs)
  show ?case
  proof (cases i)
    case (Suc j)
    then show ?thesis using Cons.IH [of j] Cons.prems by (simp add: ac_simps)
  qed (simp add: ac_simps)
qed simp

lemma get_mut_get [registry_simps]:
  "registry_get (registry_get_mut i f r) = (registry_get r)(i := map_option f (registry_get r i))"
  by (auto simp: registry_get_def registry_get_mut_def slot.look_modify fun_eq_iff)
     (auto simp: look_def)

lemma get_mut_frame [registry_simps]:
  "length (slots (registry_get_mut i f r)) = length (slots r)"
  "published_lwts (registry_get_mut i f r) = published_lwts r"
  "stored_publishes (registry_get_mut i f r) = stored_publishes r"
  "next_publish_generation (registry_get_mut i f r) = next_publish_generation r"
  "stored_publish_of (registry_get_mut i f r) = stored_publish_of r"
  "pool_count (registry_get_mut i f r) = pool_count r"
  by (auto simp: registry_get_mut_def stored_publish_of_def pool_count_def fun_eq_iff)

lemma get_mut_slots_ok [registry_simps]: "slots_ok r \<Longrightarrow> slots_ok (registry_get_mut i f r)"
  using slot.invar_array_modify [of "slots r" i f]
  by (auto simp: slots_ok_def registry_get_mut_def)

lemma as_mut_vacant: "slot_as_ref s = None \<Longrightarrow> slot_as_mut f s = s"
  by (auto simp: slot_as_ref_def slot_as_mut_def split: if_splits maybe_uninit.splits)

lemma get_mut_None: "registry_get r i = None \<Longrightarrow> registry_get_mut i f r = r"
  by (auto simp: registry_get_mut_def registry_get_def look_def as_mut_vacant split: if_splits)

lemma get_mut_refs:
  assumes "registry_get r i = Some st"
  shows "handle_refs (registry_get_mut i f r) + mset (map inf_publish (inflight st))
       = handle_refs r + mset (map inf_publish (inflight (f st)))"
proof -
  have "i < length (slots r)" "slot_as_ref (slots r ! i) = Some st"
    using assms by (auto simp: registry_get_def look_def split: if_splits)
  then show ?thesis
    using mset_concat_update [of i "slots r" slot_handles "slot_as_mut f (slots r ! i)"]
    by (simp add: handle_refs_def registry_get_mut_def slot_handles_def)
qed

lemma get_mut_same_refs [registry_simps]:
  assumes "\<And>st. registry_get r i = Some st \<Longrightarrow> inflight (f st) = inflight st"
  shows "handle_refs (registry_get_mut i f r) = handle_refs r"
  using assms get_mut_refs [of r i _ f] by (cases "registry_get r i") (auto simp: get_mut_None)

section \<open>The pool of shared publishes\<close>

lemma pool_mut [registry_simps]:
  assumes "\<And>sp. generation (f sp) = generation sp"
  shows "stored_publish_of (stored_publish_mut h f r)
       = (stored_publish_of r)(h := map_option f (stored_publish_of r h))"
proof (cases "stored_publish_of r h")
  case None
  then show ?thesis by (auto simp: stored_publish_mut_def fun_eq_iff)
next
  case (Some sp)
  then have at: "look slot_as_ref (stored_publishes r) (h_slot h) = Some sp" "generation sp = h_generation h"
    by (auto simp: stored_publish_of_def split: option.splits if_splits)
  show ?thesis
  proof (rule ext)
    fix h'
    show "stored_publish_of (stored_publish_mut h f r) h'
        = ((stored_publish_of r)(h := map_option f (stored_publish_of r h))) h'"
      using Some at assms
      by (cases "h_slot h' = h_slot h")
        (auto simp: stored_publish_mut_def stored_publish_of_def slot.look_modify)
  qed
qed

lemma pool_mut_frame [registry_simps]:
  "slots (stored_publish_mut h f r) = slots r"
  "published_lwts (stored_publish_mut h f r) = published_lwts r"
  "length (stored_publishes (stored_publish_mut h f r)) = length (stored_publishes r)"
  by (auto simp: stored_publish_mut_def)

lemma pool_mut_slots_ok: "slots_ok r \<Longrightarrow> slots_ok (stored_publish_mut h f r)"
  using slot.invar_array_modify [of "stored_publishes r" "h_slot h" f]
  by (auto simp: slots_ok_def stored_publish_mut_def)

lemma release_frame [registry_simps]:
  "slots (release_stored_publish h r) = slots r"
  "published_lwts (release_stored_publish h r) = published_lwts r"
  "length (stored_publishes (release_stored_publish h r)) = length (stored_publishes r)"
  "registry_get (release_stored_publish h r) = registry_get r"
  "handle_refs (release_stored_publish h r) = handle_refs r"
  by (auto simp: release_stored_publish_def Let_def pool_mut_frame registry_get_def handle_refs_def
      split: option.splits)

lemma release_slots_ok [registry_simps]: "slots_ok r \<Longrightarrow> slots_ok (release_stored_publish h r)"
proof -
  have clear: "slots_ok q \<Longrightarrow> slots_ok (q\<lparr>stored_publishes :=
      (stored_publishes q)[h_slot h := snd (slot_take (stored_publishes q ! h_slot h))]\<rparr>)" for q
    using slot.invar_array_clear [of "stored_publishes q" "h_slot h"] by (simp add: slots_ok_def)
  assume "slots_ok r"
  then show ?thesis
    by (simp add: release_stored_publish_def Let_def pool_mut_slots_ok clear split: option.split)
qed

lemma release_stored:
  assumes "stored_publish_of r h = Some sp"
  shows "stored_publish_of (release_stored_publish h r) = (stored_publish_of r)
    (h := if unat (refcount sp) \<le> 1 then None else Some (sp\<lparr>refcount := refcount sp - 1\<rparr>))"
proof -
  define r' where "r' = stored_publish_mut h (\<lambda>s. s\<lparr>refcount := saturating_sub (refcount sp) 1\<rparr>) r"
  have r': "stored_publish_of r' = (stored_publish_of r)
      (h := Some (sp\<lparr>refcount := saturating_sub (refcount sp) 1\<rparr>))"
    using assms by (simp add: r'_def pool_mut)
  have c: "saturating_sub (refcount sp) 1 = 0 \<longleftrightarrow> unat (refcount sp) \<le> 1"
    by (simp add: word_unat_eq_iff unat_saturating_sub)
  have clear: "stored_publish_of (r'\<lparr>stored_publishes := (stored_publishes r')
      [h_slot h := snd (slot_take (stored_publishes r' ! h_slot h))]\<rparr>) = (stored_publish_of r')(h := None)"
    (is "?L = ?R")
  proof (rule ext)
    fix h'
    have "stored_publish_of r' h \<noteq> None" by (simp add: r')
    then show "?L h' = ?R h'"
      by (cases "h_slot h' = h_slot h")
        (auto simp: stored_publish_of_def slot.look_clear split: option.splits if_splits)
  qed
  show ?thesis
  proof (cases "unat (refcount sp) \<le> 1")
    case True
    then show ?thesis
      using assms c clear r' by (simp add: release_stored_publish_def r'_def Let_def)
  next
    case False
    then have "saturating_sub (refcount sp) 1 = refcount sp - 1"
      by (simp add: saturating_sub_def word_le_nat_alt)
    then show ?thesis
      using False assms c r' by (simp add: release_stored_publish_def r'_def Let_def)
  qed
qed

lemma acquire_okD:
  assumes "acquire_stored_publish h r = (Inr u, r')"
  obtains sp c where "stored_publish_of r h = Some sp" "unat c = unat (refcount sp) + 1"
    "r' = stored_publish_mut h (\<lambda>s. s\<lparr>refcount := c\<rparr>) r"
    "stored_publish_of r' = (stored_publish_of r)(h \<mapsto> sp\<lparr>refcount := c\<rparr>)"
  using assms that checked_add_SomeD
  by (fastforce simp: acquire_stored_publish_def pool_mut split: option.splits)

lemma acquire_frame [registry_simps]:
  "slots (snd (acquire_stored_publish h r)) = slots r"
  "published_lwts (snd (acquire_stored_publish h r)) = published_lwts r"
  "length (stored_publishes (snd (acquire_stored_publish h r))) = length (stored_publishes r)"
  "registry_get (snd (acquire_stored_publish h r)) = registry_get r"
  "handle_refs (snd (acquire_stored_publish h r)) = handle_refs r"
  by (auto simp: acquire_stored_publish_def pool_mut_frame registry_get_def handle_refs_def
      split: option.splits)

lemma acquire_slots_ok [registry_simps]: "slots_ok r \<Longrightarrow> slots_ok (snd (acquire_stored_publish h r))"
  by (simp add: acquire_stored_publish_def pool_mut_slots_ok split: option.split)

lemma acquire_err: "acquire_stored_publish h r = (Inl e, r') \<Longrightarrow> r' = r"
  by (auto simp: acquire_stored_publish_def split: option.splits)

lemma store_frame [registry_simps]:
  "slots (snd (store_publish_ref t p b r)) = slots r"
  "published_lwts (snd (store_publish_ref t p b r)) = published_lwts r"
  "length (stored_publishes (snd (store_publish_ref t p b r))) = length (stored_publishes r)"
  "registry_get (snd (store_publish_ref t p b r)) = registry_get r"
  "handle_refs (snd (store_publish_ref t p b r)) = handle_refs r"
  by (auto simp: store_publish_ref_def Let_def registry_get_def handle_refs_def split: option.splits)

lemma store_slots_ok [registry_simps]: "slots_ok r \<Longrightarrow> slots_ok (snd (store_publish_ref t p b r))"
  using slot.invar_array_put [of "stored_publishes r"]
  by (auto simp: store_publish_ref_def Let_def slots_ok_def split: option.splits)

lemma store_err:
  "store_publish_ref t p b r = (Inl e, r') \<Longrightarrow>
   stored_publishes r' = stored_publishes r \<and> stored_publish_of r' = stored_publish_of r"
  by (auto simp: store_publish_ref_def Let_def stored_publish_of_def split: option.splits if_splits)

lemma store_okD:
  assumes "store_publish_ref t p b r = (Inr h, r')" "slots_ok r"
  shows "stored_publish_of r h = None"
    "stored_publish_of r' = (stored_publish_of r)(h \<mapsto>
       \<lparr>sp_topic = t, sp_payload = p, sp_retain = b, generation = h_generation h, refcount = 1\<rparr>)"
    "length t \<le> 128" "length p \<le> 512"
proof -
  obtain i where i: "position slot_is_none (stored_publishes r) = Some i" "h = \<lparr>h_slot = i, h_generation = next_publish_generation r\<rparr>"
    "stored_publishes r' = (stored_publishes r)[i := snd (slot_replace (stored_publishes r ! i)
      \<lparr>sp_topic = t, sp_payload = p, sp_retain = b, generation = next_publish_generation r, refcount = 1\<rparr>)]"
    and len: "length t \<le> 128" "length p \<le> 512"
    using assms(1) by (auto simp: store_publish_ref_def Let_def split: option.splits)
  have v: "i < length (stored_publishes r)" "look slot_as_ref (stored_publishes r) i = None"
    using slot.first_vacant [of "stored_publishes r" i] assms(2) i(1) by (auto simp: slots_ok_def)
  show "stored_publish_of r h = None" by (simp add: stored_publish_of_def i(2) v)
  show "stored_publish_of r' = (stored_publish_of r)(h \<mapsto>
       \<lparr>sp_topic = t, sp_payload = p, sp_retain = b, generation = h_generation h, refcount = 1\<rparr>)"
  proof (rule ext)
    fix h'
    show "stored_publish_of r' h' = ((stored_publish_of r)(h \<mapsto> \<lparr>sp_topic = t, sp_payload = p,
        sp_retain = b, generation = h_generation h, refcount = 1\<rparr>)) h'"
      using v by (cases h'; cases "h_slot h' = i")
        (auto simp: stored_publish_of_def i(2,3) slot.look_put)
  qed
  show "length t \<le> 128" "length p \<le> 512" by (rule len)+
qed

section \<open>Exact reference counts\<close>

definition pool_acquire :: "stored_publish_handle \<Rightarrow> session_registry \<Rightarrow> session_registry option" where
  "pool_acquire h r = (case acquire_stored_publish h r of (Inr _, r') \<Rightarrow> Some r' | (Inl _, _) \<Rightarrow> None)"

definition pool_store ::
  "string \<times> bytes \<times> bool \<Rightarrow> session_registry \<Rightarrow> (stored_publish_handle \<times> session_registry) option" where
  "pool_store v r =
     (case store_publish_ref (fst v) (fst (snd v)) (snd (snd v)) r of
        (Inr h, r') \<Rightarrow> Some (h, r') | (Inl _, _) \<Rightarrow> None)"

lemma pool_acquire_SomeD: "pool_acquire h r = Some r' \<Longrightarrow> acquire_stored_publish h r = (Inr (), r')"
  by (auto simp: pool_acquire_def split: prod.splits sum.splits)

lemma pool_store_SomeD:
  "pool_store v r = Some (h, r') \<Longrightarrow> store_publish_ref (fst v) (fst (snd v)) (snd (snd v)) r = (Inr h, r')"
  by (auto simp: pool_store_def split: prod.splits sum.splits)

interpretation pool: refcount_pool
  pool_count handle_refs pool_acquire release_stored_publish pool_store slots_ok
proof (unfold_locales, goal_cases)
  case (1 r h c)
  then obtain sp where sp: "stored_publish_of r h = Some sp" "c = unat (refcount sp)"
    by (auto simp: pool_count_def)
  have "unat (refcount sp - 1) = unat (refcount sp) - 1" if "\<not> unat (refcount sp) \<le> 1"
    using that by (simp add: unat_sub word_le_nat_alt)
  then show ?case
    using sp by (auto simp: pool_count_def release_stored fun_eq_iff)
next
  case (3 h r r')
  obtain sp c where "stored_publish_of r h = Some sp" "unat c = unat (refcount sp) + 1"
    "stored_publish_of r' = (stored_publish_of r)(h \<mapsto> sp\<lparr>refcount := c\<rparr>)"
    using acquire_okD [OF pool_acquire_SomeD [OF 3]] by metis
  then show ?case by (auto simp: pool_count_def fun_eq_iff)
next
  case (4 h r r')
  then show ?case using acquire_frame(5) [of h r] by (simp add: pool_acquire_SomeD)
next
  case (5 r v h r')
  then show ?case using store_okD [OF pool_store_SomeD [OF 5(2)] 5(1)]
    by (auto simp: pool_count_def fun_eq_iff)
next
  case (6 v r h r')
  then show ?case using store_frame(5) [of "fst v" "fst (snd v)" "snd (snd v)" r]
    by (simp add: pool_store_SomeD)
qed (simp add: release_frame)

text \<open>
  \<open>refs_ok M r\<close>: the counts are exact when besides the in-flight entries of \<open>r\<close> the running
  operation holds the references \<open>M\<close>.
\<close>

definition refs_ok :: "stored_publish_handle multiset \<Rightarrow> session_registry \<Rightarrow> bool" where
  "refs_ok M r \<longleftrightarrow> refs_exact (pool_count r) (handle_refs r + M)"

lemma refs_ok_release: "refs_ok (add_mset h M) r \<Longrightarrow> refs_ok M (release_stored_publish h r)"
  unfolding refs_ok_def by (rule pool.release_exact)

lemma refs_ok_acquire:
  "acquire_stored_publish h r = (Inr u, r') \<Longrightarrow> refs_ok M r \<Longrightarrow> refs_ok (add_mset h M) r'"
  unfolding refs_ok_def by (rule pool.acquire_exact) (simp_all add: pool_acquire_def)

lemma refs_ok_store:
  "store_publish_ref t p b r = (Inr h, r') \<Longrightarrow> slots_ok r \<Longrightarrow> refs_ok M r \<Longrightarrow> refs_ok (add_mset h M) r'"
  unfolding refs_ok_def
  using pool.store_exact [of "(t, p, b)" r h r' M] by (simp add: pool_store_def)

lemma refs_ok_store_err:
  assumes "store_publish_ref t p b r = (Inl e, r')" "refs_ok M r"
  shows "refs_ok M r'"
  using assms store_err [OF assms(1)] store_frame(5) [of t p b r]
  by (simp add: refs_ok_def pool_count_def [abs_def])

lemma refs_ok_get_mut:
  assumes "\<And>st. registry_get r i = Some st \<Longrightarrow> inflight (f st) = inflight st"
  shows "refs_ok M (registry_get_mut i f r) = refs_ok M r"
  using get_mut_same_refs [of r i f, OF assms] by (simp add: refs_ok_def get_mut_frame)

lemma refs_ok_map_entries:
  assumes "\<And>st. registry_get r i = Some st \<Longrightarrow>
      map inf_publish (inflight (f st)) = map inf_publish (inflight st)"
  shows "refs_ok M (registry_get_mut i f r) = refs_ok M r"
proof (cases "registry_get r i")
  case (Some st)
  then have "handle_refs (registry_get_mut i f r) = handle_refs r"
    using get_mut_refs [OF Some, of f] assms [OF Some] by simp
  then show ?thesis by (simp add: refs_ok_def get_mut_frame)
qed (simp add: get_mut_None)

lemma refs_ok_add_entry:
  assumes "registry_get r i = Some st" "inflight (f st) = inflight st @ [e]"
  shows "refs_ok M (registry_get_mut i f r) = refs_ok (add_mset (inf_publish e) M) r"
proof -
  have "handle_refs (registry_get_mut i f r) = add_mset (inf_publish e) (handle_refs r)"
    using get_mut_refs [OF assms(1), of f] assms(2) by simp
  then show ?thesis by (simp add: refs_ok_def get_mut_frame)
qed

lemma refs_ok_drop_entry:
  assumes "registry_get r i = Some st" "inflight st = ys @ e # zs" "inflight (f st) = ys @ zs"
  shows "refs_ok M r = refs_ok (add_mset (inf_publish e) M) (registry_get_mut i f r)"
proof -
  have "handle_refs r = add_mset (inf_publish e) (handle_refs (registry_get_mut i f r))"
    using get_mut_refs [OF assms(1), of f] assms(2,3) by simp
  then show ?thesis by (simp add: refs_ok_def get_mut_frame)
qed

lemma refs_ok_live:
  assumes "refs_ok {#} r" "registry_get r i = Some st" "e \<in> set (inflight st)"
  shows "\<exists>sp. stored_publish_of r (inf_publish e) = Some sp"
proof -
  have "i < length (slots r)" "slot_as_ref (slots r ! i) = Some st"
    using assms(2) by (auto simp: registry_get_def look_def split: if_splits)
  then have "inf_publish e \<in> set (slot_handles (slots r ! i))" "slots r ! i \<in> set (slots r)"
    using assms(3) by (auto simp: slot_handles_def)
  then have "inf_publish e \<in># handle_refs r"
    by (auto simp: handle_refs_def)
  then have "pool_count r (inf_publish e) \<noteq> None"
    using assms(1) refs_exactD(1) by (fastforce simp: refs_ok_def)
  then show ?thesis by (auto simp: pool_count_def)
qed

section \<open>Insertion, removal and iteration\<close>

lemma insert_okD:
  assumes "registry_insert st r = (Inr i, r')" "slots_ok r"
  shows "registry_get r i = None" "registry_get r' = (registry_get r)(i \<mapsto> st)" "i < length (slots r)"
    "slots_ok r'" "length (slots r') = length (slots r)" "published_lwts r' = published_lwts r"
    "stored_publishes r' = stored_publishes r" "stored_publish_of r' = stored_publish_of r"
    "handle_refs r' = handle_refs r + mset (map inf_publish (inflight st))"
proof -
  have r': "position slot_is_none (slots r) = Some i"
      "r' = r\<lparr>slots := (slots r)[i := snd (slot_replace (slots r ! i) st)]\<rparr>"
    using assms(1) by (auto simp: registry_insert_def split: option.splits)
  have v: "i < length (slots r)" "look slot_as_ref (slots r) i = None"
    using slot.first_vacant [of "slots r" i] assms(2) r'(1) by (auto simp: slots_ok_def)
  then show "registry_get r i = None" "registry_get r' = (registry_get r)(i \<mapsto> st)"
      "i < length (slots r)"
    by (auto simp: r'(2) registry_get_def [abs_def] slot.look_put)
  show "slots_ok r'"
    using assms(2) slot.invar_array_put [of "slots r" i st] by (simp add: slots_ok_def r'(2))
  show "handle_refs r' = handle_refs r + mset (map inf_publish (inflight st))"
    using mset_concat_update [of i "slots r" slot_handles "snd (slot_replace (slots r ! i) st)"] v
    by (simp add: handle_refs_def r'(2) slot_handles_def look_def)
qed (use assms in \<open>auto simp: registry_insert_def stored_publish_of_def fun_eq_iff split: option.splits\<close>)

lemma fold_release_frame:
  "slots (fold (\<lambda>e. release_stored_publish (inf_publish e)) es r) = slots r"
  "published_lwts (fold (\<lambda>e. release_stored_publish (inf_publish e)) es r) = published_lwts r"
  "length (stored_publishes (fold (\<lambda>e. release_stored_publish (inf_publish e)) es r))
     = length (stored_publishes r)"
  by (induction es arbitrary: r) (simp_all add: release_frame)

lemma fold_release_slots_ok:
  "slots_ok r \<Longrightarrow> slots_ok (fold (\<lambda>e. release_stored_publish (inf_publish e)) es r)"
  by (induction es arbitrary: r) (simp_all add: release_slots_ok)

lemma release_dead: "stored_publish_of r h = None \<Longrightarrow> release_stored_publish h r = r"
  by (simp add: release_stored_publish_def)

lemma release_stored_sub:
  "stored_publish_of (release_stored_publish h r) k = Some sp' \<Longrightarrow>
   \<exists>sp. stored_publish_of r k = Some sp \<and> sp_topic sp' = sp_topic sp \<and> sp_payload sp' = sp_payload sp
     \<and> sp_retain sp' = sp_retain sp"
  by (cases "stored_publish_of r h")
    (auto simp: release_stored release_dead fun_upd_apply split: if_splits)

lemma fold_release_stored_sub:
  "stored_publish_of (fold (\<lambda>e. release_stored_publish (inf_publish e)) es r) k = Some sp' \<Longrightarrow>
   \<exists>sp. stored_publish_of r k = Some sp \<and> sp_topic sp' = sp_topic sp \<and> sp_payload sp' = sp_payload sp
     \<and> sp_retain sp' = sp_retain sp"
proof (induction es arbitrary: r)
  case (Cons e es)
  then show ?case using release_stored_sub by fastforce
qed simp

lemma remove_result: "fst (registry_remove i r) = registry_get r i"
  by (auto simp: registry_remove_def registry_get_def look_def slot_take_def slot_as_ref_def
      split: option.splits)

lemma remove_None: "registry_get r i = None \<Longrightarrow> registry_remove i r = (None, r)"
  by (auto simp: registry_remove_def registry_get_def look_def slot_take_def slot_as_ref_def
      split: if_splits option.splits)

lemma remove_Some:
  assumes "registry_get r i = Some st"
  obtains q where
    "registry_remove i r = (Some st, fold (\<lambda>e. release_stored_publish (inf_publish e)) (inflight st) q)"
    "registry_get q = (registry_get r)(i := None)" "slots_ok r \<Longrightarrow> slots_ok q"
    "length (slots q) = length (slots r)" "published_lwts q = published_lwts r"
    "stored_publishes q = stored_publishes r" "pool_count q = pool_count r"
    "stored_publish_of q = stored_publish_of r"
    "handle_refs r = handle_refs q + mset (map inf_publish (inflight st))"
proof -
  have i: "i < length (slots r)" "slot_as_ref (slots r ! i) = Some st"
    using assms by (auto simp: registry_get_def look_def split: if_splits)
  define q where "q = r\<lparr>slots := (slots r)[i := snd (slot_take (slots r ! i))]\<rparr>"
  have "slot_take (slots r ! i) = (Some st, snd (slot_take (slots r ! i)))"
    using i(2) slot.clear_old [of "slots r ! i"] by (simp add: prod_eq_iff)
  then have "registry_remove i r
      = (Some st, fold (\<lambda>e. release_stored_publish (inf_publish e)) (inflight st) q)"
    using i(1) by (auto simp: registry_remove_def q_def split: prod.split)
  moreover have "registry_get q = (registry_get r)(i := None)"
    by (simp add: q_def registry_get_def [abs_def] slot.look_clear)
  moreover have "slots_ok r \<Longrightarrow> slots_ok q"
    using slot.invar_array_clear [of "slots r" i] by (simp add: slots_ok_def q_def)
  moreover have "handle_refs r = handle_refs q + mset (map inf_publish (inflight st))"
    using mset_concat_update [of i "slots r" slot_handles "snd (slot_take (slots r ! i))"] i
    by (simp add: handle_refs_def q_def slot_handles_def)
  moreover have "stored_publish_of q = stored_publish_of r"
    by (simp add: q_def stored_publish_of_def fun_eq_iff)
  then have "stored_publish_of q = stored_publish_of r" "pool_count q = pool_count r"
    by (simp_all add: pool_count_def fun_eq_iff)
  ultimately show ?thesis
    by (intro that [of q]) (simp_all add: q_def)
qed

lemma refs_ok_remove: "refs_ok M r \<Longrightarrow> refs_ok M (snd (registry_remove i r))"
proof (cases "registry_get r i")
  case (Some st)
  obtain q where q: "registry_remove i r
      = (Some st, fold (\<lambda>e. release_stored_publish (inf_publish e)) (inflight st) q)"
    "pool_count q = pool_count r" "handle_refs r = handle_refs q + mset (map inf_publish (inflight st))"
    by (rule remove_Some [OF Some])
  assume "refs_ok M r"
  then have "refs_exact (pool_count q) (handle_refs q + mset (map inf_publish (inflight st)) + M)"
    by (simp add: refs_ok_def q)
  then show ?thesis
    using pool.release_all_exact [of q "map inf_publish (inflight st)" M]
    by (simp add: refs_ok_def q fold_map comp_def)
qed (simp add: remove_None)

lemma remove_get [registry_simps]: "registry_get (snd (registry_remove i r)) = (registry_get r)(i := None)"
proof (cases "registry_get r i")
  case (Some st)
  obtain q where "registry_remove i r
      = (Some st, fold (\<lambda>e. release_stored_publish (inf_publish e)) (inflight st) q)"
    "registry_get q = (registry_get r)(i := None)"
    by (rule remove_Some [OF Some])
  then show ?thesis using fold_release_frame(1) [of "inflight st" q] by (simp add: registry_get_def fun_eq_iff)
qed (auto simp: remove_None)

lemma remove_frame [registry_simps]:
  "length (slots (snd (registry_remove i r))) = length (slots r)"
  "published_lwts (snd (registry_remove i r)) = published_lwts r"
  "length (stored_publishes (snd (registry_remove i r))) = length (stored_publishes r)"
  "slots_ok r \<Longrightarrow> slots_ok (snd (registry_remove i r))"
  by (cases "registry_get r i"; force elim: remove_Some simp: remove_None fold_release_frame fold_release_slots_ok)+

lemma set_map_filter: "set (List.map_filter f xs) = {y. \<exists>x\<in>set xs. f x = Some y}"
  by (force simp: List.map_filter_def)

lemma iter_iff: "(i, st) \<in> set (registry_iter r) \<longleftrightarrow> registry_get r i = Some st"
  by (auto simp: registry_iter_def set_map_filter registry_get_def look_def in_set_enumerate_eq
      split: if_splits intro!: bexI [of _ "(i, slots r ! i)"])

lemma iter_enumerate:
  "map fst (List.map_filter (\<lambda>(i, s). map_option (Pair i) (f s)) (enumerate n xs))
   = filter (\<lambda>i. f (xs ! (i - n)) \<noteq> None) [n..<n + length xs]"
proof (induction xs arbitrary: n)
  case (Cons x xs)
  have "filter (\<lambda>i. f ((x # xs) ! (i - n)) \<noteq> None) [Suc n..<n + length (x # xs)]
      = filter (\<lambda>i. f (xs ! (i - Suc n)) \<noteq> None) [Suc n..<Suc n + length xs]"
    by (intro filter_cong) (auto simp: nth_Cons')
  then show ?case
    using Cons.IH [of "Suc n"] by (simp add: List.map_filter_simps upt_conv_Cons del: upt_Suc split: option.splits)
qed (simp add: List.map_filter_simps)

lemma iter_ids: "map fst (registry_iter r) = filter (\<lambda>i. registry_get r i \<noteq> None) [0..<length (slots r)]"
  using iter_enumerate [of slot_as_ref 0 "slots r"]
  by (auto simp: registry_iter_def registry_get_def look_def intro!: filter_cong)

lemma iter_distinct: "distinct (map fst (registry_iter r))"
  by (simp add: iter_ids)

lemma len_le: "registry_len r \<le> length (slots r)"
  using arg_cong [OF iter_ids [of r], of length] length_filter_le [of _ "[0..<length (slots r)]"]
  by (simp add: registry_len_def)

lemma length_filter_full: "length (filter P xs) = length xs \<longleftrightarrow> (\<forall>x\<in>set xs. P x)"
  using length_filter_less [of _ xs P] by (auto simp: less_le)

lemma is_full_iff: "registry_is_full r \<longleftrightarrow> (\<forall>i<length (slots r). registry_get r i \<noteq> None)"
proof -
  have "registry_len r = length (filter (\<lambda>i. registry_get r i \<noteq> None) [0..<length (slots r)])"
    using arg_cong [OF iter_ids [of r], of length] by (simp add: registry_len_def)
  then show ?thesis
    using length_filter_full [of "\<lambda>i. registry_get r i \<noteq> None" "[0..<length (slots r)]"]
    by (simp add: registry_is_full_def Ball_def)
qed

lemma insert_not_full:
  assumes "slots_ok r" "\<not> registry_is_full r"
  shows "\<exists>i r'. registry_insert st r = (Inr i, r')"
  using assms slot.no_vacant [of "slots r"]
  by (auto simp: is_full_iff slots_ok_def registry_insert_def registry_get_def split: option.split)

lemma find_by_client_id_SomeD:
  "find_by_client_id cid r = Some i \<Longrightarrow> \<exists>st. registry_get r i = Some st \<and> sess_client_id st = cid"
  by (auto simp: find_by_client_id_def find_Some_iff iter_iff [symmetric])
     (metis nth_mem)

lemma find_by_client_id_NoneD:
  "find_by_client_id cid r = None \<Longrightarrow> registry_get r i = Some st \<Longrightarrow> sess_client_id st \<noteq> cid"
  by (auto simp: find_by_client_id_def find_None_iff iter_iff [symmetric])

lemma handle_refs_iff:
  "h \<in># handle_refs r \<longleftrightarrow> (\<exists>i st. registry_get r i = Some st \<and> h \<in> inf_publish ` set (inflight st))"
proof
  assume "h \<in># handle_refs r"
  then obtain s where "s \<in> set (slots r)" "h \<in> set (slot_handles s)"
    by (auto simp: handle_refs_def)
  then obtain i st where "i < length (slots r)" "slots r ! i = s" "slot_as_ref s = Some st"
      "h \<in> inf_publish ` set (inflight st)"
    by (cases "slot_as_ref s") (auto simp: slot_handles_def in_set_conv_nth [of s])
  then show "\<exists>i st. registry_get r i = Some st \<and> h \<in> inf_publish ` set (inflight st)"
    by (intro exI [of _ i] exI [of _ st]) (simp add: registry_get_def look_def)
next
  assume "\<exists>i st. registry_get r i = Some st \<and> h \<in> inf_publish ` set (inflight st)"
  then obtain i st where "registry_get r i = Some st" "h \<in> inf_publish ` set (inflight st)" by blast
  then have "slots r ! i \<in> set (slots r)" "h \<in> set (slot_handles (slots r ! i))"
    by (auto simp: registry_get_def look_def slot_handles_def split: if_splits)
  then show "h \<in># handle_refs r" by (auto simp: handle_refs_def)
qed

lemma refs_ok_stored:
  "refs_ok {#} r \<Longrightarrow> stored_publish_of r h \<noteq> None \<longleftrightarrow> h \<in># handle_refs r"
  by (auto simp: refs_ok_def refs_exact_iff pool_count_def split: if_splits dest!: spec [of _ h])

section \<open>The registry's invariant\<close>

definition unique_clients :: "(session_id \<Rightarrow> session_state option) \<Rightarrow> bool" where
  "unique_clients m \<longleftrightarrow> (\<forall>i j a b. m i = Some a \<longrightarrow> m j = Some b \<longrightarrow>
     sess_client_id a = sess_client_id b \<longrightarrow> i = j)"

lemma unique_clients_drop: "unique_clients m \<Longrightarrow> unique_clients (m(i := None))"
  by (simp add: unique_clients_def)

lemma unique_clients_new:
  assumes "unique_clients m" "\<And>j st'. m j = Some st' \<Longrightarrow> sess_client_id st' \<noteq> sess_client_id st"
  shows "unique_clients (m(i \<mapsto> st))"
  unfolding unique_clients_def
proof (intro allI impI)
  fix j k a b
  assume "(m(i \<mapsto> st)) j = Some a" "(m(i \<mapsto> st)) k = Some b" "sess_client_id a = sess_client_id b"
  then show "j = k"
    using assms unfolding unique_clients_def by (cases "j = i"; cases "k = i") auto
qed

lemma unique_clients_upd:
  assumes "unique_clients m" "m i = Some a" "sess_client_id b = sess_client_id a"
  shows "unique_clients (m(i \<mapsto> b))"
proof -
  have "sess_client_id st' \<noteq> sess_client_id b" if "(m(i := None)) j = Some st'" for j st'
    using that assms unfolding unique_clients_def by (cases "j = i") auto
  then show ?thesis
    using unique_clients_new [of "m(i := None)" b i] unique_clients_drop [OF assms(1), of i] by simp
qed

definition registry_wf :: "nat \<Rightarrow> session_registry \<Rightarrow> bool" where
  "registry_wf max_subs r \<longleftrightarrow>
     slots_ok r
     \<and> (\<forall>i st. registry_get r i = Some st \<longrightarrow> session_inv max_subs (length (stored_publishes r)) st)
     \<and> unique_clients (registry_get r)
     \<and> (\<forall>h sp. stored_publish_of r h = Some sp \<longrightarrow>
          length (sp_topic sp) \<le> 128 \<and> length (sp_payload sp) \<le> 512)
     \<and> length (published_lwts r) \<le> length (slots r)
     \<and> (\<forall>l\<in>set (published_lwts r). lwt_inv l)"

definition registry_inv :: "nat \<Rightarrow> session_registry \<Rightarrow> bool" where
  "registry_inv max_subs r \<longleftrightarrow> registry_wf max_subs r \<and> refs_ok {#} r"

lemma registry_new_inv: "registry_inv ms (registry_new n k)"
proof -
  have "registry_get (registry_new n k) = Map.empty" "stored_publish_of (registry_new n k) = Map.empty"
    by (simp_all add: registry_get_def [abs_def] stored_publish_of_def [abs_def] registry_new_def slot.look_empty)
  moreover from this have "handle_refs (registry_new n k) = {#}"
    using handle_refs_iff [of _ "registry_new n k"] by (auto intro: multiset_eqI simp: count_eq_zero_iff)
  ultimately show ?thesis
    by (auto simp: registry_inv_def registry_wf_def refs_ok_def refs_exact_def pool_count_def
        slots_ok_def unique_clients_def) (auto simp: registry_new_def)
qed

lemma wf_get_mut:
  assumes "registry_wf ms r"
    and "\<And>st. registry_get r i = Some st \<Longrightarrow>
      session_inv ms (length (stored_publishes r)) (f st) \<and> sess_client_id (f st) = sess_client_id st"
  shows "registry_wf ms (registry_get_mut i f r)"
proof (cases "registry_get r i")
  case (Some st)
  then have "unique_clients ((registry_get r)(i \<mapsto> f st))"
    using assms unique_clients_upd [of "registry_get r" i st "f st"] by (simp add: registry_wf_def)
  then show ?thesis
    using assms Some unfolding registry_wf_def by (simp add: get_mut_get get_mut_frame get_mut_slots_ok)
qed (use assms in \<open>simp add: get_mut_None\<close>)

lemma remove_stored_sub:
  assumes "stored_publish_of (snd (registry_remove i r)) h = Some sp'"
  shows "\<exists>sp. stored_publish_of r h = Some sp \<and> sp_topic sp' = sp_topic sp \<and> sp_payload sp' = sp_payload sp"
proof (cases "registry_get r i")
  case (Some st)
  obtain q where "registry_remove i r
      = (Some st, fold (\<lambda>e. release_stored_publish (inf_publish e)) (inflight st) q)"
    "stored_publish_of q = stored_publish_of r"
    by (rule remove_Some [OF Some])
  then show ?thesis using assms fold_release_stored_sub [of "inflight st" q h sp'] by auto
qed (use assms in \<open>simp add: remove_None\<close>)

lemma wf_remove: "registry_wf ms r \<Longrightarrow> registry_wf ms (snd (registry_remove i r))"
  using remove_stored_sub [of i r] unfolding registry_wf_def remove_get remove_frame
  by (auto simp: remove_frame unique_clients_drop dest!: remove_stored_sub)

lemma remove_inv: "registry_inv ms r \<Longrightarrow> registry_inv ms (snd (registry_remove i r))"
  by (simp add: registry_inv_def wf_remove refs_ok_remove)

lemma insert_inv:
  assumes "registry_inv ms r" "registry_insert st r = (Inr i, r')"
    and "session_inv ms (length (stored_publishes r)) st" "inflight st = []"
    and "\<And>j st'. registry_get r j = Some st' \<Longrightarrow> sess_client_id st' \<noteq> sess_client_id st"
  shows "registry_inv ms r'"
proof -
  have ok: "slots_ok r" using assms(1) by (simp add: registry_inv_def registry_wf_def)
  note ins = insert_okD [OF assms(2) ok]
  have "pool_count r' = pool_count r" by (simp add: pool_count_def fun_eq_iff ins)
  then have "refs_ok {#} r'"
    using assms(1,4) ins(9) by (simp add: refs_ok_def registry_inv_def)
  moreover have "unique_clients (registry_get r')"
    using assms(1,5) unique_clients_new [of "registry_get r" st i] unfolding ins(2)
    by (simp add: registry_inv_def registry_wf_def)
  ultimately show ?thesis
    using assms(1,3) ins unfolding registry_inv_def registry_wf_def by simp
qed

lemma record_lwt_inv:
  assumes "registry_inv ms r" "lwt_inv l"
  shows "registry_inv ms (snd (record_published_lwt l r))"
  using assms
  by (auto simp: record_published_lwt_def registry_inv_def registry_wf_def slots_ok_def refs_ok_def
      registry_get_def [abs_def] stored_publish_of_def [abs_def] pool_count_def [abs_def] handle_refs_def
      split: option.splits)

lemma find_by_client_id_eq:
  assumes "unique_clients (registry_get r)" "registry_get r i = Some st"
  shows "find_by_client_id (sess_client_id st) r = Some i"
proof (cases "find_by_client_id (sess_client_id st) r")
  case None
  then show ?thesis using find_by_client_id_NoneD [OF None assms(2)] by simp
next
  case (Some j)
  then show ?thesis
    using find_by_client_id_SomeD [OF Some] assms unfolding unique_clients_def by auto
qed

lemma inv_slots_ok: "registry_inv ms r \<Longrightarrow> slots_ok r"
  by (simp add: registry_inv_def registry_wf_def)

lemma inv_session:
  "registry_inv ms r \<Longrightarrow> registry_get r i = Some st \<Longrightarrow> session_inv ms (length (stored_publishes r)) st"
  by (simp add: registry_inv_def registry_wf_def)

lemma inv_unique: "registry_inv ms r \<Longrightarrow> unique_clients (registry_get r)"
  by (simp add: registry_inv_def registry_wf_def)

section \<open>Properties\<close>

text \<open>
  C3: removing a session. The registry hands back the session, keeps every other session as
  it is and keeps its invariant; afterwards a shared publish is in the pool exactly when an
  in-flight entry of one of the remaining sessions refers to it (nothing leaks, nothing
  still in use is freed).
\<close>

theorem registry_remove_frees:
  assumes "registry_inv ms r"
  shows "fst (registry_remove i r) = registry_get r i
    \<and> registry_get (snd (registry_remove i r)) = (registry_get r)(i := None)
    \<and> registry_inv ms (snd (registry_remove i r))
    \<and> (\<forall>h. stored_publish_of (snd (registry_remove i r)) h \<noteq> None \<longleftrightarrow>
         (\<exists>j st. j \<noteq> i \<and> registry_get r j = Some st \<and> h \<in> inf_publish ` set (inflight st)))"
proof -
  have "refs_ok {#} (snd (registry_remove i r))"
    using remove_inv [OF assms, of i] by (simp add: registry_inv_def)
  then have "stored_publish_of (snd (registry_remove i r)) h \<noteq> None \<longleftrightarrow>
      (\<exists>j st. j \<noteq> i \<and> registry_get r j = Some st \<and> h \<in> inf_publish ` set (inflight st))" for h
    unfolding refs_ok_stored [OF \<open>refs_ok {#} (snd (registry_remove i r))\<close>] handle_refs_iff remove_get
    by auto
  then show ?thesis
    using remove_inv [OF assms] by (simp add: remove_result remove_get)
qed

text \<open>A small registry: one client in the first of two slots, one shared publish in flight.\<close>

definition example_entry :: inflight_entry where
  "example_entry =
     \<lparr>packet_id = 1, inf_publish = \<lparr>h_slot = 0, h_generation = 1\<rparr>, inf_qos = AtLeastOnce, sent_at = 0,
      retries = 0\<rparr>"

definition example_registry :: session_registry where
  "example_registry =
     registry_get_mut 0 (\<lambda>st. st\<lparr>inflight := [example_entry]\<rparr>)
       (snd (store_publish_ref ''a'' [1] False
         (snd (registry_insert (session_new ''c'' 60) (registry_new 2 2)))))"

lemma example_registry_inv: "registry_inv 4 example_registry"
proof -
  define r0 where "r0 = snd (registry_insert (session_new ''c'' 60) (registry_new 2 2))"
  have r0: "registry_insert (session_new ''c'' 60) (registry_new 2 2) = (Inr 0, r0)"
    by (simp add: r0_def registry_insert_def registry_new_def slot_defs numeral_2_eq_2)
  have get: "registry_get (registry_new 2 2) = Map.empty"
    by (simp add: registry_get_def [abs_def] registry_new_def slot.look_empty)
  have inv0: "registry_inv 4 r0"
    by (rule insert_inv [OF registry_new_inv r0]) (simp_all add: session_new_inv get, simp add: session_new_def)
  define r1 where "r1 = snd (store_publish_ref ''a'' [1] False r0)"
  have r1: "store_publish_ref ''a'' [1] False r0 = (Inr \<lparr>h_slot = 0, h_generation = 1\<rparr>, r1)"
    by (simp add: r1_def r0_def registry_insert_def registry_new_def slot_defs store_publish_ref_def
        numeral_2_eq_2)
  have g1: "registry_get r1 0 = Some (session_new ''c'' 60)"
    using insert_okD(2) [OF r0] store_frame(4) [of "''a''" "[1]" False r0]
      inv_slots_ok [OF registry_new_inv] by (simp add: r1_def)
  have refs: "refs_ok {#\<lparr>h_slot = 0, h_generation = 1\<rparr>#} r1"
    by (rule refs_ok_store [OF r1]) (use inv0 in \<open>auto simp: registry_inv_def registry_wf_def\<close>)
  have wf1: "registry_wf 4 r1"
    using inv0 store_okD [OF r1 inv_slots_ok [OF inv0]] store_frame [of "''a''" "[1]" False r0]
      store_slots_ok [of r0 "''a''" "[1]" False]
    by (auto simp: registry_inv_def registry_wf_def r1_def [symmetric])
  have len: "length (stored_publishes r1) = 2"
    by (simp add: r1_def store_frame insert_okD(7) [OF r0 inv_slots_ok [OF registry_new_inv]])
       (simp add: registry_new_def)
  have "registry_wf 4 (registry_get_mut 0 (\<lambda>st. st\<lparr>inflight := [example_entry]\<rparr>) r1)"
    by (rule wf_get_mut [OF wf1]) (use g1 len session_new_inv [of "''c''" 4 2 60] in
        \<open>simp add: session_inv_def example_entry_def\<close>)
  moreover have "refs_ok {#} (registry_get_mut 0 (\<lambda>st. st\<lparr>inflight := [example_entry]\<rparr>) r1)"
    using refs_ok_add_entry [OF g1, of "\<lambda>st. st\<lparr>inflight := [example_entry]\<rparr>" example_entry "{#}"] refs
    by (simp add: session_new_def example_entry_def)
  ultimately show ?thesis
    by (simp add: example_registry_def registry_inv_def r1_def r0_def)
qed

lemma example_registry_get:
  "registry_get example_registry =
     [0 \<mapsto> (session_new ''c'' 60)\<lparr>inflight := [example_entry]\<rparr>]"
  by (auto simp: example_registry_def registry_get_mut_def registry_insert_def registry_new_def slot_defs
      store_publish_ref_def numeral_2_eq_2 registry_get_def look_def nth_Cons' fun_eq_iff)

lemma example_registry_pool: "stored_publish_of example_registry \<lparr>h_slot = 0, h_generation = 1\<rparr> \<noteq> None"
  by (simp add: example_registry_def registry_get_mut_def registry_insert_def registry_new_def slot_defs
      store_publish_ref_def numeral_2_eq_2 stored_publish_of_def look_def)

lemma example_registry_len: "length (slots example_registry) = 2"
  by (simp add: example_registry_def registry_simps registry_insert_def registry_new_def slot_defs
      numeral_2_eq_2)

theorem registry_remove_frees_witness:
  "registry_get example_registry 0 \<noteq> None
   \<and> stored_publish_of example_registry \<lparr>h_slot = 0, h_generation = 1\<rparr> \<noteq> None
   \<and> stored_publish_of (snd (registry_remove 0 example_registry)) \<lparr>h_slot = 0, h_generation = 1\<rparr> = None"
proof (intro conjI)
  show "stored_publish_of (snd (registry_remove 0 example_registry)) \<lparr>h_slot = 0, h_generation = 1\<rparr> = None"
    using registry_remove_frees [OF example_registry_inv, of 0]
    by (metis example_registry_get fun_upd_other fun_upd_same option.distinct(1))
qed (use example_registry_get example_registry_pool in auto)

text \<open>
  Inserting and finding. While the registry is not full and holds no session of the
  client, an insertion takes a free slot without touching another session, keeps the invariant,
  and looking the client up afterwards finds exactly the new session.
\<close>

theorem registry_insert_find:
  assumes "registry_inv ms r" "\<not> registry_is_full r" "find_by_client_id (sess_client_id st) r = None"
    and "session_inv ms (length (stored_publishes r)) st" "inflight st = []"
  shows "\<exists>i r'. registry_insert st r = (Inr i, r') \<and> registry_get r i = None
    \<and> registry_get r' = (registry_get r)(i \<mapsto> st)
    \<and> find_by_client_id (sess_client_id st) r' = Some i \<and> registry_inv ms r'"
proof -
  obtain i r' where ins: "registry_insert st r = (Inr i, r')"
    using insert_not_full [OF inv_slots_ok [OF assms(1)] assms(2)] by blast
  note get = insert_okD [OF ins inv_slots_ok [OF assms(1)]]
  have inv: "registry_inv ms r'"
    by (rule insert_inv [OF assms(1) ins assms(4,5)]) (rule find_by_client_id_NoneD [OF assms(3)])
  then have "find_by_client_id (sess_client_id st) r' = Some i"
    by (intro find_by_client_id_eq inv_unique) (simp_all add: get)
  with ins inv get show ?thesis by blast
qed

theorem registry_insert_find_witness:
  "\<exists>i r'. registry_insert (session_new ''d'' 60) example_registry = (Inr i, r')
     \<and> find_by_client_id ''d'' r' = Some i"
proof -
  have "registry_get example_registry 1 = None" "1 < length (slots example_registry)"
    by (simp_all add: example_registry_get example_registry_len)
  then have nf: "\<not> registry_is_full example_registry"
    unfolding is_full_iff by blast
  have "sess_client_id ((session_new ''c'' 60)\<lparr>inflight := [example_entry]\<rparr>) = ''c''"
    by (simp add: session_new_def)
  then have "find_by_client_id ''d'' example_registry = None"
    using find_by_client_id_SomeD [of "''d''" example_registry]
    by (cases "find_by_client_id ''d'' example_registry") (auto simp: example_registry_get split: if_splits)
  moreover have "sess_client_id (session_new ''d'' 60) = ''d''" "inflight (session_new ''d'' 60) = []"
    by (simp_all add: session_new_def)
  ultimately show ?thesis
    using registry_insert_find [OF example_registry_inv nf, of "session_new ''d'' 60"]
    by (auto simp: session_new_inv)
qed

end
