(* ===== verification/Dispatcher.thy ===== *)
theory Dispatcher
  imports Registry
begin

text \<open>
  Routing: which sessions a topic reaches and at which quality of service
  (\<^verbatim>\<open>crates/GatoMQTT/src/router/dispatcher.rs\<close>, \<open>collect_subscribers\<close> of
  \<^verbatim>\<open>router/subscriptions.rs\<close> and \<open>find_lwt_subscribers\<close> of \<^verbatim>\<open>handler/disconnect.rs\<close>). The
  result vectors have the registry's own capacity, so the pushes whose result the code
  ignores are shown never to fail.
\<close>

section \<open>Operations\<close>

definition match_subscription :: "string \<Rightarrow> subscription \<Rightarrow> qos option \<Rightarrow> qos option" where
  "match_subscription topic subscription matched_qos =
     (if topic_matches (sub_filter subscription) topic
      then Some (case matched_qos of
                   Some current \<Rightarrow> max_qos current (sub_qos subscription)
                 | None \<Rightarrow> sub_qos subscription)
      else matched_qos)"

definition find_subscribers :: "session_registry \<Rightarrow> string \<Rightarrow> session_id \<Rightarrow> (session_id \<times> qos) list" where
  "find_subscribers r topic sender_id =
     fold (\<lambda>(sid, session) subscribers.
        if sid = sender_id then subscribers
        else (case fold (match_subscription topic) (subscriptions session) None of
                Some q \<Rightarrow> push_or_drop (length (slots r)) (sid, q) subscribers
              | None \<Rightarrow> subscribers))
      (registry_iter r) []"

definition find_all_subscribers :: "session_registry \<Rightarrow> string \<Rightarrow> (session_id \<times> qos) list" where
  "find_all_subscribers r topic =
     fold (\<lambda>(sid, session) subscribers.
        case fold (match_subscription topic) (subscriptions session) None of
          Some q \<Rightarrow> push_or_drop (length (slots r)) (sid, q) subscribers
        | None \<Rightarrow> subscribers)
      (registry_iter r) []"

definition collect_subscribers :: "nat \<Rightarrow> session_registry \<Rightarrow> string \<Rightarrow> session_id list" where
  "collect_subscribers max_matches r topic =
     fold (\<lambda>(sid, state) subscribers.
        if list_ex (\<lambda>s. topic_matches (sub_filter s) topic) (subscriptions state)
           \<and> \<not> list_ex (\<lambda>existing. existing = sid) subscribers
        then push_or_drop max_matches sid subscribers
        else subscribers)
      (registry_iter r) []"

definition find_lwt_subscribers ::
  "session_registry \<Rightarrow> string \<Rightarrow> lwt_message \<Rightarrow> (session_id \<times> qos) list" where
  "find_lwt_subscribers r disconnecting_client_id l =
     fold (\<lambda>(sid, state) deliveries.
        if sess_client_id state = disconnecting_client_id then deliveries
        else (case fold (match_subscription (lwt_topic l)) (subscriptions state) None of
                Some q \<Rightarrow> push_or_drop (length (slots r)) (sid, q) deliveries
              | None \<Rightarrow> deliveries))
      (registry_iter r) []"

section \<open>What a topic reaches\<close>

definition granted :: "string \<Rightarrow> session_state \<Rightarrow> qos set" where
  "granted topic st = {sub_qos s |s. s \<in> set (subscriptions st) \<and> topic_matches (sub_filter s) topic}"

lemma finite_granted [simp]: "finite (granted t st)"
  by (simp add: granted_def)

lemma Max_insert_max: "finite Q \<Longrightarrow> Max (insert (max c d) Q) = Max (insert c (insert d Q))"
  for c d :: "'a::linorder"
  by (cases "Q = {}") (simp_all add: max.assoc)

lemma match_fold:
  "fold (match_subscription t) subs acc =
     (let qs = {sub_qos s |s. s \<in> set subs \<and> topic_matches (sub_filter s) t} \<union> set_option acc
      in if qs = {} then None else Some (Max qs))"
proof (induction subs arbitrary: acc)
  case (Cons s subs)
  let ?Q = "{sub_qos s |s. s \<in> set subs \<and> topic_matches (sub_filter s) t}"
  have fin: "finite ?Q" by simp
  show ?case
  proof (cases "topic_matches (sub_filter s) t")
    case False
    then have "{sub_qos s' |s'. s' \<in> set (s # subs) \<and> topic_matches (sub_filter s') t} = ?Q" by auto
    then show ?thesis using Cons.IH [of acc] False by (simp add: match_subscription_def)
  next
    case True
    then have Q: "{sub_qos s' |s'. s' \<in> set (s # subs) \<and> topic_matches (sub_filter s') t}
        = insert (sub_qos s) ?Q" by auto
    show ?thesis
    proof (cases acc)
      case None
      then show ?thesis using Cons.IH [of "Some (sub_qos s)"] True Q
        by (simp add: match_subscription_def Let_def insert_commute Un_commute)
    next
      case (Some c)
      have "Max (insert (max c (sub_qos s)) ?Q) = Max (insert c (insert (sub_qos s) ?Q))"
        using fin by (rule Max_insert_max)
      then show ?thesis using Cons.IH [of "Some (max c (sub_qos s))"] True Q Some
        by (simp add: match_subscription_def Let_def insert_commute Un_commute)
    qed
  qed
qed (auto simp: Let_def)

lemma match_session:
  "fold (match_subscription t) (subscriptions st) None =
     (if granted t st = {} then None else Some (Max (granted t st)))"
  by (simp add: match_fold granted_def Let_def)

lemma distinct_map_filter_fst:
  assumes "\<And>x y. g x = Some y \<Longrightarrow> fst y = fst x"
  shows "distinct (map fst xs) \<Longrightarrow> distinct (map fst (List.map_filter g xs))"
proof (induction xs)
  case (Cons x xs)
  have sub: "fst y \<in> fst ` set xs" if mem: "y \<in> set (List.map_filter g xs)" for y
  proof -
    obtain x where "x \<in> set xs" "g x = Some y" using mem unfolding set_map_filter by blast
    then show ?thesis using assms [of x y] by (metis image_eqI)
  qed
  show ?case
  proof (cases "g x")
    case (Some y)
    then have "fst y \<notin> fst ` set (List.map_filter g xs)"
      using Cons.prems assms [OF Some] sub by auto
    then show ?thesis using Some Cons by (simp add: List.map_filter_simps)
  qed (use Cons in \<open>simp add: List.map_filter_simps\<close>)
qed (simp add: List.map_filter_simps)

lemma iter_filter_iff:
  "(i, q) \<in> set (List.map_filter (\<lambda>(sid, st). if P sid st then None else Some (sid, g st)) (registry_iter r))
   \<longleftrightarrow> (\<exists>st. registry_get r i = Some st \<and> \<not> P i st \<and> q = g st)"
  unfolding set_map_filter iter_iff [symmetric] by (auto split: if_splits) force

lemma iter_filter_distinct:
  "distinct (map fst (List.map_filter (\<lambda>(sid, st). if P sid st then None else Some (sid, g st)) (registry_iter r)))"
  by (rule distinct_map_filter_fst) (auto simp: iter_distinct split: if_splits)

lemma find_subscribers_filter:
  "find_subscribers r t s = List.map_filter (\<lambda>(sid, st).
     if sid = s \<or> granted t st = {} then None else Some (sid, Max (granted t st))) (registry_iter r)"
  unfolding find_subscribers_def
  by (subst fold_push [where n = "length (slots r)"])
    (auto simp: match_session split: prod.split, use len_le [of r] in \<open>simp add: registry_len_def\<close>)

lemma find_all_subscribers_filter:
  "find_all_subscribers r t = List.map_filter (\<lambda>(sid, st).
     if granted t st = {} then None else Some (sid, Max (granted t st))) (registry_iter r)"
  unfolding find_all_subscribers_def
  by (subst fold_push [where n = "length (slots r)"])
    (auto simp: match_session split: prod.split, use len_le [of r] in \<open>simp add: registry_len_def\<close>)

lemma find_lwt_subscribers_filter:
  "find_lwt_subscribers r cid l = List.map_filter (\<lambda>(sid, st).
     if sess_client_id st = cid \<or> granted (lwt_topic l) st = {} then None
     else Some (sid, Max (granted (lwt_topic l) st))) (registry_iter r)"
  unfolding find_lwt_subscribers_def
  by (subst fold_push [where n = "length (slots r)"])
    (auto simp: match_session split: prod.split, use len_le [of r] in \<open>simp add: registry_len_def\<close>)

section \<open>Properties\<close>

text \<open>
  C27: routing is exact. A publish is handed to precisely those sessions, other than the
  sender's, that hold a matching subscription, to each once, at the highest quality of service among
  the session's matching subscriptions; no delivery is lost to the capacity of the result.
\<close>

theorem find_subscribers_exact:
  "distinct (map fst (find_subscribers r t s))
   \<and> ((i, q) \<in> set (find_subscribers r t s) \<longleftrightarrow>
        i \<noteq> s \<and> (\<exists>st. registry_get r i = Some st \<and> granted t st \<noteq> {} \<and> q = Max (granted t st)))"
  unfolding find_subscribers_filter iter_filter_iff by (auto simp: iter_filter_distinct)

text \<open>
  Routing of control-domain publishes and of last wills. A publish of the control domain reaches
  every session with a matching subscription, the sender's not excepted; a last will
  reaches every such session but those of the disconnecting client.
\<close>

theorem find_all_and_lwt_subscribers_exact:
  "distinct (map fst (find_all_subscribers r t))
   \<and> ((i, q) \<in> set (find_all_subscribers r t) \<longleftrightarrow>
        (\<exists>st. registry_get r i = Some st \<and> granted t st \<noteq> {} \<and> q = Max (granted t st)))
   \<and> distinct (map fst (find_lwt_subscribers r cid l))
   \<and> ((i, q) \<in> set (find_lwt_subscribers r cid l) \<longleftrightarrow>
        (\<exists>st. registry_get r i = Some st \<and> sess_client_id st \<noteq> cid
           \<and> granted (lwt_topic l) st \<noteq> {} \<and> q = Max (granted (lwt_topic l) st)))"
  unfolding find_all_subscribers_filter find_lwt_subscribers_filter iter_filter_iff
  by (auto simp: iter_filter_distinct iter_filter_distinct [of "\<lambda>_. P" for P])

end
