(* ===== verification/Transport.thy ===== *)
theory Transport
  imports Prelude
begin

text \<open>
  The byte transports of \<^verbatim>\<open>crates/GatoMQTT/src/transport\<close>: the \<open>Transport\<close> trait as a record of
  operations on an abstract state, the queue-backed \<open>MockTransport\<close>, and the adapters
  \<open>TlsTransport\<close> and \<open>TcpTransport\<close> over a TLS session and a socket, which
  are parameters. A read is modelled by the bytes it places at the front of the buffer
  (their number is the count the code returns).

  Two locales state what the users of a transport rely on: \<open>byte_stream\<close>, that reads deliver
  the incoming bytes in order, in pieces of any size, and \<open>byte_sink\<close>, that a write
  consumes a prefix of what it is given. They are interpreted on \<open>MockTransport\<close> and on
  \<open>MockTlsSession\<close>; \<open>Tls_Psk\<close> shows that the TLS session over a byte stream is one again.
\<close>

section \<open>The trait\<close>

record ('s, 'e) transport =
  tr_read :: "nat \<Rightarrow> 's \<Rightarrow> ('e + bytes) \<times> 's"
  tr_write :: "bytes \<Rightarrow> 's \<Rightarrow> ('e + unit) \<times> 's"
  tr_close :: "'s \<Rightarrow> 's"

locale byte_stream =
  fixes tr :: "('s, 'e) transport"
    and incoming :: "'s \<Rightarrow> bytes"
    and good :: "'s \<Rightarrow> bool"
  assumes read_some: "good s \<Longrightarrow> incoming s \<noteq> [] \<Longrightarrow> 0 < n \<Longrightarrow>
      \<exists>bs s'. tr_read tr n s = (Inr bs, s') \<and> bs \<noteq> [] \<and> length bs \<le> n
        \<and> incoming s = bs @ incoming s' \<and> good s'"
    and read_end: "good s \<Longrightarrow> incoming s = [] \<Longrightarrow> 0 < n \<Longrightarrow>
      \<exists>s'. tr_read tr n s = (Inr [], s') \<and> incoming s' = [] \<and> good s'"

section \<open>MockTransport\<close>

record mock_transport =
  rx_queue :: "bytes list"
  tx_log :: "bytes list"
  mock_closed :: bool

definition mock_new :: mock_transport where
  "mock_new = \<lparr>rx_queue = [], tx_log = [], mock_closed = False\<rparr>"

definition mock_feed :: "bytes \<Rightarrow> mock_transport \<Rightarrow> mock_transport" where
  "mock_feed data m = m\<lparr>rx_queue := rx_queue m @ [data]\<rparr>"

definition mock_read :: "nat \<Rightarrow> mock_transport \<Rightarrow> (unit + bytes) \<times> mock_transport" where
  "mock_read n m =
     (case rx_queue m of
        [] \<Rightarrow> (Inr [], m)
      | chunk # queue \<Rightarrow>
          (let read_len = min n (length chunk)
           in (Inr (take read_len chunk),
               if read_len < length chunk then m\<lparr>rx_queue := drop read_len chunk # queue\<rparr>
               else m\<lparr>rx_queue := queue\<rparr>)))"

definition mock_write :: "bytes \<Rightarrow> mock_transport \<Rightarrow> (unit + unit) \<times> mock_transport" where
  "mock_write data m = (Inr (), m\<lparr>tx_log := tx_log m @ [data]\<rparr>)"

definition mock_close :: "mock_transport \<Rightarrow> mock_transport" where
  "mock_close m = m\<lparr>mock_closed := True\<rparr>"

definition mock_transport_ops :: "(mock_transport, unit) transport" where
  "mock_transport_ops = \<lparr>tr_read = mock_read, tr_write = mock_write, tr_close = mock_close\<rparr>"

definition mock_incoming :: "mock_transport \<Rightarrow> bytes" where
  "mock_incoming m = concat (rx_queue m)"

definition mock_good :: "mock_transport \<Rightarrow> bool" where
  "mock_good m \<longleftrightarrow> [] \<notin> set (rx_queue m)"

interpretation mock: byte_stream mock_transport_ops mock_incoming mock_good
proof (unfold_locales, goal_cases)
  case (1 s n)
  then obtain c q where q: "rx_queue s = c # q" "c \<noteq> []"
    by (cases "rx_queue s") (auto simp: mock_incoming_def mock_good_def)
  show ?case
    using 1 q by (cases "n < length c")
      (auto simp: mock_transport_ops_def mock_read_def mock_incoming_def mock_good_def)
next
  case (2 s n)
  then have "rx_queue s = []"
    by (cases "rx_queue s") (auto simp: mock_incoming_def mock_good_def)
  then show ?case
    using 2 by (simp add: mock_transport_ops_def mock_read_def)
qed

section \<open>Writing everything\<close>

text \<open>
  The loop \<open>while written < buf.len()\<close> of both adapters, over the partial \<open>write\<close> of the
  session or socket below; \<open>wrap\<close> and \<open>zero\<close> are the adapter's error constructors.
\<close>

function write_all ::
  "(bytes \<Rightarrow> 's \<Rightarrow> ('e + nat) \<times> 's) \<Rightarrow> ('e \<Rightarrow> 'f) \<Rightarrow> 'f \<Rightarrow> bytes \<Rightarrow> nat \<Rightarrow> 's \<Rightarrow> ('f + unit) \<times> 's" where
  "write_all send wrap zero buf written s =
     (if written < length buf
      then (case send (drop written buf) s of
              (Inl e, s') \<Rightarrow> (Inl (wrap e), s')
            | (Inr n, s') \<Rightarrow>
                if n = 0 then (Inl zero, s')
                else write_all send wrap zero buf (written + n) s')
      else (Inr (), s))"
  by pat_completeness auto

termination
  by (relation "measure (\<lambda>(send, wrap, zero, buf, written, s). length buf - written)") auto

declare write_all.simps [simp del]

text \<open>What every call keeps holds at the end; a failure is that of a call, or a call that wrote nothing.\<close>

lemma write_all_invariant:
  assumes "I s" and ok: "\<And>bs s n s'. I s \<Longrightarrow> bs \<noteq> [] \<Longrightarrow> send bs s = (Inr n, s') \<Longrightarrow> I s'"
    and err: "\<And>bs s e s'. I s \<Longrightarrow> bs \<noteq> [] \<Longrightarrow> send bs s = (Inl e, s') \<Longrightarrow> J e s'"
    and "write_all send wrap zero buf written s = (res, s')"
  shows "case res of
      Inr _ \<Rightarrow> I s'
    | Inl f \<Rightarrow> (\<exists>e. f = wrap e \<and> J e s') \<or> f = zero \<and> (\<exists>bs t. I t \<and> bs \<noteq> [] \<and> send bs t = (Inr 0, s'))"
  using assms(1,4)
proof (induction "length buf - written" arbitrary: written s rule: less_induct)
  case less
  show ?case
  proof (cases "written < length buf")
    case False
    then show ?thesis using less.prems by (auto simp: write_all.simps)
  next
    case True
    then have ne: "drop written buf \<noteq> []" by simp
    obtain r s1 where send: "send (drop written buf) s = (r, s1)" by fastforce
    show ?thesis
    proof (cases r)
      case (Inl e)
      then show ?thesis using less.prems True send err [OF less.prems(1) ne] by (auto simp: write_all.simps)
    next
      case (Inr n)
      show ?thesis
      proof (cases "n = 0")
        case True
        have "res = Inl zero" "s' = s1"
          using less.prems(2) \<open>written < length buf\<close> send Inr True by (simp_all add: write_all.simps)
        moreover have "\<exists>bs t. I t \<and> bs \<noteq> [] \<and> send bs t = (Inr 0, s1)"
          using less.prems(1) ne send Inr True by blast
        ultimately show ?thesis by simp
      next
        case False
        then have "write_all send wrap zero buf (written + n) s1 = (res, s')"
          using less.prems True send Inr by (simp add: write_all.simps [of _ _ _ _ written])
        moreover have "length buf - (written + n) < length buf - written" using False True by simp
        ultimately show ?thesis using less.hyps ok [OF less.prems(1) ne] send Inr by blast
      qed
    qed
  qed
qed

locale byte_sink =
  fixes send :: "bytes \<Rightarrow> 's \<Rightarrow> ('e + nat) \<times> 's"
    and outgoing :: "'s \<Rightarrow> bytes"
    and good :: "'s \<Rightarrow> bool"
  assumes send_ok: "good s \<Longrightarrow> send bs s = (Inr n, s') \<Longrightarrow>
      n \<le> length bs \<and> outgoing s' = outgoing s @ take n bs \<and> good s'"
    and send_err: "good s \<Longrightarrow> send bs s = (Inl e, s') \<Longrightarrow> \<exists>n. outgoing s' = outgoing s @ take n bs"
begin

lemma write_all_prefix:
  assumes "good s" "written \<le> length buf" "write_all send wrap zero buf written s = (res, s')"
  shows "\<exists>n. outgoing s' = outgoing s @ take n (drop written buf)
    \<and> (res = Inr () \<longrightarrow> n = length buf - written \<and> good s')"
  using assms
proof (induction "length buf - written" arbitrary: written s rule: less_induct)
  case less
  show ?case
  proof (cases "written < length buf")
    case False
    then show ?thesis using less.prems by (auto simp: write_all.simps intro!: exI [of _ 0])
  next
    case True
    obtain r s1 where send: "send (drop written buf) s = (r, s1)" by fastforce
    show ?thesis
    proof (cases r)
      case (Inl e)
      then show ?thesis
        using less.prems True send send_err [of s "drop written buf" e s1] by (auto simp: write_all.simps)
    next
      case (Inr n)
      have n: "n \<le> length buf - written" "outgoing s1 = outgoing s @ take n (drop written buf)" "good s1"
        using send_ok [of s "drop written buf" n s1] send Inr less.prems(1) by auto
      show ?thesis
      proof (cases "n = 0")
        case True
        then show ?thesis
          using less.prems \<open>written < length buf\<close> send Inr n
          by (auto simp: write_all.simps intro!: exI [of _ 0])
      next
        case False
        then have rest: "write_all send wrap zero buf (written + n) s1 = (res, s')"
          using less.prems True send Inr by (simp add: write_all.simps [of _ _ _ _ written])
        have "length buf - (written + n) < length buf - written" "written + n \<le> length buf"
          using False True n(1) by simp_all
        then obtain k where "outgoing s' = outgoing s1 @ take k (drop (written + n) buf)"
            "res = Inr () \<longrightarrow> k = length buf - (written + n) \<and> good s'"
          using less.hyps [OF _ n(3) _ rest] by blast
        moreover have "n + (length buf - (written + n)) = length buf - written"
          using n(1) True by linarith
        moreover have "take n (drop written buf) @ take k (drop (written + n) buf)
            = take (n + k) (drop written buf)"
          using take_add [of n k "drop written buf"] by (simp add: add.commute)
        ultimately show ?thesis
          using n(2) by (intro exI [of _ "n + k"]) (metis append.assoc)
      qed
    qed
  qed
qed

end

section \<open>TlsTransport\<close>

record ('s, 'e) tls_session =
  ts_accept :: "'s \<Rightarrow> ('e + unit) \<times> 's"
  ts_read :: "nat \<Rightarrow> 's \<Rightarrow> ('e + bytes) \<times> 's"
  ts_write :: "bytes \<Rightarrow> 's \<Rightarrow> ('e + nat) \<times> 's"
  ts_flush :: "'s \<Rightarrow> ('e + unit) \<times> 's"
  ts_close :: "'s \<Rightarrow> 's"

datatype 'e tls_transport_error = Tls 'e | TlsWriteZero

definition tls_accept :: "('s, 'e) tls_session \<Rightarrow> 's \<Rightarrow> ('e + unit) \<times> 's" where
  "tls_accept ts s = ts_accept ts s"

definition tls_read :: "('s, 'e) tls_session \<Rightarrow> nat \<Rightarrow> 's \<Rightarrow> ('e tls_transport_error + bytes) \<times> 's" where
  "tls_read ts n s = apfst (map_err Tls) (ts_read ts n s)"

definition tls_write :: "('s, 'e) tls_session \<Rightarrow> bytes \<Rightarrow> 's \<Rightarrow> ('e tls_transport_error + unit) \<times> 's" where
  "tls_write ts buf s =
     (case write_all (ts_write ts) Tls TlsWriteZero buf 0 s of
        (Inl e, s') \<Rightarrow> (Inl e, s')
      | (Inr _, s') \<Rightarrow> apfst (map_err Tls) (ts_flush ts s'))"

definition tls_transport :: "('s, 'e) tls_session \<Rightarrow> ('s, 'e tls_transport_error) transport" where
  "tls_transport ts = \<lparr>tr_read = tls_read ts, tr_write = tls_write ts, tr_close = ts_close ts\<rparr>"

subsection \<open>The test double\<close>

record mock_tls_session =
  mts_rx :: "bytes list"
  mts_tx :: "bytes list"
  mts_accepted :: bool
  mts_closed :: bool
  write_chunk :: "nat option"
  fail_accept :: bool
  fail_read :: bool
  fail_write :: bool
  fail_flush :: bool

definition mts_new :: mock_tls_session where
  "mts_new = \<lparr>mts_rx = [], mts_tx = [], mts_accepted = False, mts_closed = False, write_chunk = None,
     fail_accept = False, fail_read = False, fail_write = False, fail_flush = False\<rparr>"

definition mts_feed :: "bytes \<Rightarrow> mock_tls_session \<Rightarrow> mock_tls_session" where
  "mts_feed data m = m\<lparr>mts_rx := mts_rx m @ [data]\<rparr>"

definition mts_accept :: "mock_tls_session \<Rightarrow> (string + unit) \<times> mock_tls_session" where
  "mts_accept m = (if fail_accept m then (Inl ''accept failed'', m) else (Inr (), m\<lparr>mts_accepted := True\<rparr>))"

definition mts_read :: "nat \<Rightarrow> mock_tls_session \<Rightarrow> (string + bytes) \<times> mock_tls_session" where
  "mts_read n m =
     (if fail_read m then (Inl ''read failed'', m)
      else (case mts_rx m of
              [] \<Rightarrow> (Inr [], m)
            | chunk # queue \<Rightarrow>
                (let read_len = min n (length chunk)
                 in (Inr (take read_len chunk),
                     if read_len < length chunk then m\<lparr>mts_rx := drop read_len chunk # queue\<rparr>
                     else m\<lparr>mts_rx := queue\<rparr>))))"

definition mts_write :: "bytes \<Rightarrow> mock_tls_session \<Rightarrow> (string + nat) \<times> mock_tls_session" where
  "mts_write buf m =
     (if fail_write m then (Inl ''write failed'', m)
      else (let consumed = (case write_chunk m of Some n \<Rightarrow> min n (length buf) | None \<Rightarrow> length buf)
            in (Inr consumed, if consumed > 0 then m\<lparr>mts_tx := mts_tx m @ [take consumed buf]\<rparr> else m)))"

definition mts_flush :: "mock_tls_session \<Rightarrow> (string + unit) \<times> mock_tls_session" where
  "mts_flush m = (if fail_flush m then Inl ''flush failed'' else Inr (), m)"

definition mts_close :: "mock_tls_session \<Rightarrow> mock_tls_session" where
  "mts_close m = m\<lparr>mts_closed := True\<rparr>"

definition mock_tls_ops :: "(mock_tls_session, string) tls_session" where
  "mock_tls_ops = \<lparr>ts_accept = mts_accept, ts_read = mts_read, ts_write = mts_write, ts_flush = mts_flush,
     ts_close = mts_close\<rparr>"

definition mts_outgoing :: "mock_tls_session \<Rightarrow> bytes" where
  "mts_outgoing m = concat (mts_tx m)"

interpretation mock_tls: byte_sink mts_write mts_outgoing "\<lambda>_. True"
  by unfold_locales
    (auto simp: mts_write_def mts_outgoing_def Let_def split: if_splits option.splits intro: exI [of _ 0])

subsection \<open>All or a prefix\<close>

lemma tls_write_prefix:
  assumes "byte_sink (ts_write ts) outgoing good" "good s" "\<And>s. outgoing (snd (ts_flush ts s)) = outgoing s"
    and "tls_write ts buf s = (res, s')"
  shows "\<exists>n. outgoing s' = outgoing s @ take n buf \<and> (res = Inr () \<longrightarrow> n = length buf)"
proof -
  obtain r s1 where r: "write_all (ts_write ts) Tls TlsWriteZero buf 0 s = (r, s1)" by fastforce
  then obtain n where n: "outgoing s1 = outgoing s @ take n buf" "r = Inr () \<longrightarrow> n = length buf"
    using byte_sink.write_all_prefix [OF assms(1,2) _ r] by auto
  show ?thesis
  proof (cases r)
    case (Inl e)
    then show ?thesis using assms(4) r n by (auto simp: tls_write_def)
  next
    case (Inr u)
    obtain x s2 where f: "ts_flush ts s1 = (x, s2)" by fastforce
    then have "outgoing s2 = outgoing s1" using assms(3) [of s1] by simp
    then show ?thesis using assms(4) r f n Inr
      by (cases x) (auto simp: tls_write_def intro: exI [of _ "length buf"])
  qed
qed

section \<open>TcpTransport\<close>

record ('s, 'e) tcp_socket =
  sock_read :: "nat \<Rightarrow> 's \<Rightarrow> ('e + bytes) \<times> 's"
  sock_write :: "bytes \<Rightarrow> 's \<Rightarrow> ('e + nat) \<times> 's"
  sock_close :: "'s \<Rightarrow> 's"

datatype 'e tcp_transport_error = Socket 'e | TcpWriteZero

definition tcp_read :: "('s, 'e) tcp_socket \<Rightarrow> nat \<Rightarrow> 's \<Rightarrow> ('e tcp_transport_error + bytes) \<times> 's" where
  "tcp_read sock n s = apfst (map_err Socket) (sock_read sock n s)"

definition tcp_write :: "('s, 'e) tcp_socket \<Rightarrow> bytes \<Rightarrow> 's \<Rightarrow> ('e tcp_transport_error + unit) \<times> 's" where
  "tcp_write sock buf s = write_all (sock_write sock) Socket TcpWriteZero buf 0 s"

definition tcp_transport :: "('s, 'e) tcp_socket \<Rightarrow> ('s, 'e tcp_transport_error) transport" where
  "tcp_transport sock =
     \<lparr>tr_read = tcp_read sock, tr_write = tcp_write sock, tr_close = sock_close sock\<rparr>"

end
