(* ===== verification/Frame.thy ===== *)
theory Frame
  imports Transport Mqtt_Types
begin

text \<open>
  MQTT framing over a transport, \<^verbatim>\<open>crates/GatoMQTT/src/codec/frame.rs\<close>: reading one
  packet (fixed header, variable-length remaining length, body) and writing one. An index outside the
  frame buffer panics in Rust; it is the result \<open>None\<close> of \<open>read_packet\<close> here.
\<close>

unbundle bit_operations_syntax

section \<open>Errors\<close>

datatype 'e read_error = Eof | PacketTooLarge nat nat | ReadTransport 'e | ReadProtocol mqtt_error

datatype 'e write_error = WriteTransport 'e | WriteProtocol mqtt_error

section \<open>Reading\<close>

function read_exact ::
  "('s, 'e) transport \<Rightarrow> nat \<Rightarrow> bytes \<Rightarrow> 's \<Rightarrow> ('e read_error + bytes) \<times> 's" where
  "read_exact tr n got s =
     (if length got < n
      then (case tr_read tr (n - length got) s of
              (Inl e, s') \<Rightarrow> (Inl (ReadTransport e), s')
            | (Inr bs, s') \<Rightarrow> if bs = [] then (Inl Eof, s') else read_exact tr n (got @ bs) s')
      else (Inr got, s))"
  by pat_completeness auto

termination
  by (relation "measure (\<lambda>(tr, n, got, s). n - length got)") (auto simp: neq_Nil_conv)

declare read_exact.simps [simp del]

lemma read_exact_length: "read_exact tr n got s = (Inr bs, s') \<Longrightarrow> n \<le> length bs"
proof (induction tr n got s rule: read_exact.induct)
  case (1 tr n got s)
  show ?case
    using 1(1) 1(2) [unfolded read_exact.simps [of tr n got s]]
    by (auto split: prod.splits sum.splits if_splits)
qed

fun decode_rl :: "nat \<Rightarrow> nat \<Rightarrow> nat \<Rightarrow> bytes \<Rightarrow> mqtt_error + nat" where
  "decode_rl index multiplier val [] = Inl InvalidHeader"
| "decode_rl index multiplier val (b # bs) =
     (let val' = val + unat (b AND 0x7F) * multiplier
      in if b AND 0x80 = 0 then Inr val'
         else (let multiplier' = multiplier * 128
               in if index = 3 \<or> multiplier' > 128 * 128 * 128 * 128 then Inl InvalidHeader
                  else decode_rl (Suc index) multiplier' val' bs))"

definition decode_remaining_length :: "bytes \<Rightarrow> mqtt_error + nat" where
  "decode_remaining_length bs = decode_rl 0 1 0 bs"

text \<open>The header loop: \<open>hdr\<close> is \<open>buf[..header_len]\<close>, \<open>None\<close> an index outside the buffer.\<close>

function read_header ::
  "('s, 'e) transport \<Rightarrow> nat \<Rightarrow> bytes \<Rightarrow> 's \<Rightarrow> ('e read_error + bytes) option \<times> 's" where
  "read_header tr max_packet_size hdr s =
     (if last hdr AND 0x80 \<noteq> 0
      then (if length hdr \<ge> 5 then (Some (Inl (ReadProtocol InvalidHeader)), s)
            else if max_packet_size < length hdr + 1 then (None, s)
            else (case read_exact tr 1 [] s of
                    (Inl e, s') \<Rightarrow> (Some (Inl e), s')
                  | (Inr b, s') \<Rightarrow> read_header tr max_packet_size (hdr @ b) s'))
      else (Some (Inr hdr), s))"
  by pat_completeness auto

termination
  by (relation "measure (\<lambda>(tr, m, hdr, s). 5 - length hdr)")
    (auto dest!: read_exact_length [OF sym])

declare read_header.simps [simp del]

definition read_packet ::
  "mqttrs \<Rightarrow> ('s, 'e) transport \<Rightarrow> nat \<Rightarrow> 's \<Rightarrow> ('e read_error + packet) option \<times> 's" where
  "read_packet mq tr max_packet_size s =
     (if max_packet_size < 2 then (None, s)
      else case read_exact tr 2 [] s of
        (Inl e, s1) \<Rightarrow> (Some (Inl e), s1)
      | (Inr hdr2, s1) \<Rightarrow>
          (case read_header tr max_packet_size hdr2 s1 of
             (None, s2) \<Rightarrow> (None, s2)
           | (Some (Inl e), s2) \<Rightarrow> (Some (Inl e), s2)
           | (Some (Inr hdr), s2) \<Rightarrow>
               (case decode_remaining_length (drop 1 hdr) of
                  Inl e \<Rightarrow> (Some (Inl (ReadProtocol e)), s2)
                | Inr remaining_length \<Rightarrow>
                    (let total_len = length hdr + remaining_length
                     in if total_len > max_packet_size
                        then (Some (Inl (PacketTooLarge total_len max_packet_size)), s2)
                        else (case read_exact tr (total_len - length hdr) [] s2 of
                                (Inl e, s3) \<Rightarrow> (Some (Inl e), s3)
                              | (Inr body, s3) \<Rightarrow>
                                  (Some (case decode_slice mq (hdr @ body) of
                                           Inl e \<Rightarrow> Inl (ReadProtocol e)
                                         | Inr (Some p) \<Rightarrow> Inr p
                                         | Inr None \<Rightarrow> Inl (ReadProtocol InvalidLength)), s3))))))"

section \<open>Writing\<close>

definition write_packet ::
  "mqttrs \<Rightarrow> ('s, 'e) transport \<Rightarrow> nat \<Rightarrow> packet \<Rightarrow> 's \<Rightarrow> ('e write_error + unit) \<times> 's" where
  "write_packet mq tr max_packet_size p s =
     (case encode_slice mq p max_packet_size of
        Inl e \<Rightarrow> (Inl (WriteProtocol e), s)
      | Inr frame \<Rightarrow> apfst (map_err WriteTransport) (tr_write tr frame s))"

section \<open>The remaining length\<close>

definition is_varint :: "bytes \<Rightarrow> bool" where
  "is_varint vs \<longleftrightarrow>
     vs \<noteq> [] \<and> length vs \<le> 4 \<and> list_all (\<lambda>b. b AND 0x80 \<noteq> 0) (butlast vs) \<and> last vs AND 0x80 = 0"

definition varint_value :: "bytes \<Rightarrow> nat" where
  "varint_value vs = foldr (\<lambda>b v. unat (b AND 0x7F) + 128 * v) vs 0"

lemma varint_value_simps [simp]:
  "varint_value [] = 0"
  "varint_value (b # bs) = unat (b AND 0x7F) + 128 * varint_value bs"
  by (simp_all add: varint_value_def)

lemma and_7F_less: "unat (b AND 0x7F :: byte) < 128"
proof -
  have "b AND 0x7F = take_bit 7 b" by (simp add: take_bit_eq_mask mask_eq_exp_minus_1)
  then show ?thesis using take_bit_nat_less_exp [of 7 "unat b"] by (simp add: unsigned_take_bit_eq)
qed

lemma varint_value_less: "varint_value bs < 128 ^ length bs"
proof (induction bs)
  case (Cons b bs)
  then have "Suc (varint_value bs) * 128 \<le> 128 ^ length bs * 128" by (intro mult_le_mono1) simp
  then show ?case using and_7F_less [of b] by simp
qed simp

lemma decode_rl_varint:
  assumes "vs \<noteq> []" "list_all (\<lambda>b. b AND 0x80 \<noteq> 0) (butlast vs)" "last vs AND 0x80 = 0"
    and "i + length vs \<le> 4"
  shows "decode_rl i (128 ^ i) val (vs @ rest) = Inr (val + 128 ^ i * varint_value vs)"
  using assms
proof (induction vs arbitrary: i val)
  case (Cons b vs)
  show ?case
  proof (cases "vs = []")
    case True
    then show ?thesis using Cons.prems by simp
  next
    case False
    then have "i < 3" using Cons.prems(4) by (auto simp: neq_Nil_conv)
    moreover from this have "(128::nat) ^ Suc i \<le> 128 ^ 4" by (intro power_increasing) auto
    ultimately show ?thesis
      using Cons.IH [of "Suc i"] Cons.prems False by (simp add: Let_def algebra_simps)
  qed
qed simp

lemma decode_rl_InrD:
  "decode_rl i m val bs = Inr v \<Longrightarrow> i \<le> 3 \<Longrightarrow>
   \<exists>vs rest. bs = vs @ rest \<and> vs \<noteq> [] \<and> list_all (\<lambda>b. b AND 0x80 \<noteq> 0) (butlast vs)
     \<and> last vs AND 0x80 = 0 \<and> i + length vs \<le> 4"
proof (induction i m val bs rule: decode_rl.induct)
  case (2 i m val b bs)
  show ?case
  proof (cases "b AND 0x80 = 0")
    case True
    then show ?thesis using 2(3) by (intro exI [of _ "[b]"] exI [of _ bs]) auto
  next
    case False
    then have i: "i < 3" and rec: "decode_rl (Suc i) (m * 128) (val + unat (b AND 0x7F) * m) bs = Inr v"
      using 2(2,3) by (auto simp: Let_def split: if_splits)
    have "\<exists>vs rest. bs = vs @ rest \<and> vs \<noteq> [] \<and> list_all (\<lambda>b. b AND 0x80 \<noteq> 0) (butlast vs)
        \<and> last vs AND 0x80 = 0 \<and> Suc i + length vs \<le> 4"
      using 2(1) [OF refl False refl] 2(2) rec i False by (auto simp: Let_def split: if_splits)
    then obtain vs rest where "bs = vs @ rest" "vs \<noteq> []" "list_all (\<lambda>b. b AND 0x80 \<noteq> 0) (butlast vs)"
        "last vs AND 0x80 = 0" "Suc i + length vs \<le> 4" by blast
    then show ?thesis using False by (intro exI [of _ "b # vs"] exI [of _ rest]) auto
  qed
qed simp

lemma decode_remaining_length_varint:
  "is_varint vs \<Longrightarrow> decode_remaining_length (vs @ rest) = Inr (varint_value vs)"
  using decode_rl_varint [of vs 0 0 rest] by (simp add: is_varint_def decode_remaining_length_def)

section \<open>Reading from a byte stream\<close>

context byte_stream
begin

lemma read_exact_stream:
  assumes "good s" "n - length got \<le> length (incoming s)"
  shows "\<exists>s'. read_exact tr n got s = (Inr (got @ take (n - length got) (incoming s)), s')
    \<and> incoming s' = drop (n - length got) (incoming s) \<and> good s'"
  using assms
proof (induction "n - length got" arbitrary: got s rule: less_induct)
  case less
  show ?case
  proof (cases "length got < n")
    case False
    then show ?thesis using less.prems by (simp add: read_exact.simps)
  next
    case True
    then have "incoming s \<noteq> []" using less.prems(2) by auto
    then obtain bs s1 where r: "tr_read tr (n - length got) s = (Inr bs, s1)" "bs \<noteq> []"
        "length bs \<le> n - length got" "incoming s = bs @ incoming s1" "good s1"
      using read_some [OF less.prems(1), of "n - length got"] True by auto
    have "\<exists>s'. read_exact tr n (got @ bs) s1
          = (Inr ((got @ bs) @ take (n - length (got @ bs)) (incoming s1)), s')
        \<and> incoming s' = drop (n - length (got @ bs)) (incoming s1) \<and> good s'"
      by (rule less.hyps) (use True r less.prems in \<open>auto simp: neq_Nil_conv\<close>)
    moreover have "read_exact tr n got s = read_exact tr n (got @ bs) s1"
      using True r by (simp add: read_exact.simps [of _ _ got])
    ultimately show ?thesis using r(3) by (simp add: r(4) take_append drop_append diff_diff_add)
  qed
qed

lemma read_exact_eof:
  assumes "good s" "length (incoming s) < n - length got"
  shows "fst (read_exact tr n got s) = Inl Eof"
  using assms
proof (induction "n - length got" arbitrary: got s rule: less_induct)
  case less
  then have pos: "length got < n" by simp
  show ?case
  proof (cases "incoming s = []")
    case True
    then show ?thesis using read_end [OF less.prems(1) True, of "n - length got"] less.prems
      by (auto simp: read_exact.simps)
  next
    case False
    then obtain bs s1 where r: "tr_read tr (n - length got) s = (Inr bs, s1)" "bs \<noteq> []"
        "length bs \<le> n - length got" "incoming s = bs @ incoming s1" "good s1"
      using read_some [OF less.prems(1), of "n - length got"] pos by auto
    have "fst (read_exact tr n (got @ bs) s1) = Inl Eof"
      by (rule less.hyps) (use r less.prems in \<open>auto simp: neq_Nil_conv\<close>)
    then show ?thesis using r less.prems by (simp add: read_exact.simps [of _ _ got])
  qed
qed

lemma read_header_stream:
  assumes "good s" "incoming s = ws @ rest" "us \<noteq> []" "length (us @ ws) \<le> 4" "1 + length (us @ ws) \<le> m"
    and "list_all (\<lambda>b. b AND 0x80 \<noteq> 0) (butlast (us @ ws))" "last (us @ ws) AND 0x80 = 0"
  shows "\<exists>s'. read_header tr m (t # us) s = (Some (Inr (t # us @ ws)), s') \<and> incoming s' = rest \<and> good s'"
  using assms
proof (induction ws arbitrary: us s)
  case Nil
  then show ?case by (simp add: read_header.simps)
next
  case (Cons w ws)
  obtain s1 where r: "read_exact tr 1 [] s = (Inr [w], s1)" "incoming s1 = ws @ rest" "good s1"
    using read_exact_stream [of s 1 "[]"] Cons.prems by auto
  have "last us AND 0x80 \<noteq> 0"
    using Cons.prems(3,6) by (auto simp: butlast_append list_all_iff)
  moreover have "\<exists>s'. read_header tr m (t # us @ [w]) s1 = (Some (Inr (t # (us @ [w]) @ ws)), s')
      \<and> incoming s' = rest \<and> good s'"
    by (rule Cons.IH) (use Cons.prems r in simp_all)
  ultimately show ?case
    using r Cons.prems by (simp add: read_header.simps [of _ _ "t # us"])
qed

end

context byte_stream
begin

lemma read_packet_stream:
  assumes "good s" "is_varint vs" "varint_value vs = length body" "1 + length vs + length body \<le> m"
    and "incoming s = (t # vs @ body) @ rest"
  shows "\<exists>s'. read_packet mq tr m s = (Some (case decode_slice mq (t # vs @ body) of
        Inl e \<Rightarrow> Inl (ReadProtocol e) | Inr (Some p) \<Rightarrow> Inr p
      | Inr None \<Rightarrow> Inl (ReadProtocol InvalidLength)), s') \<and> incoming s' = rest \<and> good s'"
proof -
  obtain v ws where vs: "vs = v # ws" using assms(2) by (cases vs) (auto simp: is_varint_def)
  obtain s1 where s1: "read_exact tr 2 [] s = (Inr [t, v], s1)" "incoming s1 = ws @ body @ rest" "good s1"
    using read_exact_stream [of s 2 "[]"] assms vs by (auto simp: numeral_2_eq_2)
  obtain s2 where s2: "read_header tr m [t, v] s1 = (Some (Inr (t # vs)), s2)"
      "incoming s2 = body @ rest" "good s2"
    using read_header_stream [OF s1(3,2), of "[v]" m t] assms(2,4) vs by (auto simp: is_varint_def)
  obtain s3 where s3: "read_exact tr (length body) [] s2 = (Inr body, s3)" "incoming s3 = rest" "good s3"
    using read_exact_stream [of s2 "length body" "[]"] s2 by auto
  have "decode_remaining_length vs = Inr (length body)"
    using decode_remaining_length_varint [OF assms(2), of "[]"] assms(3) by simp
  then show ?thesis
    using assms(4) s1 s2 s3 vs by (simp add: read_packet_def)
qed

end

lemma read_header_no_panic: "5 \<le> m \<Longrightarrow> fst (read_header tr m hdr s) \<noteq> None"
proof (induction tr m hdr s rule: read_header.induct)
  case (1 tr m hdr s)
  then show ?case
    by (subst read_header.simps) (auto split: prod.split sum.split)
qed

lemma read_packet_total:
  assumes "5 \<le> m"
  shows "fst (read_packet mq tr m s) \<noteq> None"
  using assms
  by (auto simp: read_packet_def Let_def split: prod.split sum.split option.split
      dest: arg_cong [of _ _ fst] simp: read_header_no_panic)

section \<open>Properties\<close>

text \<open>
  The remaining length. The decoder accepts exactly the byte sequences that start with a
  variable-length integer of one to four bytes and returns its value, which stays below \<open>2 ^ 28\<close>
  (so the code's \<open>usize\<close> arithmetic cannot overflow); everything else is \<open>InvalidHeader\<close>.
\<close>

theorem decode_remaining_length_exact:
  "(decode_remaining_length bs = Inr v \<longleftrightarrow>
      (\<exists>vs rest. bs = vs @ rest \<and> is_varint vs \<and> v = varint_value vs \<and> v < 2 ^ 28))
   \<and> decode_remaining_length bs \<in> insert (Inl InvalidHeader) (range Inr)"
proof -
  have err: "decode_rl i m val bs \<in> insert (Inl InvalidHeader) (range Inr)" for i m val
    by (induction i m val bs rule: decode_rl.induct) (auto simp: Let_def)
  have sub: "decode_remaining_length bs \<in> insert (Inl InvalidHeader) (range Inr)"
    unfolding decode_remaining_length_def by (rule err)
  have dec: "\<exists>vs rest. bs = vs @ rest \<and> is_varint vs \<and> v = varint_value vs"
    if eq: "decode_remaining_length bs = Inr v"
  proof -
    obtain vs rest where "bs = vs @ rest" "is_varint vs"
      using decode_rl_InrD [of 0 1 0 bs v] eq by (auto simp: decode_remaining_length_def is_varint_def)
    then show ?thesis using decode_remaining_length_varint [of vs rest] eq by auto
  qed
  have bound: "varint_value vs < 2 ^ 28" if "is_varint vs" for vs
  proof -
    have "varint_value vs < 128 ^ length vs" by (rule varint_value_less)
    also have "\<dots> \<le> 128 ^ 4" using that by (intro power_increasing) (auto simp: is_varint_def)
    finally show ?thesis by simp
  qed
  show ?thesis
  proof (intro conjI iffI)
    assume "decode_remaining_length bs = Inr v"
    then show "\<exists>vs rest. bs = vs @ rest \<and> is_varint vs \<and> v = varint_value vs \<and> v < 2 ^ 28"
      using dec bound by metis
  next
    assume "\<exists>vs rest. bs = vs @ rest \<and> is_varint vs \<and> v = varint_value vs \<and> v < 2 ^ 28"
    then show "decode_remaining_length bs = Inr v" by (auto simp: decode_remaining_length_varint)
  qed (rule sub)
qed

text \<open>
  C26: framing. Over any byte stream, in whatever pieces it delivers its bytes, reading a packet
  consumes exactly the bytes of the next frame that fits the buffer, hands precisely these to
  the decoder, and leaves the stream at the start of the following frame.
\<close>

theorem read_packet_frame:
  assumes "byte_stream tr incoming good" "good s"
    and "is_varint vs" "varint_value vs = length body" "1 + length vs + length body \<le> m"
    and "incoming s = (t # vs @ body) @ rest"
  shows "\<exists>s'. read_packet mq tr m s = (Some (case decode_slice mq (t # vs @ body) of
        Inl e \<Rightarrow> Inl (ReadProtocol e) | Inr (Some p) \<Rightarrow> Inr p
      | Inr None \<Rightarrow> Inl (ReadProtocol InvalidLength)), s') \<and> incoming s' = rest \<and> good s'"
  using byte_stream.read_packet_stream [OF assms] .

theorem read_packet_frame_witness:
  "\<exists>s'. read_packet example_codec mock_transport_ops 16
      (mock_feed [0, 0xE0] (mock_feed [0xC0] mock_new)) = (Some (Inr Pingreq), s')
     \<and> mock_incoming s' = [0xE0]"
proof -
  let ?s = "mock_feed [0, 0xE0] (mock_feed [0xC0] mock_new)"
  have "mock_good ?s" "mock_incoming ?s = (0xC0 # [0] @ []) @ [0xE0]"
    by (simp_all add: mock_good_def mock_incoming_def mock_feed_def mock_new_def)
  moreover have "is_varint [0]" "varint_value [0] = length []" by (simp_all add: is_varint_def)
  ultimately show ?thesis
    using read_packet_frame [OF mock.byte_stream_axioms, of ?s "[0]" "[]" 16 "0xC0" "[0xE0]" example_codec]
    by (auto simp: example_codec_def)
qed

text \<open>
  A frame buffer of at least five bytes is enough. Whatever the transport does, reading a packet
  then never indexes outside the buffer.
\<close>

theorem read_packet_no_panic:
  assumes "5 \<le> m"
  shows "fst (read_packet mq tr m s) \<noteq> None"
  using assms by (rule read_packet_total)

theorem read_packet_no_panic_witness:
  "fst (read_packet example_codec mock_transport_ops 5 mock_new) \<noteq> None
   \<and> fst (read_packet example_codec mock_transport_ops 2 (mock_feed [0x30, 0x80, 1] mock_new)) = None"
proof (intro conjI)
  show "fst (read_packet example_codec mock_transport_ops 5 mock_new) \<noteq> None"
    using read_packet_no_panic [of 5 example_codec mock_transport_ops mock_new] by simp
  show "fst (read_packet example_codec mock_transport_ops 2 (mock_feed [0x30, 0x80, 1] mock_new)) = None"
    by code_simp
qed

end
