(* ===== verification/Connect.thy ===== *)
theory Connect
  imports Registry Frame Bytes
begin

text \<open>
  CONNECT handling, \<^verbatim>\<open>crates/GatoMQTT/src/handler/connect.rs\<close>: the checks on protocol, client
  identifier and house token, resuming or replacing a session, and the CONNACK. \<open>as_bytes\<close> of a
  Rust string is \<open>str_bytes\<close>.
\<close>

section \<open>Data\<close>

record house_token =
  tok_username :: string
  tok_password :: string

record connect_outcome =
  oc_session_id :: session_id
  displaced_lwt :: "lwt_message option"
  oc_session_present :: bool

datatype prepared_connect = PAccepted connect_outcome | PRejected connect_return_code

datatype 'e connect_error = CRejected connect_return_code | CWrite "'e write_error"
  | CRegistry registry_error | ClientIdTooLong | WillTopicTooLong | WillPayloadTooLarge

section \<open>Credentials\<close>

definition byte_at :: "bytes \<Rightarrow> nat \<Rightarrow> byte" where
  "byte_at bs i = (if i < length bs then bs ! i else 0)"

definition ct_eq :: "bytes \<Rightarrow> bytes \<Rightarrow> bool" where
  "ct_eq lhs rhs =
     (let max_len = max (length lhs) (length rhs);
          diff = fold (\<lambda>idx diff. diff OR unat (byte_at lhs idx XOR byte_at rhs idx))
                   [0..<max_len] (length lhs XOR length rhs)
      in diff = 0)"

definition matches_house_token :: "connect \<Rightarrow> house_token \<Rightarrow> bool" where
  "matches_house_token p tok =
     (case username p of
        None \<Rightarrow> False
      | Some u \<Rightarrow>
          (case password p of
             None \<Rightarrow> False
           | Some pw \<Rightarrow> ct_eq (str_bytes u) (str_bytes (tok_username tok))
                          \<and> ct_eq pw (str_bytes (tok_password tok))))"

section \<open>Conversions\<close>

definition to_client_id :: "string \<Rightarrow> 'e connect_error + string" where
  "to_client_id cid = ok_or ClientIdTooLong (from_slice 64 cid)"

definition to_lwt :: "connect \<Rightarrow> 'e connect_error + lwt_message option" where
  "to_lwt p =
     (case last_will p of
        None \<Rightarrow> Inr None
      | Some w \<Rightarrow>
          (case from_slice 128 (will_topic w) of
             None \<Rightarrow> Inl WillTopicTooLong
           | Some topic \<Rightarrow>
               (case from_slice 512 (will_message w) of
                  None \<Rightarrow> Inl WillPayloadTooLarge
                | Some payload \<Rightarrow>
                    Inr (Some \<lparr>lwt_topic = topic, lwt_payload = payload, lwt_qos = will_qos w,
                               lwt_retain = will_retain w\<rparr>))))"

section \<open>The registry side of CONNECT\<close>

definition displace_session ::
  "string \<Rightarrow> session_registry \<Rightarrow> lwt_message option \<times> session_registry" where
  "displace_session cid r =
     (case find_by_client_id cid r of
        None \<Rightarrow> (None, r)
      | Some existing_id \<Rightarrow>
          (case registry_remove existing_id r of
             (Some previous, r1) \<Rightarrow> (lwt previous, r1)
           | (None, r1) \<Rightarrow> (None, r1)))"

text \<open>The tail of \<open>prepare_connect\<close>: a clean session, or no session to resume.\<close>

definition connect_fresh ::
  "session_registry \<Rightarrow> connect \<Rightarrow> ('e connect_error + prepared_connect) \<times> session_registry" where
  "connect_fresh r p =
     (let (displaced, r1) = displace_session (client_id p) r
      in if registry_is_full r1
         then (case displaced of
                 None \<Rightarrow> (Inr (PRejected ServerUnavailable), r1)
               | Some l \<Rightarrow>
                   (case record_published_lwt l r1 of
                      (Inl e, r2) \<Rightarrow> (Inl (CRegistry e), r2)
                    | (Inr _, r2) \<Rightarrow> (Inr (PRejected ServerUnavailable), r2)))
         else (case to_client_id (client_id p) of
                 Inl e \<Rightarrow> (Inl e, r1)
               | Inr cid \<Rightarrow>
                   (case to_lwt p of
                      Inl e \<Rightarrow> (Inl e, r1)
                    | Inr will \<Rightarrow>
                        (case registry_insert ((session_new cid (keep_alive p))\<lparr>lwt := will\<rparr>) r1 of
                           (Inl e, r2) \<Rightarrow> (Inl (CRegistry e), r2)
                         | (Inr sid, r2) \<Rightarrow>
                             (let accepted = Inr (PAccepted \<lparr>oc_session_id = sid,
                                    displaced_lwt = displaced, oc_session_present = False\<rparr>)
                              in case displaced of
                                   None \<Rightarrow> (accepted, r2)
                                 | Some l \<Rightarrow>
                                     (case record_published_lwt l r2 of
                                        (Inl e, r3) \<Rightarrow> (Inl (CRegistry e), r3)
                                      | (Inr _, r3) \<Rightarrow> (accepted, r3)))))))"

definition prepare_connect ::
  "session_registry \<Rightarrow> connect \<Rightarrow> house_token
     \<Rightarrow> ('e connect_error + prepared_connect) \<times> session_registry" where
  "prepare_connect r p tok =
     (if protocol p \<noteq> MQTT311 then (Inr (PRejected RefusedProtocolVersion), r)
      else if client_id p = [] then (Inr (PRejected RefusedIdentifierRejected), r)
      else if \<not> matches_house_token p tok then (Inr (PRejected BadUsernamePassword), r)
      else if clean_session p then connect_fresh r p
      else (case find_by_client_id (client_id p) r of
              Some existing_id \<Rightarrow>
                (case to_lwt p of
                   Inl e \<Rightarrow> (Inl e, r)
                 | Inr will \<Rightarrow>
                     (Inr (PAccepted \<lparr>oc_session_id = existing_id, displaced_lwt = None,
                             oc_session_present = True\<rparr>),
                      registry_get_mut existing_id
                        (\<lambda>session. session\<lparr>lwt := will, keepalive_secs := keep_alive p,
                           quarantined := False, outbox_drops := 0\<rparr>) r))
            | None \<Rightarrow> connect_fresh r p))"

section \<open>With the transport\<close>

definition write_connack ::
  "mqttrs \<Rightarrow> ('s, 'e) transport \<Rightarrow> nat \<Rightarrow> connect_return_code \<Rightarrow> bool \<Rightarrow> 's
     \<Rightarrow> ('e write_error + unit) \<times> 's" where
  "write_connack mq tr m ret present s =
     write_packet mq tr m (Connack \<lparr>session_present = present, code = ret\<rparr>) s"

definition reject_connect ::
  "mqttrs \<Rightarrow> ('s, 'e) transport \<Rightarrow> nat \<Rightarrow> connect_return_code \<Rightarrow> 's
     \<Rightarrow> ('e connect_error + connect_outcome) \<times> 's" where
  "reject_connect mq tr m ret s =
     (case write_connack mq tr m ret False s of
        (Inl e, s') \<Rightarrow> (Inl (CWrite e), s')
      | (Inr _, s') \<Rightarrow> (Inl (CRejected ret), tr_close tr s'))"

text \<open>
  \<open>prepare_connect\<close> has an uninhabited transport error (\<open>Infallible\<close>), so its \<open>Write\<close>
  errors do not arise; the other errors are passed on.
\<close>

definition handle_connect_with_outcome ::
  "mqttrs \<Rightarrow> ('s, 'e) transport \<Rightarrow> nat \<Rightarrow> session_registry \<Rightarrow> connect \<Rightarrow> house_token \<Rightarrow> 's
     \<Rightarrow> ('e connect_error + connect_outcome) \<times> session_registry \<times> 's" where
  "handle_connect_with_outcome mq tr m r p tok s =
     (case (prepare_connect r p tok :: ('e connect_error + prepared_connect) \<times> session_registry) of
        (Inr (PAccepted outcome), r') \<Rightarrow>
          (case write_connack mq tr m Accepted (oc_session_present outcome) s of
             (Inl e, s') \<Rightarrow> (Inl (CWrite e), r', s')
           | (Inr _, s') \<Rightarrow> (Inr outcome, r', s'))
      | (Inr (PRejected ret), r') \<Rightarrow> (let (res, s') = reject_connect mq tr m ret s in (res, r', s'))
      | (Inl (CRejected ret), r') \<Rightarrow> (let (res, s') = reject_connect mq tr m ret s in (res, r', s'))
      | (Inl e, r') \<Rightarrow> (Inl e, r', s))"

definition handle_connect ::
  "mqttrs \<Rightarrow> ('s, 'e) transport \<Rightarrow> nat \<Rightarrow> session_registry \<Rightarrow> connect \<Rightarrow> house_token \<Rightarrow> 's
     \<Rightarrow> ('e connect_error + session_id) \<times> session_registry \<times> 's" where
  "handle_connect mq tr m r p tok s =
     apfst (map_sum id oc_session_id) (handle_connect_with_outcome mq tr m r p tok s)"

section \<open>Lemmas\<close>

lemma fold_or_eq_0: "fold (\<lambda>i d. d OR g i) xs d0 = (0::nat) \<longleftrightarrow> d0 = 0 \<and> (\<forall>i\<in>set xs. g i = 0)"
  by (induction xs arbitrary: d0) (auto simp: or_eq_0_iff)

lemma xor_nat_eq_0: "(m XOR n = 0) \<longleftrightarrow> m = n" for m n :: nat
  by (auto simp: bit_eq_iff bit_simps)

lemma xor_byte_eq_0: "unat (a XOR b) = 0 \<longleftrightarrow> a = b" for a b :: byte
  by (simp add: unat_eq_0) (auto simp: bit_eq_iff bit_simps)

lemma ct_eq_iff: "ct_eq lhs rhs \<longleftrightarrow> lhs = rhs"
  by (auto simp: ct_eq_def Let_def fold_or_eq_0 xor_nat_eq_0 xor_byte_eq_0 byte_at_def
      intro!: nth_equalityI)

lemma matches_house_token_iff:
  "matches_house_token p tok \<longleftrightarrow>
   username p = Some (tok_username tok) \<and> password p = Some (str_bytes (tok_password tok))"
  by (auto simp: matches_house_token_def ct_eq_iff str_bytes_eq_iff split: option.splits)

lemma to_lwt_inv: "to_lwt p = Inr (Some l) \<Longrightarrow> lwt_inv l"
  by (auto simp: to_lwt_def lwt_inv_def split: option.splits)

lemma displace_session_spec:
  assumes "registry_inv ms r" "displace_session cid r = (d, r1)"
  shows "registry_inv ms r1" "find_by_client_id cid r1 = None" "\<And>l. d = Some l \<Longrightarrow> lwt_inv l"
    "registry_get r1 = (\<lambda>j. if find_by_client_id cid r = Some j then None else registry_get r j)"
    "length (slots r1) = length (slots r)" "length (stored_publishes r1) = length (stored_publishes r)"
    "find_by_client_id cid r = None \<Longrightarrow> d = None \<and> r1 = r"
proof -
  have "registry_inv ms r1 \<and> (\<forall>l. d = Some l \<longrightarrow> lwt_inv l)
    \<and> registry_get r1 = (\<lambda>j. if find_by_client_id cid r = Some j then None else registry_get r j)
    \<and> length (slots r1) = length (slots r) \<and> length (stored_publishes r1) = length (stored_publishes r)
    \<and> (find_by_client_id cid r = None \<longrightarrow> d = None \<and> r1 = r)"
  proof (cases "find_by_client_id cid r")
    case (Some i)
    obtain st where st: "registry_get r i = Some st" using find_by_client_id_SomeD [OF Some] by blast
    then have "registry_remove i r = (Some st, snd (registry_remove i r))"
      using remove_result [of i r] by (simp add: prod_eq_iff)
    then have "d = lwt st" "r1 = snd (registry_remove i r)"
      using assms(2) Some by (auto simp: displace_session_def split: prod.splits)
    then show ?thesis
      using Some remove_inv [OF assms(1), of i] inv_session [OF assms(1) st]
      by (auto simp: remove_get remove_frame session_inv_def)
  qed (use assms in \<open>auto simp: displace_session_def\<close>)
  then show "registry_inv ms r1" "\<And>l. d = Some l \<Longrightarrow> lwt_inv l"
    "length (slots r1) = length (slots r)" "length (stored_publishes r1) = length (stored_publishes r)"
    "find_by_client_id cid r = None \<Longrightarrow> d = None \<and> r1 = r"
    and get: "registry_get r1 = (\<lambda>j. if find_by_client_id cid r = Some j then None else registry_get r j)"
    by auto
  have "sess_client_id st \<noteq> cid" if "registry_get r1 j = Some st" for j st
    using that find_by_client_id_eq [OF inv_unique [OF assms(1)], of j st] by (auto simp: get split: if_splits)
  then show "find_by_client_id cid r1 = None"
    using find_by_client_id_SomeD [of cid r1] by (cases "find_by_client_id cid r1") auto
qed

lemma record_lwt_get: "record_published_lwt l r = (res, r') \<Longrightarrow> registry_get r' = registry_get r"
  by (auto simp: record_published_lwt_def registry_get_def fun_eq_iff split: option.splits)

definition fresh_session :: "connect \<Rightarrow> lwt_message option \<Rightarrow> session_state" where
  "fresh_session p will = (session_new (client_id p) (keep_alive p))\<lparr>lwt := will\<rparr>"

lemma fresh_session_inv:
  "length (client_id p) \<le> 64 \<Longrightarrow> to_lwt p = Inr will \<Longrightarrow> session_inv ms mi (fresh_session p will)"
  using session_new_inv [of "client_id p" ms mi "keep_alive p"] to_lwt_inv [of p]
  by (auto simp: session_inv_def fresh_session_def)

lemma fresh_session_simps [simp]:
  "sess_client_id (fresh_session p will) = client_id p" "inflight (fresh_session p will) = []"
  "subscriptions (fresh_session p will) = []" "outbox (fresh_session p will) = []"
  "keepalive_secs (fresh_session p will) = keep_alive p" "lwt (fresh_session p will) = will"
  "outbox_drops (fresh_session p will) = 0" "\<not> quarantined (fresh_session p will)"
  by (simp_all add: fresh_session_def session_new_def)

lemma insert_fresh:
  assumes "registry_inv ms r1" "find_by_client_id (client_id p) r1 = None" "\<not> registry_is_full r1"
    and "length (client_id p) \<le> 64" "to_lwt p = Inr will"
  obtains sid r2 where "registry_insert (fresh_session p will) r1 = (Inr sid, r2)"
    "registry_get r1 sid = None" "registry_get r2 = (registry_get r1)(sid \<mapsto> fresh_session p will)"
    "registry_inv ms r2"
proof -
  obtain sid r2 where ins: "registry_insert (fresh_session p will) r1 = (Inr sid, r2)"
    using insert_not_full [OF inv_slots_ok [OF assms(1)] assms(3)] by blast
  have "registry_inv ms r2"
    by (rule insert_inv [OF assms(1) ins])
      (use fresh_session_inv [OF assms(4,5)] find_by_client_id_NoneD [OF assms(2)] in simp_all)
  then show ?thesis
    using that [OF ins] insert_okD [OF ins inv_slots_ok [OF assms(1)]] by blast
qed

lemma connect_fresh_def':
  "connect_fresh r p =
     (case displace_session (client_id p) r of (displaced, r1) \<Rightarrow>
        if registry_is_full r1
        then (case displaced of
                None \<Rightarrow> (Inr (PRejected ServerUnavailable), r1)
              | Some l \<Rightarrow>
                  (case record_published_lwt l r1 of
                     (Inl e, r2) \<Rightarrow> (Inl (CRegistry e), r2)
                   | (Inr _, r2) \<Rightarrow> (Inr (PRejected ServerUnavailable), r2)))
        else if 64 < length (client_id p) then (Inl ClientIdTooLong, r1)
        else (case to_lwt p of
                Inl e \<Rightarrow> (Inl e, r1)
              | Inr will \<Rightarrow>
                  (case registry_insert (fresh_session p will) r1 of
                     (Inl e, r2) \<Rightarrow> (Inl (CRegistry e), r2)
                   | (Inr sid, r2) \<Rightarrow>
                       (let accepted = Inr (PAccepted \<lparr>oc_session_id = sid,
                              displaced_lwt = displaced, oc_session_present = False\<rparr>)
                        in case displaced of
                             None \<Rightarrow> (accepted, r2)
                           | Some l \<Rightarrow>
                               (case record_published_lwt l r2 of
                                  (Inl e, r3) \<Rightarrow> (Inl (CRegistry e), r3)
                                | (Inr _, r3) \<Rightarrow> (accepted, r3))))))"
  by (simp add: connect_fresh_def to_client_id_def ok_or_def from_slice_def fresh_session_def not_less
      split: prod.split sum.split)

lemma connect_fresh_code: "connect_fresh r p = (Inr (PRejected c), r') \<Longrightarrow> c = ServerUnavailable"
  by (auto simp: connect_fresh_def' Let_def split: prod.splits option.splits sum.splits if_splits)

lemma connect_fresh_inv:
  assumes "registry_inv ms r"
  shows "registry_inv ms (snd (connect_fresh r p :: ('e connect_error + prepared_connect) \<times> session_registry))"
proof -
  obtain d r1 where dis: "displace_session (client_id p) r = (d, r1)" by fastforce
  note d = displace_session_spec [OF assms dis]
  have rec: "registry_inv ms (snd (record_published_lwt l q))" if "d = Some l" "registry_inv ms q" for l q
    using record_lwt_inv [OF that(2)] d(3) [OF that(1)] by simp
  show ?thesis
  proof (cases "registry_is_full r1 \<or> 64 < length (client_id p)")
    case True
    then show ?thesis
      using d(1) rec [OF _ d(1)]
      by (auto simp: connect_fresh_def' dis split: option.split prod.split sum.split)
  next
    case False
    show ?thesis
    proof (cases "to_lwt p :: 'e connect_error + lwt_message option")
      case (Inr will)
      have ok: "\<not> registry_is_full r1" "length (client_id p) \<le> 64" using False by auto
      obtain sid r2 where "registry_insert (fresh_session p will) r1 = (Inr sid, r2)" "registry_inv ms r2"
        by (rule insert_fresh [OF d(1,2) ok Inr])
      then show ?thesis
        using False Inr rec [of _ r2]
        by (auto simp: connect_fresh_def' dis Let_def split: option.split prod.split sum.split)
    qed (use False d(1) in \<open>simp add: connect_fresh_def' dis\<close>)
  qed
qed

lemma connect_fresh_accepted:
  assumes "registry_inv ms r"
    and "(connect_fresh r p :: ('e connect_error + prepared_connect) \<times> session_registry) = (Inr (PAccepted oc), r')"
  obtains will where "(to_lwt p :: 'e connect_error + lwt_message option) = Inr will"
    "registry_get r (oc_session_id oc) = None \<or> find_by_client_id (client_id p) r = Some (oc_session_id oc)"
    "registry_get r' = (\<lambda>j. if find_by_client_id (client_id p) r = Some j then None else registry_get r j)
       (oc_session_id oc \<mapsto> fresh_session p will)"
    "\<not> oc_session_present oc"
proof -
  obtain d r1 where dis: "displace_session (client_id p) r = (d, r1)" by fastforce
  note d = displace_session_spec [OF assms(1) dis]
  obtain will where ok: "\<not> registry_is_full r1" "length (client_id p) \<le> 64"
      "(to_lwt p :: 'e connect_error + lwt_message option) = Inr will"
    using assms(2) by (auto simp: connect_fresh_def' dis split: if_splits option.splits prod.splits sum.splits)
  obtain sid r2 where ins: "registry_insert (fresh_session p will) r1 = (Inr sid, r2)"
      "registry_get r1 sid = None" "registry_get r2 = (registry_get r1)(sid \<mapsto> fresh_session p will)"
    using insert_fresh [OF d(1,2) ok] by blast
  have "oc = \<lparr>oc_session_id = sid, displaced_lwt = d, oc_session_present = False\<rparr>" "registry_get r' = registry_get r2"
    using assms(2) ok ins(1)
    by (auto simp: connect_fresh_def' dis Let_def record_lwt_get split: option.splits prod.splits sum.splits)
  then show ?thesis
    using that [OF ok(3)] ins(2,3) d(4) by (auto split: if_splits)
qed

lemma prepare_connect_inv:
  assumes "registry_inv ms r"
  shows "registry_inv ms (snd (prepare_connect r p tok :: ('e connect_error + prepared_connect) \<times> session_registry))"
proof -
  have "registry_inv ms (registry_get_mut i (\<lambda>session. session\<lparr>lwt := will, keepalive_secs := k,
      quarantined := False, outbox_drops := 0\<rparr>) r)"
    if "(to_lwt p :: 'e connect_error + lwt_message option) = Inr will" for i will k
  proof -
    have "registry_wf ms (registry_get_mut i (\<lambda>session. session\<lparr>lwt := will, keepalive_secs := k,
        quarantined := False, outbox_drops := 0\<rparr>) r)"
    proof (rule wf_get_mut)
      fix st
      assume "registry_get r i = Some st"
      then have "session_inv ms (length (stored_publishes r)) st" by (rule inv_session [OF assms])
      then show "session_inv ms (length (stored_publishes r)) (st\<lparr>lwt := will, keepalive_secs := k,
          quarantined := False, outbox_drops := 0\<rparr>)
        \<and> sess_client_id (st\<lparr>lwt := will, keepalive_secs := k, quarantined := False, outbox_drops := 0\<rparr>)
          = sess_client_id st"
        using that to_lwt_inv [of p] by (auto simp: session_inv_def)
    qed (use assms in \<open>simp add: registry_inv_def\<close>)
    then show ?thesis using assms by (simp add: registry_inv_def refs_ok_get_mut)
  qed
  then show ?thesis
    using assms connect_fresh_inv [OF assms, of p]
    by (auto simp: prepare_connect_def split: option.split sum.split)
qed

section \<open>Properties\<close>

text \<open>
  C29: authentication. A CONNECT is accepted only when it speaks MQTT 3.1.1, names a client,
  and carries exactly the house token's user name and password: the constant-time
  comparison is equality. A refused CONNECT gets the code of the first check that fails, and none of these
  refusals touches the registry.
\<close>

theorem connect_authenticated:
  assumes "prepare_connect r p tok = (res, r')"
  shows "if protocol p \<noteq> MQTT311 then res = Inr (PRejected RefusedProtocolVersion) \<and> r' = r
    else if client_id p = [] then res = Inr (PRejected RefusedIdentifierRejected) \<and> r' = r
    else if username p \<noteq> Some (tok_username tok) \<or> password p \<noteq> Some (str_bytes (tok_password tok))
      then res = Inr (PRejected BadUsernamePassword) \<and> r' = r
    else res \<notin> {Inr (PRejected RefusedProtocolVersion), Inr (PRejected RefusedIdentifierRejected),
      Inr (PRejected BadUsernamePassword)}"
  using assms
  by (auto simp: prepare_connect_def matches_house_token_iff dest: connect_fresh_code
      split: if_splits option.splits sum.splits)

definition example_connect :: connect where
  "example_connect =
     \<lparr>protocol = MQTT311, keep_alive = 60, client_id = ''panel'', clean_session = True, last_will = None,
      username = Some ''house'', password = Some (str_bytes ''secret'')\<rparr>"

definition example_token :: house_token where
  "example_token = \<lparr>tok_username = ''house'', tok_password = ''secret''\<rparr>"

theorem connect_authenticated_witness:
  "(prepare_connect (registry_new 2 2) (example_connect\<lparr>password := Some [0]\<rparr>) example_token
      :: (unit connect_error + prepared_connect) \<times> session_registry) =
     (Inr (PRejected BadUsernamePassword), registry_new 2 2)
   \<and> fst (prepare_connect (registry_new 2 2) example_connect example_token) =
     (Inr (PAccepted \<lparr>oc_session_id = 0, displaced_lwt = None, oc_session_present = False\<rparr>)
        :: unit connect_error + prepared_connect)"
proof (intro conjI)
  let ?c = "prepare_connect (registry_new 2 2) (example_connect\<lparr>password := Some [0]\<rparr>) example_token
      :: (unit connect_error + prepared_connect) \<times> session_registry"
  show "?c = (Inr (PRejected BadUsernamePassword), registry_new 2 2)"
    using connect_authenticated [of "registry_new 2 2" "example_connect\<lparr>password := Some [0]\<rparr>"
        example_token "fst ?c" "snd ?c"]
    by (simp add: example_connect_def example_token_def str_bytes_def prod_eq_iff)
qed code_simp

text \<open>
  C5: an accepted CONNECT. The session it names belongs to the connecting client and has the
  packet's keep-alive and will and a clean backpressure state. A session is resumed exactly when the packet
  does not ask for a clean session and one exists: then subscriptions, in-flight entries and
  queued packets are kept; otherwise the session starts empty and replaces any old one. No other session changes, and
  the registry keeps its invariant.
\<close>

theorem connect_accepted:
  assumes "registry_inv ms r"
    and "(prepare_connect r p tok :: ('e connect_error + prepared_connect) \<times> session_registry) = (Inr (PAccepted oc), r')"
  shows "registry_inv ms r'
    \<and> (oc_session_present oc \<longleftrightarrow> \<not> clean_session p \<and> find_by_client_id (client_id p) r \<noteq> None)
    \<and> (\<exists>st. registry_get r' (oc_session_id oc) = Some st \<and> sess_client_id st = client_id p
        \<and> keepalive_secs st = keep_alive p \<and> (to_lwt p :: 'e connect_error + lwt_message option) = Inr (lwt st)
        \<and> \<not> quarantined st \<and> outbox_drops st = 0
        \<and> (if oc_session_present oc
           then \<exists>old. registry_get r (oc_session_id oc) = Some old \<and> sess_client_id old = client_id p
             \<and> subscriptions st = subscriptions old \<and> inflight st = inflight old \<and> outbox st = outbox old
           else subscriptions st = [] \<and> inflight st = [] \<and> outbox st = []))
    \<and> (\<forall>j. j \<noteq> oc_session_id oc \<longrightarrow> registry_get r' j =
         (if find_by_client_id (client_id p) r = Some j then None else registry_get r j))"
proof -
  have inv: "registry_inv ms r'"
    using prepare_connect_inv [OF assms(1), of p tok, where 'e = 'e] assms(2) by simp
  show ?thesis
  proof (cases "\<not> clean_session p \<and> find_by_client_id (client_id p) r \<noteq> None")
    case True
    then obtain i where i: "find_by_client_id (client_id p) r = Some i" "\<not> clean_session p" by blast
    obtain old where old: "registry_get r i = Some old" "sess_client_id old = client_id p"
      using find_by_client_id_SomeD [OF i(1)] by blast
    show ?thesis
      using assms(2) i old inv
      by (auto simp: prepare_connect_def get_mut_get split: if_splits sum.splits)
  next
    case False
    then have fresh: "(connect_fresh r p :: ('e connect_error + prepared_connect) \<times> session_registry)
        = (Inr (PAccepted oc), r')"
      using assms(2) by (auto simp: prepare_connect_def split: if_splits option.splits)
    obtain will where "(to_lwt p :: 'e connect_error + lwt_message option) = Inr will"
      "registry_get r' = (\<lambda>j. if find_by_client_id (client_id p) r = Some j then None else registry_get r j)
         (oc_session_id oc \<mapsto> fresh_session p will)" "\<not> oc_session_present oc"
      by (rule connect_fresh_accepted [OF assms(1) fresh])
    with False inv show ?thesis by auto
  qed
qed

theorem connect_accepted_witness:
  "\<exists>oc r'. (prepare_connect example_registry (example_connect\<lparr>client_id := ''c'', clean_session := False\<rparr>)
        example_token :: (unit connect_error + prepared_connect) \<times> session_registry) = (Inr (PAccepted oc), r')
     \<and> oc_session_present oc \<and> registry_inv 4 r'"
proof -
  let ?p = "example_connect\<lparr>client_id := ''c'', clean_session := False\<rparr>"
  have "fst (prepare_connect example_registry ?p example_token :: (unit connect_error + prepared_connect) \<times> session_registry)
      = Inr (PAccepted \<lparr>oc_session_id = 0, displaced_lwt = None, oc_session_present = True\<rparr>)"
    by code_simp
  then obtain r' where "(prepare_connect example_registry ?p example_token
        :: (unit connect_error + prepared_connect) \<times> session_registry)
      = (Inr (PAccepted \<lparr>oc_session_id = 0, displaced_lwt = None, oc_session_present = True\<rparr>), r')"
    by (metis prod.collapse)
  then show ?thesis
    using connect_accepted [OF example_registry_inv, of ?p example_token, where 'e = unit] by force
qed

end
