(* ===== verification/Retained.thy ===== *)
theory Retained
  imports Topics
begin

text \<open>
  The retained-message store of \<^verbatim>\<open>crates/GatoMQTT/src/router/retained.rs\<close>: a vector of
  at most \<open>N\<close> entries, one per topic. It is shown to implement a finite map from
  topics to messages in which an empty payload deletes.
\<close>

section \<open>State and operations\<close>

record retained_entry =
  ret_topic :: string
  ret_payload :: bytes
  ret_qos :: qos

datatype retained_error = TopicTooLong | PayloadTooLarge | RetainedFull

record retained_store =
  entries :: "retained_entry list"

definition retained_new :: retained_store where
  "retained_new = \<lparr>entries = []\<rparr>"

definition retained_set ::
  "nat \<Rightarrow> string \<Rightarrow> bytes \<Rightarrow> qos \<Rightarrow> retained_store \<Rightarrow> (retained_error + unit) \<times> retained_store" where
  "retained_set n topic payload q rs =
     (case from_slice 128 topic of
        None \<Rightarrow> (Inl TopicTooLong, rs)
      | Some topic' \<Rightarrow>
          (case position (\<lambda>e. ret_topic e = topic') (entries rs) of
             Some index \<Rightarrow>
               (if payload = [] then (Inr (), rs\<lparr>entries := remove_at index (entries rs)\<rparr>)
                else (case from_slice 512 payload of
                        None \<Rightarrow> (Inl PayloadTooLarge, rs)
                      | Some payload' \<Rightarrow>
                          (Inr (), rs\<lparr>entries := (entries rs)
                             [index := (entries rs ! index)\<lparr>ret_payload := payload', ret_qos := q\<rparr>]\<rparr>)))
           | None \<Rightarrow>
               (if payload = [] then (Inr (), rs)
                else (case from_slice 512 payload of
                        None \<Rightarrow> (Inl PayloadTooLarge, rs)
                      | Some payload' \<Rightarrow>
                          (case vec_push n \<lparr>ret_topic = topic', ret_payload = payload', ret_qos = q\<rparr>
                                  (entries rs) of
                             None \<Rightarrow> (Inl RetainedFull, rs)
                           | Some es \<Rightarrow> (Inr (), rs\<lparr>entries := es\<rparr>))))))"

definition retained_iter :: "retained_store \<Rightarrow> retained_entry list" where
  "retained_iter rs = entries rs"

definition retained_matching :: "string \<Rightarrow> retained_store \<Rightarrow> retained_entry list" where
  "retained_matching flt rs = filter (\<lambda>e. topic_matches flt (ret_topic e)) (entries rs)"

definition retained_len :: "retained_store \<Rightarrow> nat" where
  "retained_len rs = length (entries rs)"

section \<open>The store as a map\<close>

definition entry_ok :: "retained_entry \<Rightarrow> bool" where
  "entry_ok e \<longleftrightarrow> length (ret_topic e) \<le> 128 \<and> ret_payload e \<noteq> [] \<and> length (ret_payload e) \<le> 512"

definition retained_inv :: "nat \<Rightarrow> retained_store \<Rightarrow> bool" where
  "retained_inv n rs \<longleftrightarrow>
     length (entries rs) \<le> n \<and> distinct (map ret_topic (entries rs)) \<and> (\<forall>e\<in>set (entries rs). entry_ok e)"

definition retained_abs :: "retained_store \<Rightarrow> string \<Rightarrow> (bytes \<times> qos) option" where
  "retained_abs rs = map_of (map (\<lambda>e. (ret_topic e, (ret_payload e, ret_qos e))) (entries rs))"

lemma retained_new_inv: "retained_inv n retained_new"
  by (simp add: retained_inv_def retained_new_def)

lemma retained_abs_iff:
  "retained_inv n rs \<Longrightarrow> retained_abs rs t = Some (p, q) \<longleftrightarrow>
   \<lparr>ret_topic = t, ret_payload = p, ret_qos = q\<rparr> \<in> set (entries rs)"
proof -
  assume "retained_inv n rs"
  then have d: "distinct (map fst (map (\<lambda>e. (ret_topic e, (ret_payload e, ret_qos e))) (entries rs)))"
    by (simp add: retained_inv_def comp_def)
  let ?f = "\<lambda>e :: retained_entry. (ret_topic e, (ret_payload e, ret_qos e))"
  have "inj ?f" by (auto intro!: injI retained_entry.equality)
  then have "?f \<lparr>ret_topic = t, ret_payload = p, ret_qos = q\<rparr> \<in> ?f ` set (entries rs)
      \<longleftrightarrow> \<lparr>ret_topic = t, ret_payload = p, ret_qos = q\<rparr> \<in> set (entries rs)"
    by (rule inj_image_mem_iff)
  then show ?thesis
    unfolding retained_abs_def map_of_eq_Some_iff [OF d] by simp
qed

lemma retained_pos_iff:
  "position (\<lambda>e. ret_topic e = t) (entries rs) = None \<longleftrightarrow> retained_abs rs t = None"
  by (auto simp: position_None retained_abs_def map_of_eq_None_iff image_iff)

lemma map_of_split:
  assumes "distinct (map f (ys @ e # zs))"
  shows "map_of (map (\<lambda>e. (f e, g e)) (ys @ zs)) = (map_of (map (\<lambda>e. (f e, g e)) (ys @ e # zs)))(f e := None)"
    and "f e' = f e \<Longrightarrow> map_of (map (\<lambda>e. (f e, g e)) (ys @ e' # zs))
      = (map_of (map (\<lambda>e. (f e, g e)) (ys @ e # zs)))(f e \<mapsto> g e')"
proof -
  have "f e \<notin> fst ` set (map (\<lambda>e. (f e, g e)) ys)" "f e \<notin> fst ` set (map (\<lambda>e. (f e, g e)) zs)"
    using assms by (auto simp: image_iff)
  then have "map_of (map (\<lambda>e. (f e, g e)) ys) (f e) = None" "map_of (map (\<lambda>e. (f e, g e)) zs) (f e) = None"
    by (simp_all only: map_of_eq_None_iff not_False_eq_True)
  then show "map_of (map (\<lambda>e. (f e, g e)) (ys @ zs))
        = (map_of (map (\<lambda>e. (f e, g e)) (ys @ e # zs)))(f e := None)"
    and "f e' = f e \<Longrightarrow> map_of (map (\<lambda>e. (f e, g e)) (ys @ e' # zs))
      = (map_of (map (\<lambda>e. (f e, g e)) (ys @ e # zs)))(f e \<mapsto> g e')"
    by (auto simp: fun_eq_iff map_add_def split: option.splits)
qed

lemma retained_set_cases:
  assumes "retained_inv n rs" "length t \<le> 128" "length p \<le> 512"
  obtains (full) "retained_set n t p q rs = (Inl RetainedFull, rs)" "p \<noteq> []" "retained_abs rs t = None"
      "length (entries rs) = n"
  | (stored) rs' where "retained_set n t p q rs = (Inr (), rs')" "retained_inv n rs'"
      "retained_abs rs' = (retained_abs rs)(t := if p = [] then None else Some (p, q))"
      "p = [] \<or> retained_abs rs t \<noteq> None \<or> length (entries rs) < n"
proof (cases "position (\<lambda>e. ret_topic e = t) (entries rs)")
  case None
  then have abs: "retained_abs rs t = None" by (simp add: retained_pos_iff)
  have notin: "\<forall>e\<in>set (entries rs). ret_topic e \<noteq> t" using None by (simp add: position_None)
  consider "p = []" | "p \<noteq> []" "length (entries rs) = n" | "p \<noteq> []" "length (entries rs) < n"
    using assms(1) by (fastforce simp: retained_inv_def)
  then show ?thesis
  proof cases
    case 1
    then show ?thesis using None abs assms by (intro stored [of rs]) (auto simp: retained_set_def fun_eq_iff)
  next
    case 2
    then show ?thesis using None abs assms by (intro full) (auto simp: retained_set_def)
  next
    case 3
    show ?thesis
      by (rule stored [of "rs\<lparr>entries := entries rs @ [\<lparr>ret_topic = t, ret_payload = p, ret_qos = q\<rparr>]\<rparr>"])
        (use 3 None abs assms notin in \<open>auto simp: retained_set_def retained_inv_def entry_ok_def
          retained_abs_def fun_eq_iff map_add_def split: option.splits\<close>)
  qed
next
  case (Some i)
  obtain ys e zs where sp: "entries rs = ys @ e # zs" "length ys = i" "ret_topic e = t"
    using position_split [OF Some] by metis
  have d: "distinct (map ret_topic (ys @ e # zs))" using assms(1) sp(1) by (simp add: retained_inv_def)
  have abs: "retained_abs rs t \<noteq> None" using Some retained_pos_iff [of t rs] by auto
  show ?thesis
  proof (cases "p = []")
    case True
    show ?thesis
      by (rule stored [of "rs\<lparr>entries := ys @ zs\<rparr>"])
        (use True Some sp abs assms map_of_split(1) [OF d] in \<open>auto simp: retained_set_def remove_at_def
          retained_inv_def retained_abs_def\<close>)
  next
    case False
    show ?thesis
      by (rule stored [of "rs\<lparr>entries := ys @ e\<lparr>ret_payload := p, ret_qos := q\<rparr> # zs\<rparr>"])
        (use False Some sp abs assms map_of_split(2) [OF d, where e' = "e\<lparr>ret_payload := p, ret_qos := q\<rparr>"
              and g = "\<lambda>e. (ret_payload e, ret_qos e)"] in
          \<open>auto simp: retained_set_def list_update_append nth_append retained_inv_def entry_ok_def retained_abs_def\<close>)
  qed
qed

lemma retained_set_inv: "retained_inv n rs \<Longrightarrow> retained_inv n (snd (retained_set n t p q rs))"
proof -
  assume inv: "retained_inv n rs"
  show ?thesis
  proof (cases "length t \<le> 128 \<and> length p \<le> 512")
    case True
    then show ?thesis using inv by (auto elim: retained_set_cases [OF inv, of t p q])
  next
    case False
    then have "128 < length t \<or> length t \<le> 128 \<and> 512 < length p \<and> p \<noteq> []" by auto
    then show ?thesis using inv by (auto simp: retained_set_def split: option.split)
  qed
qed

lemma retained_set_too_big:
  "128 < length t \<Longrightarrow> retained_set n t p q rs = (Inl TopicTooLong, rs)"
  "length t \<le> 128 \<Longrightarrow> 512 < length p \<Longrightarrow> retained_set n t p q rs = (Inl PayloadTooLarge, rs)"
  by (auto simp: retained_set_def split: option.split)

lemma retained_card: "retained_inv n rs \<Longrightarrow> card (dom (retained_abs rs)) = length (entries rs)"
proof -
  assume "retained_inv n rs"
  then have "distinct (map ret_topic (entries rs))" by (simp add: retained_inv_def)
  moreover have "dom (retained_abs rs) = set (map ret_topic (entries rs))"
    by (auto simp: retained_abs_def dom_map_of_conv_image_fst image_iff)
  ultimately show ?thesis by (metis distinct_card length_map)
qed

section \<open>Properties\<close>

text \<open>
  C22: the retained store is a map. Setting a message keeps the invariant (one entry per
  topic, at most \<open>n\<close> entries, no empty payload) and changes the map at that topic only: an
  empty payload deletes, any other replaces. It fails, leaving the store as it was, exactly when the
  topic or the payload is too long for its buffer or when a new topic meets a full store.
\<close>

theorem retained_set_refines:
  assumes "retained_inv n rs"
  shows "case retained_set n t p q rs of
      (Inr _, rs') \<Rightarrow> length t \<le> 128 \<and> length p \<le> 512 \<and> retained_inv n rs'
        \<and> retained_abs rs' = (retained_abs rs)(t := if p = [] then None else Some (p, q))
    | (Inl e, rs') \<Rightarrow> rs' = rs
        \<and> (e = TopicTooLong \<longleftrightarrow> 128 < length t)
        \<and> (e = PayloadTooLarge \<longleftrightarrow> length t \<le> 128 \<and> 512 < length p)
        \<and> (e = RetainedFull \<longleftrightarrow> length t \<le> 128 \<and> length p \<le> 512 \<and> p \<noteq> []
             \<and> t \<notin> dom (retained_abs rs) \<and> card (dom (retained_abs rs)) = n)"
proof -
  consider "128 < length t" | "length t \<le> 128" "512 < length p" | "length t \<le> 128" "length p \<le> 512"
    by linarith
  then show ?thesis
  proof cases
    case 3
    show ?thesis
      by (cases rule: retained_set_cases [OF assms 3, of q])
        (use 3 retained_card [OF assms] in \<open>auto simp: domIff\<close>)
  qed (simp_all add: retained_set_too_big)
qed

theorem retained_set_refines_witness:
  "retained_abs (snd (retained_set 2 ''a/b'' [1] AtLeastOnce retained_new)) = [''a/b'' \<mapsto> ([1], AtLeastOnce)]
   \<and> fst (retained_set 0 ''a/b'' [1] AtLeastOnce retained_new) = Inl RetainedFull"
  using retained_set_refines [OF retained_new_inv [of 2], of "''a/b''" "[1]" AtLeastOnce]
    retained_set_refines [OF retained_new_inv [of 0], of "''a/b''" "[1]" AtLeastOnce]
  by (simp add: retained_set_def retained_new_def retained_abs_def)

end
