(* ===== verification/Subscribe.thy ===== *)
theory Subscribe
  imports Connect Retained
begin

text \<open>
  SUBSCRIBE and UNSUBSCRIBE, \<^verbatim>\<open>crates/GatoMQTT/src/handler/subscribe.rs\<close>. The \<open>unwrap\<close> of
  \<open>prepare_subscribe\<close> makes its model partial: \<open>None\<close> is the panic, shown not to happen.
  The running \<open>next_pid\<close> of \<open>prepare_subscribe\<close> is never read and is left out.
\<close>

section \<open>Data\<close>

datatype 'e handler_error = SessionNotFound session_id | HandlerWrite "'e write_error"

definition MAX_SUBSCRIBE_TOPICS :: nat where
  "MAX_SUBSCRIBE_TOPICS = 5"

record retained_delivery =
  rd_topic :: string
  rd_payload :: bytes
  rd_qos :: qos

record prepared_subscribe =
  ps_pid :: pid
  ps_return_codes :: "subscribe_return_code list"
  ps_retained_deliveries :: "retained_delivery list"

section \<open>Subscriptions\<close>

definition upsert_subscription ::
  "nat \<Rightarrow> string \<Rightarrow> qos \<Rightarrow> subscription list \<Rightarrow> (subscribe_return_code \<times> bool) \<times> subscription list" where
  "upsert_subscription max_subs flt q subs =
     (if \<not> is_valid_filter flt then ((Failure, False), subs)
      else (case position (\<lambda>s. sub_filter s = flt) subs of
              Some i \<Rightarrow> ((Success q, False), subs[i := (subs ! i)\<lparr>sub_qos := q\<rparr>])
            | None \<Rightarrow>
                (case from_slice 128 flt of
                   None \<Rightarrow> ((Failure, False), subs)
                 | Some flt' \<Rightarrow>
                     (case vec_push max_subs \<lparr>sub_filter = flt', sub_qos = q\<rparr> subs of
                        Some subs' \<Rightarrow> ((Success q, True), subs')
                      | None \<Rightarrow> ((Failure, False), subs)))))"

fun subscribe_topics ::
  "nat \<Rightarrow> subscribe_topic list \<Rightarrow> subscription list \<Rightarrow> subscribe_return_code list \<Rightarrow> string list
     \<Rightarrow> (subscription list \<times> subscribe_return_code list \<times> string list) option" where
  "subscribe_topics max_subs [] subs codes new_filters = Some (subs, codes, new_filters)"
| "subscribe_topics max_subs (t # ts) subs codes new_filters =
     (let ((ret, inserted), subs') = upsert_subscription max_subs (topic_path t) (topic_qos t) subs;
          codes' = push_or_drop MAX_SUBSCRIBE_TOPICS ret codes
      in if inserted \<and> ret \<noteq> Failure
         then (case from_slice 128 (topic_path t) of
                 None \<Rightarrow> None
               | Some flt \<Rightarrow> subscribe_topics max_subs ts subs' codes'
                               (push_or_drop MAX_SUBSCRIBE_TOPICS flt new_filters))
         else subscribe_topics max_subs ts subs' codes' new_filters)"

definition push_delivery :: "nat \<Rightarrow> retained_entry \<Rightarrow> retained_delivery list \<Rightarrow> retained_delivery list" where
  "push_delivery max_retained e ds =
     (case from_slice 128 (ret_topic e) of
        None \<Rightarrow> ds
      | Some topic \<Rightarrow>
          (case from_slice 512 (ret_payload e) of
             None \<Rightarrow> ds
           | Some payload \<Rightarrow>
               push_or_drop max_retained \<lparr>rd_topic = topic, rd_payload = payload, rd_qos = ret_qos e\<rparr> ds))"

definition retained_deliveries :: "nat \<Rightarrow> string list \<Rightarrow> retained_store \<Rightarrow> retained_delivery list" where
  "retained_deliveries max_retained new_filters rs =
     fold (\<lambda>flt ds. fold (push_delivery max_retained) (retained_matching flt rs) ds) new_filters []"

definition prepare_subscribe ::
  "nat \<Rightarrow> nat \<Rightarrow> subscribe \<Rightarrow> retained_store \<Rightarrow> session_state
     \<Rightarrow> (prepared_subscribe \<times> session_state) option" where
  "prepare_subscribe max_subs max_retained p rs session =
     (case subscribe_topics max_subs (sub_topics p) (subscriptions session) [] [] of
        None \<Rightarrow> None
      | Some (subs, codes, new_filters) \<Rightarrow>
          Some (\<lparr>ps_pid = sub_pid p, ps_return_codes = codes,
                  ps_retained_deliveries = retained_deliveries max_retained new_filters rs\<rparr>,
                session\<lparr>subscriptions := subs\<rparr>))"

definition unsubscribe_one :: "string \<Rightarrow> subscription list \<Rightarrow> subscription list" where
  "unsubscribe_one flt subs =
     (case position (\<lambda>s. sub_filter s = flt) subs of
        None \<Rightarrow> subs
      | Some index \<Rightarrow> remove_at index subs)"

definition apply_unsubscribe :: "unsubscribe \<Rightarrow> session_state \<Rightarrow> session_state" where
  "apply_unsubscribe p session =
     session\<lparr>subscriptions := fold unsubscribe_one (unsub_topics p) (subscriptions session)\<rparr>"

section \<open>With the transport\<close>

definition retained_qospid :: "mqttrs \<Rightarrow> qos \<Rightarrow> pid \<Rightarrow> qospid \<times> pid" where
  "retained_qospid mq q next_pid =
     (case q of
        AtMostOnce \<Rightarrow> (QosPid0, next_pid)
      | AtLeastOnce \<Rightarrow> (QosPid1 next_pid, pid_succ mq next_pid)
      | ExactlyOnce \<Rightarrow> (QosPid2 next_pid, pid_succ mq next_pid))"

fun write_retained ::
  "mqttrs \<Rightarrow> ('s, 'e) transport \<Rightarrow> nat \<Rightarrow> pid \<Rightarrow> retained_delivery list \<Rightarrow> 's
     \<Rightarrow> ('e handler_error + unit) \<times> 's" where
  "write_retained mq tr m next_pid [] s = (Inr (), s)"
| "write_retained mq tr m next_pid (d # ds) s =
     (let (qp, next_pid') = retained_qospid mq (rd_qos d) next_pid
      in case write_packet mq tr m (Publish \<lparr>dup = False, qospid = qp, pub_retain = True,
                 topic_name = rd_topic d, pub_payload = rd_payload d\<rparr>) s of
           (Inl e, s') \<Rightarrow> (Inl (HandlerWrite e), s')
         | (Inr _, s') \<Rightarrow> write_retained mq tr m next_pid' ds s')"

definition write_prepared_subscribe ::
  "mqttrs \<Rightarrow> ('s, 'e) transport \<Rightarrow> nat \<Rightarrow> prepared_subscribe \<Rightarrow> 's \<Rightarrow> ('e handler_error + unit) \<times> 's" where
  "write_prepared_subscribe mq tr m ps s =
     (case write_packet mq tr m (Suback \<lparr>suback_pid = ps_pid ps, return_codes = ps_return_codes ps\<rparr>) s of
        (Inl e, s') \<Rightarrow> (Inl (HandlerWrite e), s')
      | (Inr _, s') \<Rightarrow> write_retained mq tr m (pid_new mq) (ps_retained_deliveries ps) s')"

definition handle_subscribe ::
  "mqttrs \<Rightarrow> ('s, 'e) transport \<Rightarrow> nat \<Rightarrow> nat \<Rightarrow> nat \<Rightarrow> subscribe \<Rightarrow> retained_store \<Rightarrow> session_state \<Rightarrow> 's
     \<Rightarrow> (('e handler_error + unit) \<times> session_state \<times> 's) option" where
  "handle_subscribe mq tr m max_subs max_retained p rs session s =
     (case prepare_subscribe max_subs max_retained p rs session of
        None \<Rightarrow> None
      | Some (ps, session') \<Rightarrow>
          (let (res, s') = write_prepared_subscribe mq tr m ps s in Some (res, session', s')))"

definition handle_subscribe_for_session_id ::
  "mqttrs \<Rightarrow> ('s, 'e) transport \<Rightarrow> nat \<Rightarrow> nat \<Rightarrow> nat \<Rightarrow> session_id \<Rightarrow> subscribe \<Rightarrow> retained_store
     \<Rightarrow> session_registry \<Rightarrow> 's \<Rightarrow> (('e handler_error + unit) \<times> session_registry \<times> 's) option" where
  "handle_subscribe_for_session_id mq tr m max_subs max_retained sid p rs r s =
     (case registry_get r sid of
        None \<Rightarrow> Some (Inl (SessionNotFound sid), r, s)
      | Some session \<Rightarrow>
          (case handle_subscribe mq tr m max_subs max_retained p rs session s of
             None \<Rightarrow> None
           | Some (res, session', s') \<Rightarrow> Some (res, registry_get_mut sid (\<lambda>_. session') r, s')))"

definition handle_unsubscribe ::
  "mqttrs \<Rightarrow> ('s, 'e) transport \<Rightarrow> nat \<Rightarrow> unsubscribe \<Rightarrow> session_state \<Rightarrow> 's
     \<Rightarrow> ('e handler_error + unit) \<times> session_state \<times> 's" where
  "handle_unsubscribe mq tr m p session s =
     (let session' = apply_unsubscribe p session;
          (res, s') = write_packet mq tr m (Unsuback (unsub_pid p)) s
      in (map_err HandlerWrite res, session', s'))"

definition handle_unsubscribe_for_session_id ::
  "mqttrs \<Rightarrow> ('s, 'e) transport \<Rightarrow> nat \<Rightarrow> session_id \<Rightarrow> unsubscribe \<Rightarrow> session_registry \<Rightarrow> 's
     \<Rightarrow> ('e handler_error + unit) \<times> session_registry \<times> 's" where
  "handle_unsubscribe_for_session_id mq tr m sid p r s =
     (case registry_get r sid of
        None \<Rightarrow> (Inl (SessionNotFound sid), r, s)
      | Some session \<Rightarrow>
          (let (res, session', s') = handle_unsubscribe mq tr m p session s
           in (res, registry_get_mut sid (\<lambda>_. session') r, s')))"

section \<open>Subscriptions as a map\<close>

definition subs_abs :: "subscription list \<Rightarrow> string \<Rightarrow> qos option" where
  "subs_abs subs = map_of (map (\<lambda>s. (sub_filter s, sub_qos s)) subs)"

definition subs_ok :: "nat \<Rightarrow> subscription list \<Rightarrow> bool" where
  "subs_ok max_subs subs \<longleftrightarrow>
     length subs \<le> max_subs \<and> distinct (map sub_filter subs) \<and> (\<forall>s\<in>set subs. is_valid_filter (sub_filter s))"

lemma session_inv_subs:
  "session_inv ms mi s \<Longrightarrow> subs_ok ms (subscriptions s)"
  "session_inv ms mi s \<Longrightarrow> subs_ok ms subs \<Longrightarrow> session_inv ms mi (s\<lparr>subscriptions := subs\<rparr>)"
  by (auto simp: session_inv_def subs_ok_def)

lemma subs_abs_dom: "dom (subs_abs subs) = sub_filter ` set subs"
  by (force simp: subs_abs_def dom_map_of_conv_image_fst image_iff)

lemma subs_abs_card: "subs_ok ms subs \<Longrightarrow> card (dom (subs_abs subs)) = length subs"
  by (metis subs_abs_dom subs_ok_def distinct_card length_map list.set_map)

lemma valid_filter_length: "is_valid_filter f \<Longrightarrow> length f \<le> 128"
  by (simp add: is_valid_filter_iff)

text \<open>The abstract operation: grant the topics one after the other on the map.\<close>

fun grant_all ::
  "nat \<Rightarrow> subscribe_topic list \<Rightarrow> (string \<Rightarrow> qos option) \<Rightarrow> subscribe_return_code list \<times> (string \<Rightarrow> qos option)"
where
  "grant_all max_subs [] m = ([], m)"
| "grant_all max_subs (t # ts) m =
     (if is_valid_filter (topic_path t) \<and> (topic_path t \<in> dom m \<or> card (dom m) < max_subs)
      then apfst (Cons (Success (topic_qos t))) (grant_all max_subs ts (m(topic_path t \<mapsto> topic_qos t)))
      else apfst (Cons Failure) (grant_all max_subs ts m))"

lemma upsert_spec:
  assumes "subs_ok ms subs"
  shows "if is_valid_filter f \<and> (f \<in> dom (subs_abs subs) \<or> length subs < ms)
    then \<exists>subs'. upsert_subscription ms f q subs = ((Success q, f \<notin> dom (subs_abs subs)), subs')
      \<and> subs_ok ms subs' \<and> subs_abs subs' = (subs_abs subs)(f \<mapsto> q)
    else upsert_subscription ms f q subs = ((Failure, False), subs)"
proof (cases "position (\<lambda>s. sub_filter s = f) subs")
  case None
  then have no: "f \<notin> dom (subs_abs subs)" by (auto simp: subs_abs_dom position_None)
  show ?thesis
  proof (cases "is_valid_filter f \<and> length subs < ms")
    case True
    have "subs_ok ms (subs @ [\<lparr>sub_filter = f, sub_qos = q\<rparr>])"
      using True no assms by (auto simp: subs_ok_def subs_abs_dom)
    moreover have "subs_abs (subs @ [\<lparr>sub_filter = f, sub_qos = q\<rparr>]) = (subs_abs subs)(f \<mapsto> q)"
      using no by (auto simp: subs_abs_def map_add_def fun_eq_iff domIff split: option.splits)
    ultimately show ?thesis
      using None True no valid_filter_length [of f] by (auto simp: upsert_subscription_def)
  next
    case False
    then show ?thesis
      using None no by (auto simp: upsert_subscription_def split: option.splits)
  qed
next
  case (Some i)
  obtain ys e zs where sp: "subs = ys @ e # zs" "length ys = i" "sub_filter e = f"
    using position_split [OF Some] by metis
  then have d: "distinct (map sub_filter (ys @ e # zs))" and dom: "f \<in> dom (subs_abs subs)"
    using assms by (auto simp: subs_ok_def subs_abs_dom)
  have "subs_ok ms (ys @ e\<lparr>sub_qos := q\<rparr> # zs)" using assms sp by (auto simp: subs_ok_def)
  moreover have "subs_abs (ys @ e\<lparr>sub_qos := q\<rparr> # zs) = (subs_abs subs)(f \<mapsto> q)"
    using map_of_split(2) [OF d, where e' = "e\<lparr>sub_qos := q\<rparr>" and g = sub_qos] sp by (simp add: subs_abs_def)
  ultimately show ?thesis
    using Some dom sp by (auto simp: upsert_subscription_def list_update_append nth_append)
qed

lemma subscribe_topics_total:
  "subs_ok ms subs \<Longrightarrow>
   \<exists>subs' codes' new'. subscribe_topics ms ts subs codes new = Some (subs', codes', new') \<and> subs_ok ms subs'"
proof (induction ts arbitrary: subs codes new)
  case (Cons t ts)
  obtain ret ins subs' where u: "upsert_subscription ms (topic_path t) (topic_qos t) subs = ((ret, ins), subs')"
    by (metis surj_pair)
  then have "subs_ok ms subs'" "ins \<Longrightarrow> length (topic_path t) \<le> 128"
    using upsert_spec [OF Cons.prems, of "topic_path t" "topic_qos t"] Cons.prems valid_filter_length
    by (auto split: if_splits)
  then show ?case using Cons.IH u by (auto simp: Let_def)
qed simp

lemma subscribe_topics_refine:
  "subs_ok ms subs \<Longrightarrow> length codes + length ts \<le> 5 \<Longrightarrow>
   \<exists>subs' new'. subscribe_topics ms ts subs codes new
       = Some (subs', codes @ fst (grant_all ms ts (subs_abs subs)), new')
     \<and> subs_abs subs' = snd (grant_all ms ts (subs_abs subs))"
proof (induction ts arbitrary: subs codes new)
  case (Cons t ts)
  obtain ret ins subs' where u: "upsert_subscription ms (topic_path t) (topic_qos t) subs = ((ret, ins), subs')"
    by (metis surj_pair)
  note sp = upsert_spec [OF Cons.prems(1), of "topic_path t" "topic_qos t", unfolded u]
  have ok: "subs_ok ms subs'" "ins \<Longrightarrow> length (topic_path t) \<le> 128"
    using sp Cons.prems(1) valid_filter_length by (auto split: if_splits)
  have grant: "grant_all ms (t # ts) (subs_abs subs)
      = apfst (Cons ret) (grant_all ms ts (subs_abs subs'))"
    using sp subs_abs_card [OF Cons.prems(1)] by (auto split: if_splits)
  have push: "push_or_drop MAX_SUBSCRIBE_TOPICS ret codes = codes @ [ret]"
    using Cons.prems(2) by (simp add: push_or_drop_simps MAX_SUBSCRIBE_TOPICS_def)
  show ?case
    using Cons.IH [OF ok(1), of "codes @ [ret]"] Cons.prems(2) u ok(2)
    unfolding grant by (simp add: push Let_def)
qed simp

lemma prepare_subscribe_total:
  assumes "session_inv ms mi session"
  shows "\<exists>ps session'. prepare_subscribe ms mr p rs session = Some (ps, session')
    \<and> session_inv ms mi session' \<and> session' = session\<lparr>subscriptions := subscriptions session'\<rparr>"
  using subscribe_topics_total [OF session_inv_subs(1) [OF assms], of "sub_topics p" "[]" "[]"]
    session_inv_subs(2) [OF assms]
  by (auto simp: prepare_subscribe_def)

lemma unsubscribe_one_spec:
  assumes "subs_ok ms subs"
  shows "subs_ok ms (unsubscribe_one f subs)
    \<and> subs_abs (unsubscribe_one f subs) = (subs_abs subs)(f := None)"
proof (cases "position (\<lambda>s. sub_filter s = f) subs")
  case None
  then have "f \<notin> dom (subs_abs subs)" by (auto simp: subs_abs_dom position_None)
  then show ?thesis using None assms by (auto simp: unsubscribe_one_def fun_eq_iff domIff)
next
  case (Some i)
  obtain ys e zs where sp: "subs = ys @ e # zs" "length ys = i" "sub_filter e = f"
    using position_split [OF Some] by metis
  then have d: "distinct (map sub_filter (ys @ e # zs))" using assms by (auto simp: subs_ok_def)
  then show ?thesis
    using Some sp assms map_of_split(1) [OF d, of sub_qos]
    by (auto simp: unsubscribe_one_def remove_at_def subs_ok_def subs_abs_def)
qed

lemma unsubscribe_fold:
  "subs_ok ms subs \<Longrightarrow> subs_ok ms (fold unsubscribe_one fs subs)
    \<and> subs_abs (fold unsubscribe_one fs subs) = subs_abs subs |` (- set fs)"
proof (induction fs arbitrary: subs)
  case (Cons f fs)
  then show ?case
    using unsubscribe_one_spec [OF Cons.prems, of f] by (auto simp: restrict_map_def fun_eq_iff)
qed (simp add: restrict_map_def)

lemma apply_unsubscribe_inv: "session_inv ms mi s \<Longrightarrow> session_inv ms mi (apply_unsubscribe p s)"
  unfolding apply_unsubscribe_def
  using unsubscribe_fold [OF session_inv_subs(1)] session_inv_subs(2) by blast

section \<open>Retained messages on subscription\<close>

lemma deliveries_one:
  assumes "retained_inv mr rs"
  shows "retained_deliveries mr [f] rs
    = map (\<lambda>e. \<lparr>rd_topic = ret_topic e, rd_payload = ret_payload e, rd_qos = ret_qos e\<rparr>) (retained_matching f rs)"
proof -
  have "fold (push_delivery mr) es acc = acc @ List.map_filter (\<lambda>e. if length (ret_topic e) \<le> 128
      \<and> length (ret_payload e) \<le> 512 then Some \<lparr>rd_topic = ret_topic e, rd_payload = ret_payload e,
      rd_qos = ret_qos e\<rparr> else None) es" if "length acc + length es \<le> mr" for es acc
    using that by (intro fold_push) (auto simp: push_delivery_def from_slice_def)
  moreover have "length (retained_matching f rs) \<le> mr"
    using assms unfolding retained_inv_def retained_matching_def
    by (meson length_filter_le order_trans)
  moreover have "\<forall>e\<in>set (retained_matching f rs). length (ret_topic e) \<le> 128 \<and> length (ret_payload e) \<le> 512"
    using assms by (auto simp: retained_inv_def retained_matching_def entry_ok_def)
  ultimately show ?thesis
    by (simp add: retained_deliveries_def List.map_filter_def)
qed

section \<open>Properties\<close>

text \<open>
  C9: SUBSCRIBE refines the abstract grant on the session's filter map. For the at most five topics
  a packet holds, the handler returns one code per topic, in order: success exactly for a valid filter
  that is already there or for which there is room, and the subscriptions become the map with the granted
  filters updated. It never panics and keeps the session's invariant.
\<close>

theorem subscribe_refines:
  assumes "session_inv ms mi session" "length (sub_topics p) \<le> MAX_SUBSCRIBE_TOPICS"
  shows "\<exists>ps session'. prepare_subscribe ms mr p rs session = Some (ps, session')
    \<and> session_inv ms mi session'
    \<and> session' = session\<lparr>subscriptions := subscriptions session'\<rparr>
    \<and> ps_pid ps = sub_pid p
    \<and> (ps_return_codes ps, subs_abs (subscriptions session'))
        = grant_all ms (sub_topics p) (subs_abs (subscriptions session))"
proof -
  have ok: "subs_ok ms (subscriptions session)" by (rule session_inv_subs(1) [OF assms(1)])
  obtain subs' new' where r: "subscribe_topics ms (sub_topics p) (subscriptions session) [] []
      = Some (subs', fst (grant_all ms (sub_topics p) (subs_abs (subscriptions session))), new')"
    "subs_abs subs' = snd (grant_all ms (sub_topics p) (subs_abs (subscriptions session)))"
    using subscribe_topics_refine [OF ok, of "[]" "sub_topics p" "[]"] assms(2)
    by (auto simp: MAX_SUBSCRIBE_TOPICS_def)
  then show ?thesis
    using prepare_subscribe_total [OF assms(1), of mr p rs] by (auto simp: prepare_subscribe_def)
qed

definition example_subscribe :: subscribe where
  "example_subscribe =
     \<lparr>sub_pid = 7, sub_topics = [\<lparr>topic_path = ''sb/+/device/+/state'', topic_qos = AtLeastOnce\<rparr>,
        \<lparr>topic_path = ''a#'', topic_qos = AtMostOnce\<rparr>, \<lparr>topic_path = ''b'', topic_qos = AtMostOnce\<rparr>]\<rparr>"

theorem subscribe_refines_witness:
  "\<exists>ps session'. prepare_subscribe 1 2 example_subscribe retained_new (session_new ''c'' 60) = Some (ps, session')
     \<and> ps_return_codes ps = [Success AtLeastOnce, Failure, Failure]
     \<and> subs_abs (subscriptions session') ''sb/+/device/+/state'' = Some AtLeastOnce"
proof -
  have "grant_all 1 (sub_topics example_subscribe) (subs_abs (subscriptions (session_new ''c'' 60)))
      = ([Success AtLeastOnce, Failure, Failure], [''sb/+/device/+/state'' \<mapsto> AtLeastOnce])"
  proof -
    have v: "is_valid_filter ''sb/+/device/+/state''" "\<not> is_valid_filter ''a#''"
      by code_simp+
    have "subs_abs (subscriptions (session_new ''c'' 60)) = Map.empty"
      by (simp add: session_new_def subs_abs_def)
    then show ?thesis by (simp add: example_subscribe_def v)
  qed
  then show ?thesis
    using subscribe_refines [OF session_new_inv [of "''c''" 1 2 60], of example_subscribe 2 retained_new]
    by (auto simp: example_subscribe_def MAX_SUBSCRIBE_TOPICS_def)
qed

text \<open>
  UNSUBSCRIBE removes exactly the named filters. The other subscriptions keep their quality of service, and
  the session's invariant is kept.
\<close>

theorem unsubscribe_refines:
  assumes "session_inv ms mi session"
  shows "session_inv ms mi (apply_unsubscribe p session)
    \<and> subs_abs (subscriptions (apply_unsubscribe p session))
        = subs_abs (subscriptions session) |` (- set (unsub_topics p))"
  using apply_unsubscribe_inv [OF assms] unsubscribe_fold [OF session_inv_subs(1) [OF assms]]
  by (simp add: apply_unsubscribe_def)

theorem unsubscribe_refines_witness:
  "subs_abs (subscriptions (apply_unsubscribe \<lparr>unsub_pid = 1, unsub_topics = [''a'']\<rparr>
      ((session_new ''c'' 60)\<lparr>subscriptions := [\<lparr>sub_filter = ''a'', sub_qos = AtMostOnce\<rparr>,
         \<lparr>sub_filter = ''b'', sub_qos = AtLeastOnce\<rparr>]\<rparr>))) = [''b'' \<mapsto> AtLeastOnce]"
proof -
  let ?s = "(session_new ''c'' 60)\<lparr>subscriptions := [\<lparr>sub_filter = ''a'', sub_qos = AtMostOnce\<rparr>,
         \<lparr>sub_filter = ''b'', sub_qos = AtLeastOnce\<rparr>]\<rparr>"
  have "is_valid_filter ''a''" "is_valid_filter ''b''" by code_simp+
  then have "session_inv 4 4 ?s"
    using session_new_inv [of "''c''" 4 4 60] by (simp add: session_inv_def)
  then show ?thesis
    using unsubscribe_refines [of 4 4 ?s "\<lparr>unsub_pid = 1, unsub_topics = [''a'']\<rparr>"]
    by (simp add: subs_abs_def restrict_map_def fun_eq_iff)
qed

text \<open>
  Retained messages on subscription. When a single new filter is subscribed, every retained
  message whose topic matches it is delivered, each once, with its payload and quality of service; none is
  lost to the capacity of the delivery vector.
\<close>

theorem subscribe_delivers_retained:
  assumes "session_inv ms mi session" "retained_inv mr rs" "sub_topics p = [t]"
    and "prepare_subscribe ms mr p rs session = Some (ps, session')"
    and "subs_abs (subscriptions session) (topic_path t) = None"
    and "subs_abs (subscriptions session') (topic_path t) \<noteq> None"
  shows "distinct (map rd_topic (ps_retained_deliveries ps))
    \<and> (\<forall>d. d \<in> set (ps_retained_deliveries ps) \<longleftrightarrow>
         topic_matches (topic_path t) (rd_topic d) \<and> retained_abs rs (rd_topic d) = Some (rd_payload d, rd_qos d))"
proof -
  have ok: "subs_ok ms (subscriptions session)" by (rule session_inv_subs(1) [OF assms(1)])
  have "ps_retained_deliveries ps = retained_deliveries mr [topic_path t] rs"
    using assms(3-6) upsert_spec [OF ok, of "topic_path t" "topic_qos t"] valid_filter_length [of "topic_path t"]
    by (auto simp: prepare_subscribe_def domIff Let_def push_or_drop_simps MAX_SUBSCRIBE_TOPICS_def
        split: if_splits)
  then have ds: "ps_retained_deliveries ps = map (\<lambda>e. \<lparr>rd_topic = ret_topic e, rd_payload = ret_payload e,
      rd_qos = ret_qos e\<rparr>) (retained_matching (topic_path t) rs)"
    using deliveries_one [OF assms(2)] by simp
  let ?g = "\<lambda>e :: retained_entry. \<lparr>rd_topic = ret_topic e, rd_payload = ret_payload e, rd_qos = ret_qos e\<rparr>"
  have inj: "inj ?g" by (auto intro!: injI retained_entry.equality)
  have "d \<in> set (ps_retained_deliveries ps) \<longleftrightarrow>
      \<lparr>ret_topic = rd_topic d, ret_payload = rd_payload d, ret_qos = rd_qos d\<rparr> \<in> set (retained_matching (topic_path t) rs)" for d
    using inj_image_mem_iff [OF inj, of "\<lparr>ret_topic = rd_topic d, ret_payload = rd_payload d, ret_qos = rd_qos d\<rparr>"]
    by (cases d) (simp add: ds)
  then show ?thesis
    using assms(2) by (auto simp: retained_abs_iff [OF assms(2)] retained_matching_def ds comp_def
        retained_inv_def distinct_map_filter)
qed

theorem subscribe_delivers_retained_witness:
  "\<exists>ps session'. prepare_subscribe 4 2 \<lparr>sub_pid = 1, sub_topics = [\<lparr>topic_path = ''a/+'', topic_qos = AtMostOnce\<rparr>]\<rparr>
        (snd (retained_set 2 ''a/b'' [1] AtLeastOnce retained_new)) (session_new ''c'' 60) = Some (ps, session')
     \<and> \<lparr>rd_topic = ''a/b'', rd_payload = [1], rd_qos = AtLeastOnce\<rparr> \<in> set (ps_retained_deliveries ps)"
proof -
  let ?p = "\<lparr>sub_pid = 1, sub_topics = [\<lparr>topic_path = ''a/+'', topic_qos = AtMostOnce\<rparr>]\<rparr>"
  let ?rs = "snd (retained_set 2 ''a/b'' [1] AtLeastOnce retained_new)"
  let ?s = "session_new ''c'' 60"
  have s: "session_inv 4 2 ?s" by (simp add: session_new_inv)
  have rs: "retained_inv 2 ?rs" by (rule retained_set_inv [OF retained_new_inv])
  obtain ps s' where r: "prepare_subscribe 4 2 ?p ?rs ?s = Some (ps, s')"
    using prepare_subscribe_total [OF s] by blast
  have v: "is_valid_filter ''a/+''" by code_simp
  have e: "subs_abs (subscriptions ?s) = Map.empty" by (simp add: session_new_def subs_abs_def)
  have "subs_abs (subscriptions s') ''a/+'' \<noteq> None"
    using r v upsert_spec [of 4 "[]" "''a/+''" AtMostOnce]
    by (auto simp: prepare_subscribe_def session_new_def subs_ok_def subs_abs_def Let_def)
  moreover have "retained_abs ?rs ''a/b'' = Some ([1], AtLeastOnce)" "topic_matches ''a/+'' ''a/b''"
    by (simp add: retained_set_def retained_new_def retained_abs_def) code_simp
  ultimately have "\<lparr>rd_topic = ''a/b'', rd_payload = [1], rd_qos = AtLeastOnce\<rparr> \<in> set (ps_retained_deliveries ps)"
    using subscribe_delivers_retained [OF s rs _ r] e by simp
  then show ?thesis using r by blast
qed

end
