(* ===== verification/Publish.thy ===== *)
theory Publish
  imports Dispatcher Subscribe
begin

text \<open>
  PUBLISH, \<^verbatim>\<open>crates/GatoMQTT/src/handler/publish.rs\<close> without acknowledgement and retransmission, with the
  session signals of \<^verbatim>\<open>session/notify.rs\<close> and the command handler interface of
  \<^verbatim>\<open>handler/command.rs\<close>. A handler is a parameter: \<open>handle intent h\<close> is its new
  state, or \<open>None\<close> when it is overloaded; \<open>channel_handle\<close> is the bounded queue the crate provides.
\<close>

section \<open>Signals\<close>

type_synonym session_signals = "bool list"

definition new_session_signals :: "nat \<Rightarrow> session_signals" where
  "new_session_signals n = replicate n False"

definition signal_session :: "session_id \<Rightarrow> session_signals \<Rightarrow> session_signals" where
  "signal_session sid sigs = (if sid < length sigs then sigs[sid := True] else sigs)"

definition reset_session_signal :: "session_id \<Rightarrow> session_signals \<Rightarrow> session_signals" where
  "reset_session_signal sid sigs = (if sid < length sigs then sigs[sid := False] else sigs)"

section \<open>Commands\<close>

record mqtt_intent =
  mi_topic :: string
  mi_payload :: bytes
  mi_qos :: qos

type_synonym 'h command_handler = "mqtt_intent \<Rightarrow> 'h \<Rightarrow> 'h option"

definition channel_handle :: "nat \<Rightarrow> mqtt_intent list command_handler" where
  "channel_handle n intent queue = vec_push n intent queue"

section \<open>Data\<close>

record mqtt_publish =
  mp_topic :: string
  mp_payload :: bytes
  mp_qos :: qos
  mp_retain :: bool

datatype publish_error = PRetainedTopicTooLong | PRetainedPayloadTooLarge | PRetainedFull
  | RateLimitDisconnect | CommandHandlerOverloaded | SenderNotFound session_id
  | PTopicTooLong | PPayloadTooLarge

section \<open>Delivery\<close>

definition encode_publish ::
  "mqttrs \<Rightarrow> string \<Rightarrow> bytes \<Rightarrow> qos \<Rightarrow> bool \<Rightarrow> u16 \<Rightarrow> publish_error + bytes" where
  "encode_publish mq topic payload q retain pid =
     (let qp = (case q of
                  AtMostOnce \<Rightarrow> Some QosPid0
                | AtLeastOnce \<Rightarrow> map_option QosPid1 (pid_try_from mq pid)
                | ExactlyOnce \<Rightarrow> map_option QosPid2 (pid_try_from mq pid))
      in case qp of
           None \<Rightarrow> Inl PPayloadTooLarge
         | Some qp' \<Rightarrow>
             (case encode_slice mq (Publish \<lparr>dup = False, qospid = qp', pub_retain = retain,
                      topic_name = topic, pub_payload = payload\<rparr>) MAX_OUTBOUND_FRAME_SIZE of
                Inl _ \<Rightarrow> Inl PPayloadTooLarge
              | Inr frame \<Rightarrow> ok_or PPayloadTooLarge (from_slice MAX_OUTBOUND_FRAME_SIZE frame)))"

definition encode_publish_qos0 :: "mqttrs \<Rightarrow> string \<Rightarrow> bytes \<Rightarrow> bool \<Rightarrow> publish_error + bytes" where
  "encode_publish_qos0 mq topic payload retain = encode_publish mq topic payload AtMostOnce retain 0"

definition acquire_shared_publish ::
  "string \<Rightarrow> bytes \<Rightarrow> bool \<Rightarrow> stored_publish_handle option \<Rightarrow> session_registry
     \<Rightarrow> stored_publish_handle option \<times> stored_publish_handle option \<times> session_registry" where
  "acquire_shared_publish topic payload retain shared r =
     (case shared of
        Some h \<Rightarrow>
          (case acquire_stored_publish h r of
             (Inr _, r') \<Rightarrow> (Some h, shared, r')
           | (Inl _, r') \<Rightarrow> (None, shared, r'))
      | None \<Rightarrow>
          (case store_publish_ref topic payload retain r of
             (Inl _, r') \<Rightarrow> (None, None, r')
           | (Inr h, r') \<Rightarrow> (Some h, Some h, r')))"

text \<open>The QoS 1 part of the loop body: remember the delivery for retransmission.\<close>

definition track_delivery ::
  "instant \<Rightarrow> string \<Rightarrow> bytes \<Rightarrow> bool \<Rightarrow> session_id \<Rightarrow> u16 \<Rightarrow> stored_publish_handle option
     \<Rightarrow> session_registry \<Rightarrow> stored_publish_handle option \<times> session_registry" where
  "track_delivery now topic payload retain sid pid shared r =
     (let max_inflight = length (stored_publishes r)
      in if (case registry_get r sid of None \<Rightarrow> False | Some s \<Rightarrow> length (inflight s) < max_inflight)
         then (case acquire_shared_publish topic payload retain shared r of
                 (None, shared', r1) \<Rightarrow> (shared', r1)
               | (Some h, shared', r1) \<Rightarrow>
                   (let entry = \<lparr>packet_id = pid, inf_publish = h, inf_qos = AtLeastOnce,
                                  sent_at = now, retries = 0\<rparr>
                    in case (case registry_get r1 sid of None \<Rightarrow> None
                             | Some s \<Rightarrow> inflight_add max_inflight entry s) of
                         None \<Rightarrow> (shared', release_stored_publish h r1)
                       | Some s' \<Rightarrow> (shared', registry_get_mut sid (\<lambda>_. s') r1)))
         else (shared, r))"

text \<open>The packet identifier of a delivery, from the receiver's counter; QoS 0 needs none.\<close>

definition delivery_pid :: "qos \<Rightarrow> session_state \<Rightarrow> u16 \<times> session_state" where
  "delivery_pid effective_qos s = (if effective_qos \<noteq> AtMostOnce then next_packet_id s else (0, s))"

text \<open>A full outbox: count the drop and quarantine the session at the threshold.\<close>

definition record_drop :: "u8 \<Rightarrow> session_state \<Rightarrow> session_state" where
  "record_drop max_drops s =
     (let s' = s\<lparr>outbox_drops := saturating_add (outbox_drops s) 1\<rparr>
      in if outbox_drops s' \<ge> max_drops then s'\<lparr>quarantined := True\<rparr> else s')"

text \<open>One round of the delivery loop, shared by \<open>handle_publish_at\<close> and \<open>process_outbound_publish\<close>.\<close>

definition deliver_to ::
  "mqttrs \<Rightarrow> instant \<Rightarrow> u8 \<Rightarrow> qos \<Rightarrow> string \<Rightarrow> bytes \<Rightarrow> bool \<Rightarrow> session_id \<times> qos
     \<Rightarrow> stored_publish_handle option \<Rightarrow> session_registry \<Rightarrow> session_signals
     \<Rightarrow> (publish_error + stored_publish_handle option) \<times> session_registry \<times> session_signals" where
  "deliver_to mq now max_drops incoming_qos topic payload retain target shared r sigs =
     (let (sid, subscriber_qos) = target;
          effective_qos = min_qos incoming_qos subscriber_qos
      in case registry_get r sid of
           None \<Rightarrow> (Inr shared, r, sigs)
         | Some s0 \<Rightarrow>
             (let (pid, s1) = delivery_pid effective_qos s0
              in case encode_publish mq topic payload effective_qos retain pid of
                   Inl e \<Rightarrow> (Inl e, registry_get_mut sid (\<lambda>_. s1) r, sigs)
                 | Inr bs \<Rightarrow>
                     (case vec_push MAX_OUTBOX_DEPTH \<lparr>ob_bytes = bs\<rparr> (outbox s1) of
                        None \<Rightarrow> (Inr shared, registry_get_mut sid (\<lambda>_. record_drop max_drops s1) r, sigs)
                      | Some ob \<Rightarrow>
                          (let r1 = registry_get_mut sid (\<lambda>_. s1\<lparr>outbox := ob\<rparr>) r;
                               sigs1 = signal_session sid sigs
                           in if effective_qos = AtLeastOnce
                              then (let (shared', r2) =
                                          track_delivery now topic payload retain sid pid shared r1
                                    in (Inr shared', r2, sigs1))
                              else (Inr shared, r1, sigs1)))))"

fun deliver_all ::
  "mqttrs \<Rightarrow> instant \<Rightarrow> u8 \<Rightarrow> qos \<Rightarrow> string \<Rightarrow> bytes \<Rightarrow> bool \<Rightarrow> (session_id \<times> qos) list
     \<Rightarrow> stored_publish_handle option \<Rightarrow> session_registry \<Rightarrow> session_signals
     \<Rightarrow> (publish_error + unit) \<times> session_registry \<times> session_signals" where
  "deliver_all mq now max_drops q topic payload retain [] shared r sigs = (Inr (), r, sigs)"
| "deliver_all mq now max_drops q topic payload retain (t # ts) shared r sigs =
     (case deliver_to mq now max_drops q topic payload retain t shared r sigs of
        (Inl e, r', sigs') \<Rightarrow> (Inl e, r', sigs')
      | (Inr shared', r', sigs') \<Rightarrow> deliver_all mq now max_drops q topic payload retain ts shared' r' sigs')"

section \<open>Handlers\<close>

text \<open>
  What a broker instance fixes: the time driver, the codec, the const generics \<open>MAX_SUBS\<close>,
  \<open>MAX_RETAINED\<close> and \<open>MAX_PACKET_SIZE\<close>, and the command handler.
\<close>

record 'h broker_env =
  env_td :: time_driver
  env_mq :: mqttrs
  env_max_subs :: nat
  env_max_retained :: nat
  env_max_packet :: nat
  env_handle :: "'h command_handler"

text \<open>The state shared by all connections.\<close>

record 'h broker =
  br_registry :: session_registry
  br_retained :: retained_store
  br_signals :: session_signals
  br_handler :: 'h

primrec map_retained_error :: "retained_error \<Rightarrow> publish_error" where
  "map_retained_error TopicTooLong = PRetainedTopicTooLong"
| "map_retained_error PayloadTooLarge = PRetainedPayloadTooLarge"
| "map_retained_error RetainedFull = PRetainedFull"

definition forward_command ::
  "'h broker_env \<Rightarrow> publish \<Rightarrow> 'h broker \<Rightarrow> (publish_error + unit) \<times> 'h broker" where
  "forward_command env p b =
     (if is_command_topic (topic_name p)
      then (case from_slice 128 (topic_name p) of
              None \<Rightarrow> (Inl PTopicTooLong, b)
            | Some topic \<Rightarrow>
                (case from_slice 512 (pub_payload p) of
                   None \<Rightarrow> (Inl PPayloadTooLarge, b)
                 | Some payload \<Rightarrow>
                     (case env_handle env \<lparr>mi_topic = topic, mi_payload = payload,
                              mi_qos = qospid_qos (qospid p)\<rparr> (br_handler b) of
                        Some h \<Rightarrow> (Inr (), b\<lparr>br_handler := h\<rparr>)
                      | None \<Rightarrow>
                          (if qospid_qos (qospid p) \<noteq> AtMostOnce then (Inl CommandHandlerOverloaded, b)
                           else (Inr (), b)))))
      else (Inr (), b))"

definition handle_publish_at ::
  "'h broker_env \<Rightarrow> session_id \<Rightarrow> publish \<Rightarrow> instant \<Rightarrow> u8 \<Rightarrow> u8 \<Rightarrow> 'h broker
     \<Rightarrow> (publish_error + unit) \<times> 'h broker" where
  "handle_publish_at env sender_id p now max_viol max_drops b =
     (let incoming_qos = qospid_qos (qospid p)
      in case registry_get (br_registry b) sender_id of
           None \<Rightarrow> (Inl (SenderNotFound sender_id), b)
         | Some sender \<Rightarrow>
             (let (ok, bucket) = try_consume (env_td env) now (rate sender);
                  b1 = b\<lparr>br_registry :=
                         registry_get_mut sender_id (\<lambda>s. s\<lparr>rate := bucket\<rparr>) (br_registry b)\<rparr>
              in if \<not> ok
                 then (if violations bucket \<ge> max_viol then (Inl RateLimitDisconnect, b1)
                       else if incoming_qos \<noteq> AtMostOnce then (Inl RateLimitDisconnect, b1)
                       else (Inr (), b1))
                 else
                   (let (res, rs) =
                      (if pub_retain p
                       then retained_set (env_max_retained env) (topic_name p) (pub_payload p) incoming_qos
                              (br_retained b1)
                       else (Inr (), br_retained b1));
                        b2 = b1\<lparr>br_retained := rs\<rparr>
                    in case res of
                         Inl e \<Rightarrow> (Inl (map_retained_error e), b2)
                       | Inr _ \<Rightarrow>
                           (let subscribers = find_subscribers (br_registry b2) (topic_name p) sender_id
                            in case deliver_all (env_mq env) now max_drops incoming_qos (topic_name p)
                                      (pub_payload p) (pub_retain p) subscribers None
                                      (br_registry b2) (br_signals b2) of
                                 (Inl e, r, sigs) \<Rightarrow>
                                   (Inl e, b2\<lparr>br_registry := r, br_signals := sigs\<rparr>)
                               | (Inr _, r, sigs) \<Rightarrow>
                                   forward_command env p (b2\<lparr>br_registry := r, br_signals := sigs\<rparr>)))))"

definition handle_publish ::
  "'h broker_env \<Rightarrow> session_id \<Rightarrow> publish \<Rightarrow> instant \<Rightarrow> 'h broker \<Rightarrow> (publish_error + unit) \<times> 'h broker" where
  "handle_publish env sender_id p now b =
     handle_publish_at env sender_id p now (max_violations GATOMQTT_CONFIG)
       (max_outbox_drops GATOMQTT_CONFIG) b"

definition process_outbound_publish ::
  "'h broker_env \<Rightarrow> mqtt_publish \<Rightarrow> instant \<Rightarrow> 'h broker \<Rightarrow> (publish_error + unit) \<times> 'h broker" where
  "process_outbound_publish env p now b =
     (let (res, rs) =
        (if mp_retain p
         then retained_set (env_max_retained env) (mp_topic p) (mp_payload p) (mp_qos p) (br_retained b)
         else (Inr (), br_retained b));
          b1 = b\<lparr>br_retained := rs\<rparr>
      in case res of
           Inl e \<Rightarrow> (Inl (map_retained_error e), b1)
         | Inr _ \<Rightarrow>
             (let (res', r, sigs) = deliver_all (env_mq env) now (max_outbox_drops GATOMQTT_CONFIG) (mp_qos p)
                    (mp_topic p) (mp_payload p) (mp_retain p)
                    (find_all_subscribers (br_registry b1) (mp_topic p)) None (br_registry b1) (br_signals b1)
              in (res', b1\<lparr>br_registry := r, br_signals := sigs\<rparr>)))"

section \<open>Updates of one session\<close>

lemma inv_put:
  assumes "registry_inv ms r" "registry_get r sid = Some s0"
    and "session_inv ms (length (stored_publishes r)) s'" "sess_client_id s' = sess_client_id s0"
    and "map inf_publish (inflight s') = map inf_publish (inflight s0)"
  shows "registry_inv ms (registry_get_mut sid (\<lambda>_. s') r)"
proof -
  have "registry_wf ms (registry_get_mut sid (\<lambda>_. s') r)"
    by (rule wf_get_mut) (use assms in \<open>auto simp: registry_inv_def\<close>)
  moreover have "refs_ok {#} (registry_get_mut sid (\<lambda>_. s') r) = refs_ok {#} r"
    by (rule refs_ok_map_entries) (use assms in simp)
  ultimately show ?thesis
    using assms(1) by (simp add: registry_inv_def)
qed

text \<open>Operations on the pool leave the sessions alone and keep what is stored under live handles.\<close>

definition same_content :: "stored_publish \<Rightarrow> string \<Rightarrow> bytes \<Rightarrow> bool \<Rightarrow> bool" where
  "same_content sp topic payload retain \<longleftrightarrow>
     sp_topic sp = topic \<and> sp_payload sp = payload \<and> sp_retain sp = retain"

definition pool_extends :: "session_registry \<Rightarrow> session_registry \<Rightarrow> bool" where
  "pool_extends r r' \<longleftrightarrow>
     (\<forall>h sp. stored_publish_of r h = Some sp \<longrightarrow>
        (\<exists>sp'. stored_publish_of r' h = Some sp' \<and> same_content sp' (sp_topic sp) (sp_payload sp) (sp_retain sp)
           \<and> refcount sp \<le> refcount sp'))
     \<and> length (slots r') = length (slots r) \<and> length (stored_publishes r') = length (stored_publishes r)"

lemma pool_extends_refl [simp]: "pool_extends r r"
  by (simp add: pool_extends_def same_content_def)

lemma pool_extendsD:
  assumes "pool_extends r r'" "stored_publish_of r h = Some sp"
  obtains sp' where "stored_publish_of r' h = Some sp'" "refcount sp \<le> refcount sp'"
    "\<And>t p b. same_content sp t p b \<Longrightarrow> same_content sp' t p b"
  using assms by (auto simp: pool_extends_def same_content_def)

lemma pool_extends_trans [trans]:
  assumes "pool_extends a b" "pool_extends b c"
  shows "pool_extends a c"
proof -
  have "\<exists>sp'. stored_publish_of c h = Some sp' \<and> same_content sp' (sp_topic sp) (sp_payload sp) (sp_retain sp)
      \<and> refcount sp \<le> refcount sp'" if sp: "stored_publish_of a h = Some sp" for h sp
  proof -
    obtain sb where b: "stored_publish_of b h = Some sb" "refcount sp \<le> refcount sb"
        "\<And>t p d. same_content sp t p d \<Longrightarrow> same_content sb t p d"
      by (rule pool_extendsD [OF assms(1) sp]) blast
    obtain sc where "stored_publish_of c h = Some sc" "refcount sb \<le> refcount sc"
        "\<And>t p d. same_content sb t p d \<Longrightarrow> same_content sc t p d"
      by (rule pool_extendsD [OF assms(2) b(1)]) blast
    then show ?thesis using b by (auto simp: same_content_def)
  qed
  then show ?thesis using assms by (auto simp: pool_extends_def)
qed

text \<open>Why the pool may be unable to hold one more reference to a message.\<close>

definition untrackable :: "string \<Rightarrow> bytes \<Rightarrow> bool \<Rightarrow> session_registry \<Rightarrow> bool" where
  "untrackable t p b r \<longleftrightarrow>
     128 < length t \<or> 512 < length p
     \<or> (\<forall>i < length (stored_publishes r). \<exists>g. stored_publish_of r \<lparr>h_slot = i, h_generation = g\<rparr> \<noteq> None)
     \<or> (\<exists>h sp. stored_publish_of r h = Some sp \<and> same_content sp t p b \<and> refcount sp = - 1)"

lemma untrackable_extends:
  assumes "untrackable t p b r" and ext: "pool_extends r r'"
  shows "untrackable t p b r'"
proof -
  have len: "length (stored_publishes r') = length (stored_publishes r)" using ext by (simp add: pool_extends_def)
  consider "128 < length t \<or> 512 < length p"
    | "\<forall>i<length (stored_publishes r). \<exists>g. stored_publish_of r \<lparr>h_slot = i, h_generation = g\<rparr> \<noteq> None"
    | h sp where "stored_publish_of r h = Some sp" "same_content sp t p b" "refcount sp = - 1"
    using assms(1) unfolding untrackable_def by blast
  then show ?thesis
  proof cases
    case 2
    have "\<exists>g. stored_publish_of r' \<lparr>h_slot = i, h_generation = g\<rparr> \<noteq> None" if i: "i < length (stored_publishes r')" for i
    proof -
      obtain g sp where "stored_publish_of r \<lparr>h_slot = i, h_generation = g\<rparr> = Some sp"
        using 2 i len by fastforce
      then show ?thesis by (metis pool_extendsD [OF ext] option.distinct(1))
    qed
    then show ?thesis by (simp add: untrackable_def)
  next
    case 3
    obtain sp' where "stored_publish_of r' h = Some sp'" "refcount sp \<le> refcount sp'" "same_content sp' t p b"
      using pool_extendsD [OF ext 3(1)] 3(2) by metis
    moreover from this have "refcount sp' = - 1" using 3(3) by (simp add: word_order.extremum_unique)
    ultimately show ?thesis unfolding untrackable_def by blast
  qed (auto simp: untrackable_def)
qed

lemma pool_extends_content:
  "pool_extends r r' \<Longrightarrow> stored_publish_of r h = Some sp \<Longrightarrow> same_content sp t p b \<Longrightarrow>
   \<exists>sp'. stored_publish_of r' h = Some sp' \<and> same_content sp' t p b"
  by (auto simp: pool_extends_def same_content_def)

lemma pool_extends_get_mut [simp]: "pool_extends r (registry_get_mut sid f r)"
  by (simp add: pool_extends_def same_content_def registry_simps)

definition shared_ok ::
  "string \<Rightarrow> bytes \<Rightarrow> bool \<Rightarrow> stored_publish_handle option \<Rightarrow> session_registry \<Rightarrow> bool" where
  "shared_ok topic payload retain shared r \<longleftrightarrow>
     (case shared of None \<Rightarrow> True
      | Some h \<Rightarrow> \<exists>sp. stored_publish_of r h = Some sp \<and> same_content sp topic payload retain)"

lemma shared_ok_extends:
  "shared_ok t p b shared r \<Longrightarrow> pool_extends r r' \<Longrightarrow> shared_ok t p b shared r'"
  unfolding shared_ok_def pool_extends_def same_content_def by (force split: option.splits)

lemma wf_pool:
  assumes "registry_wf ms r" "slots_ok r'" "registry_get r' = registry_get r"
    and "length (slots r') = length (slots r)" "length (stored_publishes r') = length (stored_publishes r)"
    and "published_lwts r' = published_lwts r"
    and "\<And>h sp. stored_publish_of r' h = Some sp \<Longrightarrow> length (sp_topic sp) \<le> 128 \<and> length (sp_payload sp) \<le> 512"
  shows "registry_wf ms r'"
  using assms unfolding registry_wf_def by simp

lemma acquire_refused:
  assumes "acquire_stored_publish h r = (Inl e, r1)" "shared_ok t p b (Some h) r"
  shows "untrackable t p b r"
proof -
  obtain sp where sp: "stored_publish_of r h = Some sp" "same_content sp t p b"
    using assms(2) by (auto simp: shared_ok_def)
  then have "checked_add (refcount sp) 1 = None"
    using assms(1) by (auto simp: acquire_stored_publish_def split: option.splits)
  then have "refcount sp = - 1"
    by (metis checked_add_1_None)
  then show ?thesis using sp unfolding untrackable_def by blast
qed

lemma store_refused:
  assumes "store_publish_ref t p b r = (Inl e, r1)" "slots_ok r"
  shows "untrackable t p b r"
proof (cases "position slot_is_none (stored_publishes r)")
  case None
  then have "look slot_as_ref (stored_publishes r) i \<noteq> None" if "i < length (stored_publishes r)" for i
    using assms(2) slot.no_vacant [of "stored_publishes r"] that by (auto simp: slots_ok_def)
  then have "\<exists>g. stored_publish_of r \<lparr>h_slot = i, h_generation = g\<rparr> \<noteq> None" if "i < length (stored_publishes r)" for i
    using that by (force simp: stored_publish_of_def split: option.splits)
  then show ?thesis by (simp add: untrackable_def)
next
  case (Some i)
  then show ?thesis using assms(1)
    by (auto simp: untrackable_def store_publish_ref_def Let_def split: option.splits if_splits)
qed

lemma acquire_shared_spec:
  assumes inv: "registry_inv ms r" and sh: "shared_ok t p b shared r"
    and res: "acquire_shared_publish t p b shared r = (ho, shared', r')"
  shows "registry_wf ms r'" "refs_ok (mset_set (set_option ho)) r'" "registry_get r' = registry_get r"
    "pool_extends r r'" "shared_ok t p b shared' r'" "\<And>h. ho = Some h \<Longrightarrow> shared' = Some h"
    "ho = None \<Longrightarrow> untrackable t p b r'"
proof -
  note wf = inv [unfolded registry_inv_def, THEN conjunct1]
  note refs = inv [unfolded registry_inv_def, THEN conjunct2]
  have "registry_wf ms r' \<and> refs_ok (mset_set (set_option ho)) r' \<and> registry_get r' = registry_get r
    \<and> pool_extends r r' \<and> shared_ok t p b shared' r' \<and> (\<forall>h. ho = Some h \<longrightarrow> shared' = Some h)
    \<and> (ho = None \<longrightarrow> untrackable t p b r')"
  proof (cases shared)
    case (Some h)
    obtain x r1 where acq: "acquire_stored_publish h r = (x, r1)" by fastforce
    show ?thesis
    proof (cases x)
      case (Inl e)
      then show ?thesis using acq Some res acquire_err [of h r e r1] wf refs sh acquire_refused [of h r e r1 t p b]
        by (auto simp: acquire_shared_publish_def)
    next
      case (Inr u)
      then have eq: "ho = Some h" "shared' = Some h" "r' = r1"
        using acq Some res by (auto simp: acquire_shared_publish_def)
      obtain sp c where st: "stored_publish_of r h = Some sp"
          "stored_publish_of r1 = (stored_publish_of r)(h \<mapsto> sp\<lparr>refcount := c\<rparr>)"
        and count: "unat c = unat (refcount sp) + 1"
        using acquire_okD [OF acq [unfolded Inr]] by metis
      have fr: "slots r1 = slots r" "published_lwts r1 = published_lwts r"
          "length (stored_publishes r1) = length (stored_publishes r)" "registry_get r1 = registry_get r"
          "slots_ok r1"
        using acquire_frame [of h r] acquire_slots_ok [OF inv_slots_ok [OF inv], of h] acq by auto
      have "pool_extends r r1" using count by (auto simp: pool_extends_def same_content_def st fr word_le_nat_alt)
      moreover have "registry_wf ms r1"
        by (rule wf_pool [OF wf]) (use fr st wf in \<open>auto simp: registry_wf_def split: if_splits\<close>)
      moreover have "refs_ok {#h#} r1" by (rule refs_ok_acquire [OF acq [unfolded Inr] refs])
      ultimately show ?thesis
        using eq fr sh Some shared_ok_extends by auto
    qed
  next
    case None
    obtain x r1 where sto: "store_publish_ref t p b r = (x, r1)" by fastforce
    have fr: "slots r1 = slots r" "published_lwts r1 = published_lwts r"
        "length (stored_publishes r1) = length (stored_publishes r)" "registry_get r1 = registry_get r"
        "slots_ok r1"
      using store_frame [of t p b r] store_slots_ok [OF inv_slots_ok [OF inv], of t p b] sto by auto
    show ?thesis
    proof (cases x)
      case (Inl e)
      have st: "stored_publish_of r1 = stored_publish_of r"
        using store_err [OF sto [unfolded Inl]] by simp
      have "registry_wf ms r1"
        by (rule wf_pool [OF wf]) (use fr st wf in \<open>auto simp: registry_wf_def\<close>)
      then show ?thesis
        using res None sto Inl fr st refs_ok_store_err [OF sto [unfolded Inl] refs]
          store_refused [OF sto [unfolded Inl] inv_slots_ok [OF inv]]
          untrackable_extends [of t p b r r1]
        by (auto simp: acquire_shared_publish_def shared_ok_def pool_extends_def same_content_def)
    next
      case (Inr h)
      note st = store_okD [OF sto [unfolded Inr] inv_slots_ok [OF inv]]
      have "registry_wf ms r1"
        by (rule wf_pool [OF wf]) (use fr st wf in \<open>auto simp: registry_wf_def split: if_splits\<close>)
      moreover have "refs_ok {#h#} r1"
        by (rule refs_ok_store [OF sto [unfolded Inr] inv_slots_ok [OF inv] refs])
      ultimately show ?thesis
        using res None sto Inr fr st
        by (auto simp: acquire_shared_publish_def shared_ok_def pool_extends_def same_content_def)
    qed
  qed
  then show "registry_wf ms r'" "refs_ok (mset_set (set_option ho)) r'" "registry_get r' = registry_get r"
    "pool_extends r r'" "shared_ok t p b shared' r'" "\<And>h. ho = Some h \<Longrightarrow> shared' = Some h"
    "ho = None \<Longrightarrow> untrackable t p b r'" by auto
qed

definition new_entry :: "u16 \<Rightarrow> stored_publish_handle \<Rightarrow> instant \<Rightarrow> inflight_entry" where
  "new_entry pid h now =
     \<lparr>packet_id = pid, inf_publish = h, inf_qos = AtLeastOnce, sent_at = now, retries = 0\<rparr>"

lemma session_inv_add_entry:
  "session_inv ms mi s \<Longrightarrow> length (inflight s) < mi \<Longrightarrow> pid \<noteq> 0 \<Longrightarrow>
   session_inv ms mi (s\<lparr>inflight := inflight s @ [new_entry pid h now]\<rparr>)"
  by (auto simp: session_inv_def new_entry_def)

lemma track_delivery_spec:
  assumes inv: "registry_inv ms r" and sh: "shared_ok t p b shared r"
    and get: "registry_get r sid = Some s" and pid: "pid \<noteq> 0"
    and res: "track_delivery now t p b sid pid shared r = (shared', r')"
  shows "registry_inv ms r' \<and> pool_extends r r' \<and> shared_ok t p b shared' r'
    \<and> (registry_get r' = registry_get r
         \<and> (length (stored_publishes r') \<le> length (inflight s) \<or> untrackable t p b r')
       \<or> (\<exists>h sp. stored_publish_of r' h = Some sp \<and> same_content sp t p b
            \<and> registry_get r' = (registry_get r)(sid \<mapsto> s\<lparr>inflight := inflight s @ [new_entry pid h now]\<rparr>)))"
proof (cases "length (inflight s) < length (stored_publishes r)")
  case False
  then have "r' = r" "shared' = shared" using res get by (auto simp: track_delivery_def)
  then show ?thesis using inv sh False by simp
next
  case True
  obtain ho sh1 r1 where acq: "acquire_shared_publish t p b shared r = (ho, sh1, r1)"
    using prod_cases3 by blast
  note sp = acquire_shared_spec [OF inv sh acq]
  show ?thesis
  proof (cases ho)
    case None
    then have "r' = r1" "shared' = sh1" using res get acq True by (auto simp: track_delivery_def)
    then show ?thesis using sp None by (simp add: registry_inv_def)
  next
    case (Some h)
    let ?s = "s\<lparr>inflight := inflight s @ [new_entry pid h now]\<rparr>"
    have len: "length (stored_publishes r1) = length (stored_publishes r)"
      using sp(4) by (simp add: pool_extends_def)
    have get1: "registry_get r1 sid = Some s" using sp(3) get by simp
    have r': "r' = registry_get_mut sid (\<lambda>_. ?s) r1" "shared' = sh1"
      using res get acq True Some get1
      by (auto simp: track_delivery_def Let_def inflight_add_def new_entry_def)
    have "registry_wf ms r'"
      unfolding r' by (rule wf_get_mut [OF sp(1)])
        (use get1 len True pid inv_session [OF inv get] in \<open>auto intro!: session_inv_add_entry\<close>)
    moreover have "refs_ok {#} r'"
      using refs_ok_add_entry [OF get1, of "\<lambda>_. ?s" "new_entry pid h now" "{#}"] sp(2) Some
      by (simp add: r' new_entry_def)
    moreover have "registry_get r' = (registry_get r)(sid \<mapsto> ?s)"
      using get1 by (simp add: r' get_mut_get sp(3))
    moreover have "pool_extends r r'" unfolding r' using sp(4) pool_extends_get_mut by (rule pool_extends_trans)
    moreover have "shared_ok t p b shared' r'"
      unfolding r' using sp(5) pool_extends_get_mut by (rule shared_ok_extends)
    moreover have "shared' = Some h" using sp(6) Some r' by simp
    ultimately show ?thesis unfolding registry_inv_def shared_ok_def by auto
  qed
qed

section \<open>What one delivery does\<close>

lemma encode_publish_length: "encode_publish mq t p q b pid = Inr bs \<Longrightarrow> length bs \<le> MAX_OUTBOUND_FRAME_SIZE"
  by (auto simp: encode_publish_def Let_def split: option.splits sum.splits)

lemma encode_publish_err: "encode_publish mq t p q b pid = Inl e \<Longrightarrow> e = PPayloadTooLarge"
  by (auto simp: encode_publish_def Let_def split: option.splits sum.splits)

text \<open>
  The in-flight entries a delivery adds next to the \<open>n\<close> there are: for QoS 1 one that finds the message in the
  pool, unless the table or the pool has no room; otherwise none.
\<close>

definition tracked ::
  "instant \<Rightarrow> string \<Rightarrow> bytes \<Rightarrow> bool \<Rightarrow> qos \<Rightarrow> u16 \<Rightarrow> nat \<Rightarrow> session_registry \<Rightarrow> inflight_entry list \<Rightarrow> bool" where
  "tracked now t p b eff pid n r es \<longleftrightarrow>
     (if eff = AtLeastOnce
      then es = [] \<and> (length (stored_publishes r) \<le> n \<or> untrackable t p b r)
        \<or> (\<exists>h sp. es = [new_entry pid h now] \<and> stored_publish_of r h = Some sp \<and> same_content sp t p b)
      else es = [])"

lemma tracked_extends: "tracked now t p b eff pid n r es \<Longrightarrow> pool_extends r r' \<Longrightarrow> tracked now t p b eff pid n r' es"
  unfolding tracked_def using pool_extends_content untrackable_extends
  by (metis pool_extends_def)

text \<open>
  \<open>delivery_of ... r s s'\<close>: the session \<open>s\<close> becomes \<open>s'\<close> by one delivery. Either the encoded publish is
  queued, and for QoS 1 remembered with a handle under which the pool of \<open>r\<close> has the message (unless there is
  no room to remember it), or the full outbox is recorded as a drop.
\<close>

definition delivery_of ::
  "mqttrs \<Rightarrow> instant \<Rightarrow> u8 \<Rightarrow> qos \<Rightarrow> string \<Rightarrow> bytes \<Rightarrow> bool \<Rightarrow> session_registry
     \<Rightarrow> session_state \<Rightarrow> session_state \<Rightarrow> bool" where
  "delivery_of mq now max_drops eff t p b r s s' \<longleftrightarrow>
     (let (pid, s1) = delivery_pid eff s
      in \<exists>bs. encode_publish mq t p eff b pid = Inr bs \<and>
         (if length (outbox s) < MAX_OUTBOX_DEPTH
          then \<exists>es. s' = s1\<lparr>outbox := outbox s @ [\<lparr>ob_bytes = bs\<rparr>], inflight := inflight s @ es\<rparr>
            \<and> tracked now t p b eff pid (length (inflight s)) r es
          else s' = record_drop max_drops s1))"

lemma delivery_of_extends:
  assumes "delivery_of mq now md eff t p b r s s'" "pool_extends r r'"
  shows "delivery_of mq now md eff t p b r' s s'"
proof (cases "length (outbox s) < MAX_OUTBOX_DEPTH")
  case True
  obtain pid s1 where pid: "delivery_pid eff s = (pid, s1)" by fastforce
  obtain bs es where "encode_publish mq t p eff b pid = Inr bs" "tracked now t p b eff pid (length (inflight s)) r es"
      "s' = s1\<lparr>outbox := outbox s @ [\<lparr>ob_bytes = bs\<rparr>], inflight := inflight s @ es\<rparr>"
    using assms(1) True pid by (auto simp: delivery_of_def)
  then show ?thesis
    using tracked_extends [OF _ assms(2)] True pid by (auto simp: delivery_of_def)
qed (use assms(1) in \<open>simp add: delivery_of_def\<close>)

lemma delivery_pid_facts:
  assumes "delivery_pid eff s = (pid, s1)"
  shows "session_inv ms mi s1 = session_inv ms mi s" "sess_client_id s1 = sess_client_id s"
    "inflight s1 = inflight s" "outbox s1 = outbox s" "outbox_drops s1 = outbox_drops s"
    "quarantined s1 = quarantined s" "eff = AtLeastOnce \<Longrightarrow> pid \<noteq> 0"
  using assms next_packet_id_frame [of s] next_packet_id_nonzero [of s]
  by (auto simp: delivery_pid_def session_inv_def split: if_splits)

lemma record_drop_facts:
  "session_inv ms mi (record_drop md s) = session_inv ms mi s"
  "sess_client_id (record_drop md s) = sess_client_id s" "inflight (record_drop md s) = inflight s"
  "outbox (record_drop md s) = outbox s"
  by (auto simp: record_drop_def Let_def session_inv_def)

lemma session_inv_push:
  "session_inv ms mi s \<Longrightarrow> length bs \<le> MAX_OUTBOUND_FRAME_SIZE \<Longrightarrow> length (outbox s) < MAX_OUTBOX_DEPTH \<Longrightarrow>
   session_inv ms mi (s\<lparr>outbox := outbox s @ [\<lparr>ob_bytes = bs\<rparr>]\<rparr>)"
  by (auto simp: session_inv_def)

lemma length_signal [simp]: "length (signal_session i sigs) = length sigs"
  by (simp add: signal_session_def)

text \<open>What a round of the loop leaves behind at the session it serves.\<close>

definition round_ok ::
  "nat \<Rightarrow> mqttrs \<Rightarrow> instant \<Rightarrow> u8 \<Rightarrow> qos \<Rightarrow> string \<Rightarrow> bytes \<Rightarrow> bool \<Rightarrow> session_id \<Rightarrow> session_registry
     \<Rightarrow> publish_error + stored_publish_handle option \<Rightarrow> session_registry \<Rightarrow> bool" where
  "round_ok ms mq now md eff t p b sid r x r' \<longleftrightarrow>
     registry_inv ms r' \<and> pool_extends r r'
     \<and> (\<forall>j. j \<noteq> sid \<longrightarrow> registry_get r' j = registry_get r j)
     \<and> (case x of
          Inl e \<Rightarrow> e = PPayloadTooLarge
        | Inr shared' \<Rightarrow> shared_ok t p b shared' r'
            \<and> (case registry_get r sid of
                 None \<Rightarrow> registry_get r' sid = None
               | Some s \<Rightarrow> \<exists>s'. registry_get r' sid = Some s' \<and> delivery_of mq now md eff t p b r' s s'))"

lemma round_queued:
  assumes inv: "registry_inv ms r" and sh: "shared_ok t p b shared r" and get: "registry_get r sid = Some s"
    and pid: "delivery_pid eff s = (pid, s1)" and enc: "encode_publish mq t p eff b pid = Inr bs"
    and room: "length (outbox s) < MAX_OUTBOX_DEPTH"
    and r1: "r1 = registry_get_mut sid (\<lambda>_. s1\<lparr>outbox := outbox s @ [\<lparr>ob_bytes = bs\<rparr>]\<rparr>) r"
  shows "eff \<noteq> AtLeastOnce \<Longrightarrow> round_ok ms mq now md eff t p b sid r (Inr shared) r1"
    and "eff = AtLeastOnce \<Longrightarrow> track_delivery now t p b sid pid shared r1 = (sh2, r2) \<Longrightarrow>
      round_ok ms mq now md eff t p b sid r (Inr sh2) r2"
proof -
  let ?s2 = "s1\<lparr>outbox := outbox s @ [\<lparr>ob_bytes = bs\<rparr>]\<rparr>"
  note f = delivery_pid_facts [OF pid]
  have inv1: "registry_inv ms r1" unfolding r1
    by (rule inv_put [OF inv get])
      (use f inv_session [OF inv get] room session_inv_push [OF _ encode_publish_length [OF enc], of ms _ s1] in auto)
  have get1: "registry_get r1 = (registry_get r)(sid \<mapsto> ?s2)" using get by (simp add: r1 get_mut_get)
  have ext: "pool_extends r r1" by (simp add: r1)
  have plain: "delivery_of mq now md eff t p b q s ?s2"
    if "eff \<noteq> AtLeastOnce \<or> length (stored_publishes q) \<le> length (inflight s) \<or> untrackable t p b q" for q
    using enc room pid f(3) that by (auto simp: delivery_of_def tracked_def intro!: exI [of _ "[]"])
  show "round_ok ms mq now md eff t p b sid r (Inr shared) r1" if "eff \<noteq> AtLeastOnce"
    using that inv1 ext get1 get plain shared_ok_extends [OF sh ext] by (simp add: round_ok_def)
  assume eff: "eff = AtLeastOnce" and tr: "track_delivery now t p b sid pid shared r1 = (sh2, r2)"
  have sp: "registry_inv ms r2" "pool_extends r1 r2" "shared_ok t p b sh2 r2"
    "registry_get r2 = registry_get r1
       \<and> (length (stored_publishes r2) \<le> length (inflight s) \<or> untrackable t p b r2)
     \<or> (\<exists>h sp. stored_publish_of r2 h = Some sp \<and> same_content sp t p b
         \<and> registry_get r2 = (registry_get r1)(sid \<mapsto> ?s2\<lparr>inflight := inflight ?s2 @ [new_entry pid h now]\<rparr>))"
    using track_delivery_spec [OF inv1 shared_ok_extends [OF sh ext] _ f(7) [OF eff] tr, of ?s2] get1 f(3) by auto
  have "delivery_of mq now md eff t p b r2 s (?s2\<lparr>inflight := inflight ?s2 @ [new_entry pid h now]\<rparr>)"
    if "stored_publish_of r2 h = Some sp" "same_content sp t p b" for h sp
    using that enc room pid f(3) eff
    by (auto simp: delivery_of_def tracked_def intro!: exI [of _ "[new_entry pid h now]"])
  then show "round_ok ms mq now md eff t p b sid r (Inr sh2) r2"
    using sp pool_extends_trans [OF ext sp(2)] get get1 plain [of r2]
    by (auto simp: round_ok_def)
qed

lemma deliver_to_spec:
  assumes inv: "registry_inv ms r" and sh: "shared_ok t p b shared r"
    and res: "deliver_to mq now md q t p b (sid, q') shared r sigs = (x, r', sigs')"
  shows "round_ok ms mq now md (min q q') t p b sid r x r' \<and> length sigs' = length sigs"
proof (cases "registry_get r sid")
  case None
  then show ?thesis using res inv sh by (auto simp: deliver_to_def round_ok_def)
next
  case (Some s)
  obtain pid s1 where pid: "delivery_pid (min q q') s = (pid, s1)" by fastforce
  note f = delivery_pid_facts [OF pid]
  note put = inv_put [OF inv Some]
  show ?thesis
  proof (cases "encode_publish mq t p (min q q') b pid")
    case (Inl e)
    then have "x = Inl e" "r' = registry_get_mut sid (\<lambda>_. s1) r" "sigs' = sigs"
      using res Some pid by (auto simp: deliver_to_def)
    then show ?thesis
      using put [of s1] f inv_session [OF inv Some] encode_publish_err [OF Inl]
      by (simp add: get_mut_get round_ok_def)
  next
    case (Inr bs)
    show ?thesis
    proof (cases "length (outbox s) < MAX_OUTBOX_DEPTH")
      case False
      then have eq: "x = Inr shared" "r' = registry_get_mut sid (\<lambda>_. record_drop md s1) r" "sigs' = sigs"
        using res Some pid Inr f by (auto simp: deliver_to_def)
      have "registry_inv ms r'" unfolding eq
        by (rule put) (use f inv_session [OF inv Some] in \<open>auto simp: record_drop_facts\<close>)
      moreover have "delivery_of mq now md (min q q') t p b r' s (record_drop md s1)"
        using Inr False pid by (simp add: delivery_of_def)
      ultimately show ?thesis
        using eq Some shared_ok_extends [OF sh, of r'] by (simp add: get_mut_get round_ok_def)
    next
      case True
      note rd = round_queued [OF inv sh Some pid Inr True refl, where now = now and md = md]
      show ?thesis
        using res Some pid Inr True f(4) rd(1) rd(2)
        by (auto simp: deliver_to_def Let_def split: if_splits prod.splits)
    qed
  qed
qed

text \<open>The whole loop.\<close>

definition all_delivered ::
  "mqttrs \<Rightarrow> instant \<Rightarrow> u8 \<Rightarrow> qos \<Rightarrow> string \<Rightarrow> bytes \<Rightarrow> bool \<Rightarrow> (session_id \<times> qos) list
     \<Rightarrow> session_registry \<Rightarrow> session_registry \<Rightarrow> bool" where
  "all_delivered mq now md q t p b ts r r' \<longleftrightarrow>
     (\<forall>i q' s. (i, q') \<in> set ts \<longrightarrow> registry_get r i = Some s \<longrightarrow>
        (\<exists>s'. registry_get r' i = Some s' \<and> delivery_of mq now md (min q q') t p b r' s s'))"

lemma deliver_all_spec:
  assumes "registry_inv ms r" "shared_ok t p b shared r" "distinct (map fst ts)"
    and "deliver_all mq now md q t p b ts shared r sigs = (x, r', sigs')"
  shows "registry_inv ms r' \<and> pool_extends r r' \<and> length sigs' = length sigs
    \<and> (\<forall>j. j \<notin> fst ` set ts \<longrightarrow> registry_get r' j = registry_get r j)
    \<and> (x = Inl PPayloadTooLarge \<or> x = Inr () \<and> all_delivered mq now md q t p b ts r r')"
  using assms
proof (induction ts arbitrary: shared r sigs)
  case Nil
  then show ?case by (auto simp: all_delivered_def)
next
  case (Cons tq ts)
  obtain i q1 where tq: "tq = (i, q1)" by fastforce
  obtain y r1 sigs1 where one: "deliver_to mq now md q t p b (i, q1) shared r sigs = (y, r1, sigs1)"
    using prod_cases3 by blast
  have rd: "round_ok ms mq now md (min q q1) t p b i r y r1" "length sigs1 = length sigs"
    using deliver_to_spec [OF Cons.prems(1,2) one] by auto
  show ?case
  proof (cases y)
    case (Inl e)
    then have "x = Inl e" "r' = r1" "sigs' = sigs1" using Cons.prems(4) one tq by auto
    then show ?thesis using rd Inl tq by (auto simp: round_ok_def)
  next
    case (Inr sh1)
    then have rest: "deliver_all mq now md q t p b ts sh1 r1 sigs1 = (x, r', sigs')"
      using Cons.prems(4) one tq by simp
    have ok1: "registry_inv ms r1" "shared_ok t p b sh1 r1" "distinct (map fst ts)" "pool_extends r r1"
      using rd(1) Inr Cons.prems(3) by (auto simp: round_ok_def)
    note IH = Cons.IH [OF ok1(1,2,3) rest]
    have i: "i \<notin> fst ` set ts" using Cons.prems(3) tq by simp
    have "all_delivered mq now md q t p b (tq # ts) r r'" if all: "all_delivered mq now md q t p b ts r1 r'"
      unfolding all_delivered_def
    proof (intro allI impI)
      fix j q' s
      assume mem: "(j, q') \<in> set (tq # ts)" and s: "registry_get r j = Some s"
      show "\<exists>s'. registry_get r' j = Some s' \<and> delivery_of mq now md (min q q') t p b r' s s'"
      proof (cases "j = i")
        case True
        then have "q' = q1" using mem i tq by (force simp: image_iff)
        then show ?thesis
          using rd(1) Inr s True IH i by (auto simp: round_ok_def intro: delivery_of_extends)
      next
        case False
        then have "registry_get r1 j = Some s" "(j, q') \<in> set ts"
          using rd(1) s mem tq by (auto simp: round_ok_def)
        then show ?thesis using all by (auto simp: all_delivered_def)
      qed
    qed
    moreover have "registry_get r1 j = registry_get r j" if "j \<noteq> i" for j
      using rd(1) that by (simp add: round_ok_def)
    ultimately show ?thesis
      using IH rd(2) tq pool_extends_trans [OF ok1(4)] by auto
  qed
qed

section \<open>The shared state's invariant\<close>

definition broker_inv :: "nat \<Rightarrow> nat \<Rightarrow> 'h broker \<Rightarrow> bool" where
  "broker_inv max_subs max_retained b \<longleftrightarrow>
     registry_inv max_subs (br_registry b) \<and> retained_inv max_retained (br_retained b)
     \<and> length (br_signals b) = length (slots (br_registry b))"

lemma inv_rate:
  assumes "registry_inv ms r" "registry_get r i = Some s"
  shows "registry_inv ms (registry_get_mut i (\<lambda>s. s\<lparr>rate := snd (try_consume td now (rate s))\<rparr>) r)"
proof -
  have "registry_wf ms (registry_get_mut i (\<lambda>s. s\<lparr>rate := snd (try_consume td now (rate s))\<rparr>) r)"
    by (rule wf_get_mut) (use assms in \<open>auto simp: registry_inv_def registry_wf_def session_inv_def try_consume_inv\<close>)
  then show ?thesis using assms by (simp add: registry_inv_def refs_ok_get_mut)
qed

lemma get_mut_cong:
  "registry_get r i = Some s \<Longrightarrow> f s = g s \<Longrightarrow> registry_get_mut i f r = registry_get_mut i g r"
  by (cases "cell (slots r ! i)")
    (auto simp: registry_get_mut_def registry_get_def look_def slot_as_ref_def slot_as_mut_def
      split: if_splits)

lemma forward_command_frame:
  "br_registry (snd (forward_command env p b)) = br_registry b"
  "br_retained (snd (forward_command env p b)) = br_retained b"
  "br_signals (snd (forward_command env p b)) = br_signals b"
  by (auto simp: forward_command_def split: option.splits)

lemma length_slots_extends: "pool_extends r r' \<Longrightarrow> length (slots r') = length (slots r)"
  by (simp add: pool_extends_def)

lemma retained_registry_swap:
  "b\<lparr>br_retained := rs, br_registry := r\<rparr> = b\<lparr>br_registry := r, br_retained := rs\<rparr>"
  by simp

text \<open>The ways \<open>handle_publish_at\<close> ends once the sender is found.\<close>

lemma handle_publish_at_cases:
  fixes b :: "'h broker"
  assumes inv: "broker_inv ms (env_max_retained env) b"
    and get: "registry_get (br_registry b) sid = Some s"
  obtains (limited) b1 where
      "\<not> fst (try_consume (env_td env) now (rate s))" "broker_inv ms (env_max_retained env) b1"
      "b1 = b\<lparr>br_registry := registry_get_mut sid (\<lambda>s. s\<lparr>rate := snd (try_consume (env_td env) now (rate s))\<rparr>) (br_registry b)\<rparr>"
      "handle_publish_at env sid p now mv md b =
         (if mv \<le> violations (snd (try_consume (env_td env) now (rate s))) \<or> qospid_qos (qospid p) \<noteq> AtMostOnce
          then Inl RateLimitDisconnect else Inr (), b1)"
  | (retained) e b1 where
      "fst (try_consume (env_td env) now (rate s))" "pub_retain p"
      "fst (retained_set (env_max_retained env) (topic_name p) (pub_payload p) (qospid_qos (qospid p)) (br_retained b)) = Inl e"
      "handle_publish_at env sid p now mv md b = (Inl (map_retained_error e), b1)"
      "broker_inv ms (env_max_retained env) b1"
  | (undeliverable) b1 where
      "fst (try_consume (env_td env) now (rate s))"
      "handle_publish_at env sid p now mv md b = (Inl PPayloadTooLarge, b1)"
      "broker_inv ms (env_max_retained env) b1"
  | (delivered) r1 r2 sigs rs where
      "fst (try_consume (env_td env) now (rate s))"
      "r1 = registry_get_mut sid (\<lambda>s. s\<lparr>rate := snd (try_consume (env_td env) now (rate s))\<rparr>) (br_registry b)"
      "all_delivered (env_mq env) now md (qospid_qos (qospid p)) (topic_name p) (pub_payload p) (pub_retain p)
         (find_subscribers r1 (topic_name p) sid) r1 r2"
      "\<forall>j. j \<notin> fst ` set (find_subscribers r1 (topic_name p) sid) \<longrightarrow> registry_get r2 j = registry_get r1 j"
      "rs = (if pub_retain p then snd (retained_set (env_max_retained env) (topic_name p) (pub_payload p)
         (qospid_qos (qospid p)) (br_retained b)) else br_retained b)"
      "handle_publish_at env sid p now mv md b
         = forward_command env p (b\<lparr>br_registry := r2, br_retained := rs, br_signals := sigs\<rparr>)"
      "broker_inv ms (env_max_retained env) (b\<lparr>br_registry := r2, br_retained := rs, br_signals := sigs\<rparr>)"
proof -
  let ?c = "try_consume (env_td env) now (rate s)"
  let ?q = "qospid_qos (qospid p)"
  define r1 where "r1 = registry_get_mut sid (\<lambda>s. s\<lparr>rate := snd (try_consume (env_td env) now (rate s))\<rparr>) (br_registry b)"
  have r1: "registry_get_mut sid (\<lambda>s. s\<lparr>rate := snd ?c\<rparr>) (br_registry b) = r1"
    unfolding r1_def by (rule get_mut_cong [OF get]) simp
  have inv1: "registry_inv ms r1" "length (slots r1) = length (slots (br_registry b))"
    using inv get by (auto simp: r1_def broker_inv_def inv_rate get_mut_frame)
  note [simp] = handle_publish_at_def get r1 case_prod_unfold Let_def
  show thesis
  proof (cases "fst ?c")
    case False
    then show thesis
      by (intro limited [of "b\<lparr>br_registry := r1\<rparr>"]) (use inv inv1 in \<open>auto simp: broker_inv_def r1_def\<close>)
  next
    case True
    define rr where "rr = (if pub_retain p then retained_set (env_max_retained env) (topic_name p) (pub_payload p) ?q
        (br_retained b) else (Inr (), br_retained b))"
    have rs: "retained_inv (env_max_retained env) (snd rr)"
      using inv retained_set_inv by (auto simp: rr_def broker_inv_def)
    show thesis
    proof (cases "fst rr")
      case (Inl e)
      then have "pub_retain p" by (auto simp: rr_def split: if_splits)
      then show thesis using True Inl rs inv1 inv
        by (intro retained [of e "b\<lparr>br_registry := r1, br_retained := snd rr\<rparr>"])
          (auto simp: broker_inv_def rr_def)
    next
      case (Inr u)
      obtain x r2 sg where d: "deliver_all (env_mq env) now md ?q (topic_name p) (pub_payload p) (pub_retain p)
          (find_subscribers r1 (topic_name p) sid) None r1 (br_signals b) = (x, r2, sg)"
        using prod_cases3 by blast
      have dist: "distinct (map fst (find_subscribers r1 (topic_name p) sid))"
        unfolding find_subscribers_filter by (rule iter_filter_distinct)
      note sp = deliver_all_spec [OF inv1(1) _ dist d, unfolded shared_ok_def option.case]
      have inv2: "broker_inv ms (env_max_retained env) (b\<lparr>br_registry := r2, br_retained := snd rr, br_signals := sg\<rparr>)"
        using sp inv inv1 rs length_slots_extends [of r1 r2] by (auto simp: broker_inv_def)
      show thesis
      proof (cases x)
        case (Inl e)
        then show thesis using sp True Inr d inv2
          by (intro undeliverable [of "b\<lparr>br_registry := r2, br_retained := snd rr, br_signals := sg\<rparr>"])
            (auto simp: rr_def)
      next
        case (Inr u')
        then show thesis using sp True \<open>fst rr = Inr u\<close> d inv2
          by (intro delivered [of r1 r2 "snd rr" sg])
            (auto simp: r1_def [symmetric] rr_def retained_registry_swap)
      qed
    qed
  qed
qed

lemma handle_publish_at_inv:
  assumes "broker_inv ms (env_max_retained env) b"
  shows "broker_inv ms (env_max_retained env) (snd (handle_publish_at env sid p now mv md b))"
proof (cases "registry_get (br_registry b) sid")
  case None
  then show ?thesis using assms by (simp add: handle_publish_at_def)
next
  case (Some s)
  show ?thesis
    by (cases rule: handle_publish_at_cases [OF assms Some, of now p mv md])
      (auto simp: broker_inv_def forward_command_frame)
qed

lemma process_outbound_publish_inv:
  assumes inv: "broker_inv ms (env_max_retained env) b"
  shows "broker_inv ms (env_max_retained env) (snd (process_outbound_publish env p now b))"
proof -
  define rr where "rr = (if mp_retain p then retained_set (env_max_retained env) (mp_topic p) (mp_payload p) (mp_qos p)
      (br_retained b) else (Inr (), br_retained b))"
  have rs: "retained_inv (env_max_retained env) (snd rr)"
    using inv retained_set_inv by (auto simp: rr_def broker_inv_def)
  obtain x r2 sg where d: "deliver_all (env_mq env) now (max_outbox_drops GATOMQTT_CONFIG) (mp_qos p) (mp_topic p)
      (mp_payload p) (mp_retain p) (find_all_subscribers (br_registry b) (mp_topic p)) None (br_registry b)
      (br_signals b) = (x, r2, sg)"
    using prod_cases3 by blast
  have dist: "distinct (map fst (find_all_subscribers (br_registry b) (mp_topic p)))"
    unfolding find_all_subscribers_filter by (rule iter_filter_distinct)
  have "registry_inv ms r2 \<and> pool_extends (br_registry b) r2 \<and> length sg = length (br_signals b)"
    using deliver_all_spec [OF _ _ dist d, of ms] inv by (simp add: broker_inv_def shared_ok_def)
  then show ?thesis
    using inv rs d length_slots_extends [of "br_registry b" r2]
    by (auto simp: process_outbound_publish_def rr_def broker_inv_def Let_def split: prod.splits sum.splits)
qed

lemma find_subscribers_iff:
  "(i, q) \<in> set (find_subscribers r t s) \<longleftrightarrow>
   i \<noteq> s \<and> (\<exists>st. registry_get r i = Some st \<and> granted t st \<noteq> {} \<and> q = Max (granted t st))"
  unfolding find_subscribers_filter iter_filter_iff by auto

lemma handle_publish_at_ok:
  assumes "broker_inv ms (env_max_retained env) b" "registry_get (br_registry b) sid = Some s"
    and ok: "fst (try_consume (env_td env) now (rate s))"
    and res: "handle_publish_at env sid p now mv md b = (Inr (), b')"
  obtains r1 r2 sigs rs where
    "r1 = registry_get_mut sid (\<lambda>s. s\<lparr>rate := snd (try_consume (env_td env) now (rate s))\<rparr>) (br_registry b)"
    "all_delivered (env_mq env) now md (qospid_qos (qospid p)) (topic_name p) (pub_payload p) (pub_retain p)
       (find_subscribers r1 (topic_name p) sid) r1 r2"
    "\<forall>j. j \<notin> fst ` set (find_subscribers r1 (topic_name p) sid) \<longrightarrow> registry_get r2 j = registry_get r1 j"
    "rs = (if pub_retain p then snd (retained_set (env_max_retained env) (topic_name p) (pub_payload p)
       (qospid_qos (qospid p)) (br_retained b)) else br_retained b)"
    "(Inr (), b') = forward_command env p (b\<lparr>br_registry := r2, br_retained := rs, br_signals := sigs\<rparr>)"
proof (rule handle_publish_at_cases [OF assms(1,2), of now p mv md], goal_cases)
  case 1
  then show ?case using ok by simp
next
  case 2
  then show ?case using res by simp
next
  case 3
  then show ?case using res by simp
next
  case (4 r1 r2 sigs rs)
  show ?case by (rule 4(1) [OF 4(3-6) trans [OF res [symmetric] 4(7)]])
qed

lemma all_delivered_granted:
  assumes "all_delivered mq now md q topic payload retain (find_subscribers r1 topic sid) r1 r2"
    and "\<forall>j. j \<notin> fst ` set (find_subscribers r1 topic sid) \<longrightarrow> registry_get r2 j = registry_get r1 j"
    and "i \<noteq> sid" "registry_get r1 i = Some st"
  shows "if granted topic st = {} then registry_get r2 i = Some st
    else \<exists>st'. registry_get r2 i = Some st'
      \<and> delivery_of mq now md (min q (Max (granted topic st))) topic payload retain r2 st st'"
proof (cases "granted topic st = {}")
  case True
  then have "i \<notin> fst ` set (find_subscribers r1 topic sid)"
    using assms(4) by (auto simp: find_subscribers_iff)
  with True assms(2,4) show ?thesis by simp
next
  case False
  then have "(i, Max (granted topic st)) \<in> set (find_subscribers r1 topic sid)"
    using assms(3,4) by (simp add: find_subscribers_iff)
  with False assms(1,4) show ?thesis unfolding all_delivered_def by auto
qed

section \<open>Properties\<close>


text \<open>A broker with a publisher and a subscriber, for the witnesses.\<close>

definition example_subscriber :: session_state where
  "example_subscriber = (session_new ''s'' 60)\<lparr>subscriptions := [\<lparr>sub_filter = ''a/#'', sub_qos = AtLeastOnce\<rparr>]\<rparr>"

definition example_env :: "mqtt_intent list broker_env" where
  "example_env = \<lparr>env_td = ms_driver, env_mq = example_codec, env_max_subs = 4, env_max_retained = 4,
     env_max_packet = 256, env_handle = channel_handle 2\<rparr>"

definition example_broker :: "mqtt_intent list broker" where
  "example_broker = \<lparr>br_registry =
       snd (registry_insert example_subscriber (snd (registry_insert (session_new ''p'' 60) (registry_new 2 2)))),
     br_retained = retained_new, br_signals = new_session_signals 2, br_handler = []\<rparr>"

definition example_publish :: publish where
  "example_publish = \<lparr>dup = False, qospid = QosPid1 7, pub_retain = False, topic_name = ''a/b'', pub_payload = [1]\<rparr>"

lemma example_broker_inv: "broker_inv 4 4 example_broker"
  and example_broker_get: "registry_get (br_registry example_broker) =
    [0 \<mapsto> session_new ''p'' 60, 1 \<mapsto> example_subscriber]"
proof -
  define r0 where "r0 = snd (registry_insert (session_new ''p'' 60) (registry_new 2 2))"
  define r1 where "r1 = snd (registry_insert example_subscriber r0)"
  have r0: "registry_insert (session_new ''p'' 60) (registry_new 2 2) = (Inr 0, r0)"
    by (simp add: r0_def registry_insert_def registry_new_def slot_defs numeral_2_eq_2)
  have r1: "registry_insert example_subscriber r0 = (Inr 1, r1)"
    by (simp add: r1_def r0_def registry_insert_def registry_new_def slot_defs numeral_2_eq_2)
  have get: "registry_get (registry_new 2 2) = Map.empty"
    by (simp add: registry_get_def [abs_def] registry_new_def slot.look_empty)
  have get0: "registry_get r0 = [0 \<mapsto> session_new ''p'' 60]"
    using insert_okD(2) [OF r0 inv_slots_ok [OF registry_new_inv]] get by simp
  have inv0: "registry_inv 4 r0"
    by (rule insert_inv [OF registry_new_inv r0]) (simp_all add: session_new_inv get, simp add: session_new_def)
  have "session_inv 4 (length (stored_publishes r0)) (session_new ''s'' 60)"
    by (rule session_new_inv) simp
  moreover have "is_valid_filter ''a/#''" by code_simp
  ultimately have si: "session_inv 4 (length (stored_publishes r0)) example_subscriber"
    by (simp add: session_inv_def example_subscriber_def session_new_def)
  have inv1: "registry_inv 4 r1"
    by (rule insert_inv [OF inv0 r1 si]) (auto simp: get0 example_subscriber_def session_new_def split: if_splits)
  have br: "br_registry example_broker = r1" by (simp add: example_broker_def r1_def r0_def)
  show "registry_get (br_registry example_broker) = [0 \<mapsto> session_new ''p'' 60, 1 \<mapsto> example_subscriber]"
    using insert_okD(2) [OF r1 inv_slots_ok [OF inv0]] get0 br by simp
  have "length (slots r1) = 2"
    by (simp add: r1_def r0_def registry_insert_def registry_new_def slot_defs numeral_2_eq_2)
  then show "broker_inv 4 4 example_broker"
    using inv1 br by (simp add: broker_inv_def example_broker_def new_session_signals_def retained_inv_def retained_new_def)
qed


end
