(* ===== verification/Retry.thy ===== *)
theory Retry
  imports Publish
begin

text \<open>
  Acknowledgement and retransmission of QoS 1 deliveries: \<open>handle_puback\<close> and
  \<open>process_inflight_retries\<close> of \<^verbatim>\<open>crates/GatoMQTT/src/handler/publish.rs\<close>.
\<close>

section \<open>Acknowledgement\<close>

definition handle_puback :: "u16 \<Rightarrow> session_state \<Rightarrow> stored_publish_handle option \<times> session_state" where
  "handle_puback pid session =
     (case inflight_remove pid session of
        (None, session') \<Rightarrow> (None, session')
      | (Some entry, session') \<Rightarrow> (Some (inf_publish entry), session'))"

section \<open>Retransmission\<close>

datatype 'e retry_disconnect = MaxRetriesExceeded u16 u8 | InvalidPacketId u16
  | MissingStoredPublish u16 | RetryWrite "'e write_error"

definition update_entry ::
  "nat \<Rightarrow> (inflight_entry \<Rightarrow> inflight_entry) \<Rightarrow> session_state \<Rightarrow> session_state" where
  "update_entry index f s =
     (if index < length (inflight s) then s\<lparr>inflight := (inflight s)[index := f (inflight s ! index)]\<rparr>
      else s)"

text \<open>The loop \<open>for index in 0..inflight_len\<close>; \<open>n\<close> counts the rounds left.\<close>

fun retry_loop ::
  "time_driver \<Rightarrow> mqttrs \<Rightarrow> ('s, 'e) transport \<Rightarrow> nat \<Rightarrow> u32 \<Rightarrow> u8 \<Rightarrow> instant \<Rightarrow> session_id \<Rightarrow> nat \<Rightarrow> nat
     \<Rightarrow> session_registry \<Rightarrow> 's \<Rightarrow> ('e retry_disconnect + unit) \<times> session_registry \<times> 's" where
  "retry_loop td mq tr m retry_ms max_retries now sid index 0 r s = (Inr (), r, s)"
| "retry_loop td mq tr m retry_ms max_retries now sid index (Suc n) r s =
     (case registry_get r sid of
        None \<Rightarrow> (Inr (), r, s)
      | Some session \<Rightarrow>
          (if index < length (inflight session) \<and> entry_due td now retry_ms (inflight session ! index)
           then (let entry = inflight session ! index;
                     tries = saturating_add (retries entry) 1;
                     r1 = registry_get_mut sid (update_entry index (\<lambda>e. e\<lparr>retries := tries\<rparr>)) r
                 in if tries > max_retries then (Inl (MaxRetriesExceeded (packet_id entry) tries), r1, s)
                    else case pid_try_from mq (packet_id entry) of
                      None \<Rightarrow> (Inl (InvalidPacketId (packet_id entry)), r1, s)
                    | Some pid \<Rightarrow>
                        (case stored_publish_of r1 (inf_publish entry) of
                           None \<Rightarrow> (Inl (MissingStoredPublish (packet_id entry)), r1, s)
                         | Some stored \<Rightarrow>
                             (case write_packet mq tr m (Publish \<lparr>dup = True, qospid = QosPid1 pid,
                                       pub_retain = sp_retain stored, topic_name = sp_topic stored,
                                       pub_payload = sp_payload stored\<rparr>) s of
                                (Inl e, s') \<Rightarrow> (Inl (RetryWrite e), r1, s')
                              | (Inr _, s') \<Rightarrow>
                                  retry_loop td mq tr m retry_ms max_retries now sid (Suc index) n
                                    (registry_get_mut sid (update_entry index (\<lambda>e.
                                        if packet_id e = packet_id entry
                                        then e\<lparr>sent_at := now, retries := tries\<rparr> else e)) r1) s')))
           else retry_loop td mq tr m retry_ms max_retries now sid (Suc index) n r s))"

definition process_inflight_retries_at ::
  "time_driver \<Rightarrow> mqttrs \<Rightarrow> ('s, 'e) transport \<Rightarrow> nat \<Rightarrow> session_id \<Rightarrow> u32 \<Rightarrow> u8 \<Rightarrow> instant
     \<Rightarrow> session_registry \<Rightarrow> 's \<Rightarrow> ('e retry_disconnect + unit) \<times> session_registry \<times> 's" where
  "process_inflight_retries_at td mq tr m sid retry_ms max_retries now r s =
     (let inflight_len = (case registry_get r sid of None \<Rightarrow> 0 | Some session \<Rightarrow> length (inflight session))
      in retry_loop td mq tr m retry_ms max_retries now sid 0 inflight_len r s)"

section \<open>Acknowledgement frees what it acknowledges\<close>

text \<open>The PUBACK branch of the connection loop: the entry leaves the table and its handle is released.\<close>

definition apply_puback :: "session_id \<Rightarrow> u16 \<Rightarrow> instant \<Rightarrow> session_registry \<Rightarrow> session_registry option" where
  "apply_puback sid pid now r =
     (case registry_get r sid of
        None \<Rightarrow> None
      | Some session \<Rightarrow>
          (let (freed, session') = handle_puback pid (update_activity_at now session);
               r' = registry_get_mut sid (\<lambda>_. session') r
           in Some (case freed of None \<Rightarrow> r' | Some h \<Rightarrow> release_stored_publish h r')))"

lemma handle_puback_cases:
  obtains (absent) "handle_puback pid s = (None, s)" "\<forall>e\<in>set (inflight s). packet_id e \<noteq> pid"
  | (present) ys e zs where "inflight s = ys @ e # zs" "packet_id e = pid" "\<forall>x\<in>set ys. packet_id x \<noteq> pid"
      "handle_puback pid s = (Some (inf_publish e), s\<lparr>inflight := ys @ zs\<rparr>)"
proof (cases rule: inflight_remove_cases [of pid s])
  case absent
  then show thesis by (intro that(1)) (auto simp: handle_puback_def)
next
  case (present ys e zs)
  then show thesis by (intro that(2)) (auto simp: handle_puback_def)
qed

lemma session_inv_drop_entry:
  "session_inv ms mi s \<Longrightarrow> inflight s = ys @ e # zs \<Longrightarrow> session_inv ms mi (s\<lparr>inflight := ys @ zs\<rparr>)"
  by (auto simp: session_inv_def)

lemma session_inv_activity [simp]: "session_inv ms mi (update_activity_at now s) = session_inv ms mi s"
  by (simp add: session_inv_def update_activity_at_def)

lemma activity_frame [simp]:
  "inflight (update_activity_at now s) = inflight s" "sess_client_id (update_activity_at now s) = sess_client_id s"
  "subscriptions (update_activity_at now s) = subscriptions s" "lwt (update_activity_at now s) = lwt s"
  by (simp_all add: update_activity_at_def)

lemma wf_release: "registry_wf ms r \<Longrightarrow> registry_wf ms (release_stored_publish h r)"
  by (rule wf_pool [of ms r])
    (auto simp: registry_simps registry_wf_def dest!: release_stored_sub)

text \<open>The table without the first entry for a packet identifier.\<close>

definition acked :: "u16 \<Rightarrow> inflight_entry list \<Rightarrow> inflight_entry list" where
  "acked pid es = takeWhile (\<lambda>e. packet_id e \<noteq> pid) es @ tl (dropWhile (\<lambda>e. packet_id e \<noteq> pid) es)"

lemma acked_absent: "\<forall>e\<in>set es. packet_id e \<noteq> pid \<Longrightarrow> acked pid es = es"
  by (induction es) (auto simp: acked_def)

lemma acked_present:
  "packet_id e = pid \<Longrightarrow> \<forall>x\<in>set ys. packet_id x \<noteq> pid \<Longrightarrow> acked pid (ys @ e # zs) = ys @ zs"
  by (simp add: acked_def takeWhile_append dropWhile_append)

lemma apply_puback_spec:
  assumes inv: "registry_inv ms r" and get: "registry_get r sid = Some s"
  obtains r' where "apply_puback sid pid now r = Some r'" "registry_inv ms r'"
    "registry_get r' = (registry_get r)(sid \<mapsto> (update_activity_at now s)\<lparr>inflight := acked pid (inflight s)\<rparr>)"
proof (cases rule: handle_puback_cases [of pid "update_activity_at now s"])
  case absent
  let ?r = "registry_get_mut sid (\<lambda>_. update_activity_at now s) r"
  have "registry_inv ms ?r"
    by (rule inv_put [OF inv get]) (use inv_session [OF inv get] in auto)
  moreover have "registry_get ?r =
      (registry_get r)(sid \<mapsto> (update_activity_at now s)\<lparr>inflight := acked pid (inflight s)\<rparr>)"
    using get absent by (simp add: get_mut_get acked_absent update_activity_at_def)
  moreover have "apply_puback sid pid now r = Some ?r" using get absent by (simp add: apply_puback_def)
  ultimately show thesis using that by blast
next
  case (present ys e zs)
  let ?s = "(update_activity_at now s)\<lparr>inflight := ys @ zs\<rparr>"
  let ?r1 = "registry_get_mut sid (\<lambda>_. ?s) r"
  let ?r = "release_stored_publish (inf_publish e) ?r1"
  have fl: "inflight s = ys @ e # zs" using present by simp
  have "registry_wf ms ?r1"
    by (rule wf_get_mut)
      (use inv get inv_session [OF inv get] session_inv_drop_entry [OF _ present(1)] in \<open>auto simp: registry_inv_def\<close>)
  moreover have "refs_ok {#inf_publish e#} ?r1"
    using refs_ok_drop_entry [OF get fl, of "\<lambda>_. ?s" "{#}"] inv by (simp add: registry_inv_def)
  ultimately have "registry_inv ms ?r" by (simp add: registry_inv_def wf_release refs_ok_release)
  moreover have "registry_get ?r =
      (registry_get r)(sid \<mapsto> (update_activity_at now s)\<lparr>inflight := acked pid (inflight s)\<rparr>)"
    using get present by (simp add: get_mut_get registry_simps fl acked_present)
  moreover have "apply_puback sid pid now r = Some ?r" using get present by (simp add: apply_puback_def)
  ultimately show thesis using that by blast
qed

section \<open>Retransmission refined\<close>

text \<open>
  What retransmission means, on the list of entries: every entry that is due is sent again with the duplicate
  flag, in order, until the retry budget of one is used up or a write fails.
\<close>

fun resend ::
  "time_driver \<Rightarrow> mqttrs \<Rightarrow> ('s, 'e) transport \<Rightarrow> nat \<Rightarrow> u32 \<Rightarrow> u8 \<Rightarrow> instant
     \<Rightarrow> (stored_publish_handle \<Rightarrow> stored_publish) \<Rightarrow> inflight_entry list \<Rightarrow> 's
     \<Rightarrow> ('e retry_disconnect + unit) \<times> inflight_entry list \<times> 's" where
  "resend td mq tr m retry_ms max_retries now stored [] s = (Inr (), [], s)"
| "resend td mq tr m retry_ms max_retries now stored (e # es) s =
     (if \<not> entry_due td now retry_ms e
      then (let (x, es', s') = resend td mq tr m retry_ms max_retries now stored es s in (x, e # es', s'))
      else if saturating_add (retries e) 1 > max_retries
      then (Inl (MaxRetriesExceeded (packet_id e) (saturating_add (retries e) 1)),
            e\<lparr>retries := saturating_add (retries e) 1\<rparr> # es, s)
      else (case write_packet mq tr m (Publish \<lparr>dup = True, qospid = QosPid1 (packet_id e),
                     pub_retain = sp_retain (stored (inf_publish e)), topic_name = sp_topic (stored (inf_publish e)),
                     pub_payload = sp_payload (stored (inf_publish e))\<rparr>) s of
              (Inl w, s') \<Rightarrow> (Inl (RetryWrite w), e\<lparr>retries := saturating_add (retries e) 1\<rparr> # es, s')
            | (Inr _, s') \<Rightarrow>
                (let (x, es', s'') = resend td mq tr m retry_ms max_retries now stored es s'
                 in (x, e\<lparr>sent_at := now, retries := saturating_add (retries e) 1\<rparr> # es', s''))))"

lemma resend_handles:
  "map inf_publish (fst (snd (resend td mq tr m rm mx now stored es s))) = map inf_publish es"
  "map packet_id (fst (snd (resend td mq tr m rm mx now stored es s))) = map packet_id es"
  "map inf_qos (fst (snd (resend td mq tr m rm mx now stored es s))) = map inf_qos es"
  by (induction es arbitrary: s) (auto simp: case_prod_unfold Let_def split: sum.split)

lemma resend_errors:
  "resend td mq tr m rm mx now stored es s = (x, es', s') \<Longrightarrow>
   x \<notin> Inl ` (range InvalidPacketId \<union> range MissingStoredPublish)"
  by (induction es arbitrary: s x es' s') (auto simp: Let_def split: prod.splits sum.splits if_splits)

lemma get_mut_get_mut: "registry_get_mut i f (registry_get_mut i g r) = registry_get_mut i (f \<circ> g) r"
  by (auto simp: registry_get_mut_def slot_as_mut_def split: maybe_uninit.splits)

lemma as_mut_id: "slot_as_mut (\<lambda>x. x) s = s"
  by (cases s) (auto simp: slot_as_mut_def split: maybe_uninit.splits)

lemma get_mut_id: "registry_get r i = Some st \<Longrightarrow> f st = st \<Longrightarrow> registry_get_mut i f r = r"
  using get_mut_cong [of r i st f "\<lambda>x. x"] by (simp add: registry_get_mut_def as_mut_id)

lemma retry_loop_resend:
  assumes "registry_get r sid = Some st" "inflight st = pre @ es" and pids: "mqttrs_pids mq"
    and "\<And>e. e \<in> set es \<Longrightarrow> packet_id e \<noteq> 0"
    and "\<And>e. e \<in> set es \<Longrightarrow> stored_publish_of r (inf_publish e) = Some (stored (inf_publish e))"
  shows "retry_loop td mq tr m rm mx now sid (length pre) (length es) r s =
    (case resend td mq tr m rm mx now stored es s of
       (x, es', s') \<Rightarrow> (x, registry_get_mut sid (\<lambda>st. st\<lparr>inflight := pre @ es'\<rparr>) r, s'))"
  using assms
proof (induction es arbitrary: pre r st s)
  case Nil
  then show ?case by (simp add: get_mut_id)
next
  case (Cons e es)
  let ?t = "saturating_add (retries e) 1"
  have nth: "(pre @ e # es) ! length pre = e" "(pre @ e # es)[length pre := x] = pre @ x # es" for x by simp_all
  have upd: "registry_get_mut sid (update_entry (length pre) f) r
      = registry_get_mut sid (\<lambda>st. st\<lparr>inflight := pre @ f e # es\<rparr>) r" for f
    by (rule get_mut_cong [OF Cons.prems(1)]) (simp add: update_entry_def Cons.prems(2))
  have comp: "registry_get_mut sid (\<lambda>st. st\<lparr>inflight := xs\<rparr>) (registry_get_mut sid (\<lambda>st. st\<lparr>inflight := ys\<rparr>) q)
      = registry_get_mut sid (\<lambda>st. st\<lparr>inflight := xs\<rparr>) q" for xs ys q
    by (simp add: get_mut_get_mut comp_def)
  show ?case
  proof (cases "entry_due td now rm e")
    case False
    then show ?thesis
      using Cons.IH [OF Cons.prems(1), of "pre @ [e]" s] Cons.prems by (simp add: nth split: prod.split)
  next
    case True
    let ?r1 = "registry_get_mut sid (\<lambda>st. st\<lparr>inflight := pre @ e\<lparr>retries := ?t\<rparr> # es\<rparr>) r"
    let ?r2 = "registry_get_mut sid (\<lambda>st. st\<lparr>inflight := pre @ e\<lparr>sent_at := now, retries := ?t\<rparr> # es\<rparr>) r"
    have r1: "registry_get ?r1 sid = Some (st\<lparr>inflight := pre @ e\<lparr>retries := ?t\<rparr> # es\<rparr>)"
      using Cons.prems(1) by (simp add: get_mut_get)
    have r2: "registry_get_mut sid (update_entry (length pre) (\<lambda>x. if packet_id x = packet_id e
        then x\<lparr>sent_at := now, retries := ?t\<rparr> else x)) ?r1 = ?r2"
      using get_mut_cong [OF r1, of "update_entry (length pre) (\<lambda>x. if packet_id x = packet_id e
        then x\<lparr>sent_at := now, retries := ?t\<rparr> else x)"
        "\<lambda>st. st\<lparr>inflight := pre @ e\<lparr>sent_at := now, retries := ?t\<rparr> # es\<rparr>"]
      by (simp add: update_entry_def comp)
    have "registry_get ?r2 sid = Some (st\<lparr>inflight := pre @ e\<lparr>sent_at := now, retries := ?t\<rparr> # es\<rparr>)"
      using Cons.prems(1) by (simp add: get_mut_get)
    note IH = Cons.IH [OF this, of "pre @ [e\<lparr>sent_at := now, retries := ?t\<rparr>]"]
    have st: "stored_publish_of ?r1 (inf_publish e) = Some (stored (inf_publish e))"
      using Cons.prems(5) by (simp add: get_mut_frame)
    show ?thesis
      using True Cons.prems IH mqttrs_pidsD [OF pids, of "packet_id e"] st
      by (simp add: nth upd r2 Let_def get_mut_frame comp split: prod.split sum.split)
  qed
qed

lemma process_inflight_retries_resend:
  assumes inv: "registry_inv ms r" and get: "registry_get r sid = Some st" and pids: "mqttrs_pids mq"
  shows "process_inflight_retries_at td mq tr m sid rm mx now r s =
    (case resend td mq tr m rm mx now (\<lambda>h. the (stored_publish_of r h)) (inflight st) s of
       (x, es', s') \<Rightarrow> (x, registry_get_mut sid (\<lambda>st. st\<lparr>inflight := es'\<rparr>) r, s'))"
proof -
  have "session_inv ms (length (stored_publishes r)) st" by (rule inv_session [OF inv get])
  then have "packet_id e \<noteq> 0" if "e \<in> set (inflight st)" for e using that by (simp add: session_inv_def)
  moreover have "stored_publish_of r (inf_publish e) = Some (the (stored_publish_of r (inf_publish e)))"
    if "e \<in> set (inflight st)" for e
    using refs_ok_live [OF _ get that] inv by (auto simp: registry_inv_def)
  ultimately have "retry_loop td mq tr m rm mx now sid (length ([] :: inflight_entry list)) (length (inflight st)) r s =
    (case resend td mq tr m rm mx now (\<lambda>h. the (stored_publish_of r h)) (inflight st) s of
       (x, es', s') \<Rightarrow> (x, registry_get_mut sid (\<lambda>st. st\<lparr>inflight := [] @ es'\<rparr>) r, s'))"
    by (intro retry_loop_resend [OF get append_Nil [symmetric] pids]) simp_all
  then show ?thesis using get by (simp add: process_inflight_retries_at_def)
qed

lemma resend_inv:
  assumes "session_inv ms mi st"
  shows "session_inv ms mi (st\<lparr>inflight := fst (snd (resend td mq tr m rm mx now stored (inflight st) s))\<rparr>)"
proof -
  let ?es = "fst (snd (resend td mq tr m rm mx now stored (inflight st) s))"
  note h = resend_handles [of td mq tr m rm mx now stored "inflight st" s]
  have "length ?es = length (inflight st)" using arg_cong [OF h(1), of length] by simp
  moreover have "packet_id ` set ?es = packet_id ` set (inflight st)" "inf_qos ` set ?es = inf_qos ` set (inflight st)"
    using arg_cong [OF h(2), of set] arg_cong [OF h(3), of set] by simp_all
  then have "packet_id e \<in> packet_id ` set (inflight st)" "inf_qos e \<in> inf_qos ` set (inflight st)"
    if "e \<in> set ?es" for e using that by blast+
  then have "packet_id e \<noteq> 0 \<and> inf_qos e = AtLeastOnce" if "e \<in> set ?es" for e
    using that assms unfolding session_inv_def by fastforce
  ultimately show ?thesis using assms by (simp add: session_inv_def)
qed

lemma process_inflight_retries_inv:
  assumes inv: "registry_inv ms r" and get: "registry_get r sid = Some st" and pids: "mqttrs_pids mq"
    and res: "process_inflight_retries_at td mq tr m sid rm mx now r s = (x, r', s')"
  shows "registry_inv ms r'"
proof -
  let ?R = "resend td mq tr m rm mx now (\<lambda>h. the (stored_publish_of r h)) (inflight st) s"
  let ?st = "st\<lparr>inflight := fst (snd ?R)\<rparr>"
  have "r' = registry_get_mut sid (\<lambda>st. st\<lparr>inflight := fst (snd ?R)\<rparr>) r"
    using res by (auto simp: process_inflight_retries_resend [OF inv get pids] split: prod.splits)
  also have "\<dots> = registry_get_mut sid (\<lambda>_. ?st) r" by (rule get_mut_cong [OF get]) simp
  also have "registry_inv ms \<dots>"
    by (rule inv_put [OF inv get resend_inv [OF inv_session [OF inv get]]]) (simp_all add: resend_handles)
  finally show ?thesis .
qed

section \<open>Properties\<close>

text \<open>
  C10: retransmission. Working by index under the registry's lock, \<open>process_inflight_retries\<close> does what the list
  recursion \<open>resend\<close> says: each due entry is written again, once and in order, as a duplicate with the
  content its handle was stored with, its time and retry count are updated, and it stops at the first entry
  past the retry budget or at a failed write. The errors of a missing message or of an invalid packet
  identifier cannot happen, and the invariant holds afterwards.
\<close>

theorem retransmission_refines:
  assumes "registry_inv ms r" "registry_get r sid = Some st" "mqttrs_pids mq"
    and "process_inflight_retries_at td mq tr m sid rm mx now r s = (x, r', s')"
  shows "\<exists>es'. resend td mq tr m rm mx now (\<lambda>h. the (stored_publish_of r h)) (inflight st) s = (x, es', s')
       \<and> registry_get r' = (registry_get r)(sid \<mapsto> st\<lparr>inflight := es'\<rparr>)
       \<and> stored_publish_of r' = stored_publish_of r \<and> registry_inv ms r'
       \<and> (\<forall>e \<in> set (inflight st). stored_publish_of r (inf_publish e) \<noteq> None)
       \<and> x \<notin> Inl ` (range InvalidPacketId \<union> range MissingStoredPublish)"
proof -
  obtain y es' t where R: "resend td mq tr m rm mx now (\<lambda>h. the (stored_publish_of r h)) (inflight st) s = (y, es', t)"
    using prod_cases3 by blast
  have "x = y" "s' = t" "r' = registry_get_mut sid (\<lambda>st. st\<lparr>inflight := es'\<rparr>) r"
    using assms(4) by (simp_all add: process_inflight_retries_resend [OF assms(1-3)] R)
  moreover have "stored_publish_of r (inf_publish e) \<noteq> None" if "e \<in> set (inflight st)" for e
    using refs_ok_live [OF _ assms(2) that] assms(1) by (auto simp: registry_inv_def)
  ultimately show ?thesis
    using R resend_errors [OF R] process_inflight_retries_inv [OF assms] assms(2)
    by (simp add: get_mut_get get_mut_frame)
qed

theorem retransmission_refines_witness:
  "\<exists>x r' s'. process_inflight_retries_at ms_driver example_codec mock_transport_ops 64 0 1000 3 5000 example_registry mock_new
       = (x, r', s') \<and> x = Inr () \<and> tx_log s' = [[0x30, 0]] \<and> registry_inv 4 r'
     \<and> registry_get r' 0 = Some ((session_new ''c'' 60)\<lparr>inflight := [example_entry\<lparr>sent_at := 5000, retries := 1\<rparr>]\<rparr>)"
proof -
  define R where "R = process_inflight_retries_at ms_driver example_codec mock_transport_ops 64 0 1000 3 5000
    example_registry mock_new"
  obtain x r' s' where R: "R = (x, r', s')" using prod_cases3 by blast
  have "registry_get example_registry 0 = Some ((session_new ''c'' 60)\<lparr>inflight := [example_entry]\<rparr>)"
    by (simp add: example_registry_get)
  note rt = retransmission_refines [OF example_registry_inv this example_codec_ok(2) R [unfolded R_def]]
  have "resend ms_driver example_codec mock_transport_ops 64 1000 3 5000
      (\<lambda>h. the (stored_publish_of example_registry h)) [example_entry] mock_new
    = (Inr (), [example_entry\<lparr>sent_at := 5000, retries := 1\<rparr>], mock_new\<lparr>tx_log := [[0x30, 0]]\<rparr>)"
    by code_simp
  with rt R show ?thesis unfolding R_def by auto
qed

text \<open>
  C35: acknowledgement. A PUBACK removes exactly the oldest entry with its packet identifier from the
  session's table, or nothing when there is none, touches no other session, and leaves in the pool exactly the
  messages some in-flight entry still refers to.
\<close>

theorem puback_frees:
  assumes "registry_inv ms r" "registry_get r sid = Some s"
  shows "\<exists>r'. apply_puback sid pid now r = Some r' \<and> registry_inv ms r'
     \<and> registry_get r' = (registry_get r)(sid \<mapsto> (update_activity_at now s)\<lparr>inflight := acked pid (inflight s)\<rparr>)
     \<and> (\<forall>h. stored_publish_of r' h \<noteq> None \<longleftrightarrow>
          (\<exists>i st. registry_get r' i = Some st \<and> h \<in> inf_publish ` set (inflight st)))"
proof -
  obtain r' where r': "apply_puback sid pid now r = Some r'" "registry_inv ms r'"
    "registry_get r' = (registry_get r)(sid \<mapsto> (update_activity_at now s)\<lparr>inflight := acked pid (inflight s)\<rparr>)"
    by (rule apply_puback_spec [OF assms])
  moreover have "stored_publish_of r' h \<noteq> None \<longleftrightarrow> h \<in># handle_refs r'" for h
    using r'(2) by (intro refs_ok_stored) (simp add: registry_inv_def)
  ultimately show ?thesis by (auto simp: handle_refs_iff)
qed

theorem puback_frees_witness:
  "stored_publish_of example_registry \<lparr>h_slot = 0, h_generation = 1\<rparr> \<noteq> None
   \<and> (\<exists>r'. apply_puback 0 1 7 example_registry = Some r' \<and> (\<forall>h. stored_publish_of r' h = None))"
proof -
  have get: "registry_get example_registry 0 = Some ((session_new ''c'' 60)\<lparr>inflight := [example_entry]\<rparr>)"
    by (simp add: example_registry_get)
  have "acked 1 [example_entry] = []" by (simp add: acked_def example_entry_def)
  then show ?thesis
    using puback_frees [OF example_registry_inv get, of 1 7] example_registry_pool
    by (auto simp: example_registry_get split: if_splits)
qed

end
