(* ===== verification/Disconnect.thy ===== *)
theory Disconnect
  imports Retry
begin

text \<open>
  The end of a connection: the last will of \<^verbatim>\<open>crates/GatoMQTT/src/handler/disconnect.rs\<close>, keep-alive pings
  (\<^verbatim>\<open>handler/pingreq.rs\<close>) and \<open>cleanup_connection\<close> with its helpers from \<^verbatim>\<open>handler/connection.rs\<close>.
  \<open>cleanup_connection\<close> takes the registry's lock three times; each critical section is a definition of
  its own, so that other connections can run between them.
\<close>

section \<open>Reasons\<close>

datatype disconnect_reason = ClientDisconnect | ConnectionClosed | TransportError | KeepaliveTimeout
  | RateLimitExceeded | ReasonCommandHandlerOverloaded | RetryLimitExceeded | OutboxQuarantine

definition is_clean :: "disconnect_reason \<Rightarrow> bool" where
  "is_clean reason = (reason = ClientDisconnect)"

datatype lwt_broadcast_error = DeliveryFailed

datatype disconnect_error = DiscRetained retained_error | DiscBroadcast lwt_broadcast_error

section \<open>The last will\<close>

text \<open>The trait \<open>LwtBroadcaster\<close>; its implementations have state of their own.\<close>

type_synonym 'w lwt_broadcaster =
  "(session_id \<times> qos) list \<Rightarrow> lwt_message \<Rightarrow> 'w \<Rightarrow> (lwt_broadcast_error + unit) \<times> 'w"

definition publish_lwt_message_if_needed ::
  "nat \<Rightarrow> 'w lwt_broadcaster \<Rightarrow> string \<Rightarrow> lwt_message \<Rightarrow> session_registry \<Rightarrow> retained_store
     \<Rightarrow> disconnect_reason \<Rightarrow> 'w \<Rightarrow> (disconnect_error + unit) \<times> retained_store \<times> 'w" where
  "publish_lwt_message_if_needed max_retained broadcast cid l r rs reason w =
     (if is_clean reason then (Inr (), rs, w)
      else
        (let (res, rs') = (if lwt_retain l
              then retained_set max_retained (lwt_topic l) (lwt_payload l) (lwt_qos l) rs
              else (Inr (), rs))
         in case res of
              Inl e \<Rightarrow> (Inl (DiscRetained e), rs', w)
            | Inr _ \<Rightarrow>
                (let deliveries = find_lwt_subscribers r cid l
                 in if deliveries = [] then (Inr (), rs', w)
                    else (case broadcast deliveries l w of
                            (Inl e, w') \<Rightarrow> (Inl (DiscBroadcast e), rs', w')
                          | (Inr _, w') \<Rightarrow> (Inr (), rs', w')))))"

definition publish_lwt_if_needed ::
  "nat \<Rightarrow> 'w lwt_broadcaster \<Rightarrow> session_state \<Rightarrow> session_registry \<Rightarrow> retained_store
     \<Rightarrow> disconnect_reason \<Rightarrow> 'w \<Rightarrow> (disconnect_error + unit) \<times> retained_store \<times> 'w" where
  "publish_lwt_if_needed max_retained broadcast session r rs reason w =
     (if is_clean reason then (Inr (), rs, w)
      else (case lwt session of
              None \<Rightarrow> (Inr (), rs, w)
            | Some l \<Rightarrow>
                publish_lwt_message_if_needed max_retained broadcast (sess_client_id session) l r rs reason w))"

section \<open>Pings\<close>

definition touch_pingreq :: "instant \<Rightarrow> session_state \<Rightarrow> session_state" where
  "touch_pingreq now session = update_activity_at now session"

datatype 'e ping_error = PingWrite "'e write_error"

definition handle_pingreq ::
  "mqttrs \<Rightarrow> ('s, 'e) transport \<Rightarrow> nat \<Rightarrow> instant \<Rightarrow> session_state \<Rightarrow> 's
     \<Rightarrow> ('e ping_error + unit) \<times> session_state \<times> 's" where
  "handle_pingreq mq tr m now session s =
     (let session' = touch_pingreq now session
      in case write_packet mq tr m Pingresp s of
           (Inl e, s') \<Rightarrow> (Inl (PingWrite e), session', s')
         | (Inr _, s') \<Rightarrow> (Inr (), session', s'))"

section \<open>Cleanup\<close>

text \<open>\<open>RecordingLwtBroadcaster\<close>: it keeps the deliveries for the next critical section.\<close>

fun record_deliveries ::
  "nat \<Rightarrow> (session_id \<times> qos) list \<Rightarrow> (session_id \<times> qos) list \<Rightarrow> (session_id \<times> qos) list option" where
  "record_deliveries n [] recorded = Some recorded"
| "record_deliveries n (d # ds) recorded =
     (case vec_push n d recorded of
        None \<Rightarrow> None
      | Some recorded' \<Rightarrow> record_deliveries n ds recorded')"

definition recording_broadcast :: "nat \<Rightarrow> (session_id \<times> qos) list option lwt_broadcaster" where
  "recording_broadcast n deliveries l w =
     (case record_deliveries n deliveries [] of
        None \<Rightarrow> (Inl DeliveryFailed, w)
      | Some recorded \<Rightarrow> (Inr (), Some recorded))"

definition encode_publish_from_lwt :: "mqttrs \<Rightarrow> lwt_message \<Rightarrow> qos \<Rightarrow> bytes option" where
  "encode_publish_from_lwt mq l q =
     (let qp = (case q of
                  AtMostOnce \<Rightarrow> QosPid0
                | AtLeastOnce \<Rightarrow> QosPid1 (pid_new mq)
                | ExactlyOnce \<Rightarrow> QosPid2 (pid_new mq))
      in case encode_slice mq (Publish \<lparr>dup = False, qospid = qp, pub_retain = lwt_retain l,
                   topic_name = lwt_topic l, pub_payload = lwt_payload l\<rparr>) MAX_OUTBOUND_FRAME_SIZE of
           Inl _ \<Rightarrow> None
         | Inr bs \<Rightarrow> from_slice MAX_OUTBOUND_FRAME_SIZE bs)"

definition cleanup_lwt ::
  "'h broker_env \<Rightarrow> session_id \<Rightarrow> disconnect_reason \<Rightarrow> 'h broker
     \<Rightarrow> (lwt_message \<times> (session_id \<times> qos) list) option \<times> 'h broker" where
  "cleanup_lwt env sid reason b =
     (if is_clean reason then (None, b)
      else
        (case registry_get (br_registry b) sid of
           None \<Rightarrow> (None, b)
         | Some session \<Rightarrow>
             (case lwt session of
                None \<Rightarrow> (None, b)
              | Some l \<Rightarrow>
                  (let (res, rs, w) = publish_lwt_message_if_needed (env_max_retained env)
                         (recording_broadcast (length (slots (br_registry b)))) (sess_client_id session) l
                         (br_registry b) (br_retained b) reason None
                   in (map_option (\<lambda>recorded. (l, recorded)) w, b\<lparr>br_retained := rs\<rparr>)))))"

definition deliver_lwt_to ::
  "mqttrs \<Rightarrow> lwt_message \<Rightarrow> session_id \<times> qos \<Rightarrow> session_registry \<times> session_signals
     \<Rightarrow> session_registry \<times> session_signals" where
  "deliver_lwt_to mq l target rsigs =
     (let (sid, q) = target; (r, sigs) = rsigs
      in case registry_get r sid of
           None \<Rightarrow> (r, sigs)
         | Some session \<Rightarrow>
             (case encode_publish_from_lwt mq l q of
                None \<Rightarrow> (r, sigs)
              | Some bs \<Rightarrow>
                  (case vec_push MAX_OUTBOX_DEPTH \<lparr>ob_bytes = bs\<rparr> (outbox session) of
                     None \<Rightarrow> (r, sigs)
                   | Some ob \<Rightarrow>
                       (registry_get_mut sid (\<lambda>s. s\<lparr>outbox := ob\<rparr>) r, signal_session sid sigs))))"

definition cleanup_deliver ::
  "mqttrs \<Rightarrow> lwt_message \<Rightarrow> (session_id \<times> qos) list \<Rightarrow> 'h broker \<Rightarrow> 'h broker" where
  "cleanup_deliver mq l deliveries b =
     (let (r, sigs) = fold (deliver_lwt_to mq l) deliveries (br_registry b, br_signals b)
      in b\<lparr>br_registry := r, br_signals := sigs\<rparr>)"

definition cleanup_remove :: "session_id \<Rightarrow> 'h broker \<Rightarrow> 'h broker" where
  "cleanup_remove sid b =
     b\<lparr>br_registry := snd (registry_remove sid (br_registry b)),
       br_signals := reset_session_signal sid (br_signals b)\<rparr>"

definition cleanup_connection ::
  "'h broker_env \<Rightarrow> ('s, 'e) transport \<Rightarrow> session_id \<Rightarrow> disconnect_reason \<Rightarrow> 'h broker \<Rightarrow> 's
     \<Rightarrow> 'h broker \<times> 's" where
  "cleanup_connection env tr sid reason b s =
     (let (lwt_delivery, b1) = cleanup_lwt env sid reason b;
          b2 = (case lwt_delivery of
                  None \<Rightarrow> b1
                | Some (l, deliveries) \<Rightarrow> cleanup_deliver (env_mq env) l deliveries b1)
      in (cleanup_remove sid b2, tr_close tr s))"

section \<open>Lemmas\<close>

lemma record_deliveries_all:
  "length recorded + length ds \<le> n \<Longrightarrow> record_deliveries n ds recorded = Some (recorded @ ds)"
  by (induction ds arbitrary: recorded) auto

lemma find_lwt_subscribers_iff:
  "(i, q) \<in> set (find_lwt_subscribers r cid l) \<longleftrightarrow>
   (\<exists>st. registry_get r i = Some st \<and> sess_client_id st \<noteq> cid \<and> granted (lwt_topic l) st \<noteq> {}
      \<and> q = Max (granted (lwt_topic l) st))"
  unfolding find_lwt_subscribers_filter iter_filter_iff by auto

lemma find_lwt_subscribers_distinct: "distinct (map fst (find_lwt_subscribers r cid l))"
  unfolding find_lwt_subscribers_filter by (rule iter_filter_distinct)

lemma find_lwt_subscribers_length: "length (find_lwt_subscribers r cid l) \<le> length (slots r)"
proof -
  have "fst ` set (find_lwt_subscribers r cid l) \<subseteq> {..<length (slots r)}"
    by (auto simp: find_lwt_subscribers_iff registry_get_def look_def split: if_splits)
  then have "card (fst ` set (find_lwt_subscribers r cid l)) \<le> length (slots r)"
    by (metis card_mono card_lessThan finite_lessThan)
  then show ?thesis
    using distinct_card [OF find_lwt_subscribers_distinct [of r cid l]] by simp
qed

lemma recording_broadcast_lwt:
  "recording_broadcast (length (slots r)) (find_lwt_subscribers r cid l) l' w
     = (Inr (), Some (find_lwt_subscribers r cid l))"
  using record_deliveries_all [of "[]" "find_lwt_subscribers r cid l"] find_lwt_subscribers_length [of r cid l]
  by (simp add: recording_broadcast_def)

text \<open>What a session's outbox is after a will was offered to it.\<close>

definition will_outbox :: "mqttrs \<Rightarrow> lwt_message \<Rightarrow> qos \<Rightarrow> session_state \<Rightarrow> session_state" where
  "will_outbox mq l q st =
     (case encode_publish_from_lwt mq l q of
        None \<Rightarrow> st
      | Some bs \<Rightarrow> if length (outbox st) < MAX_OUTBOX_DEPTH then st\<lparr>outbox := outbox st @ [\<lparr>ob_bytes = bs\<rparr>]\<rparr> else st)"

lemma will_outbox_frame:
  "inflight (will_outbox mq l q st) = inflight st" "sess_client_id (will_outbox mq l q st) = sess_client_id st"
  by (simp_all add: will_outbox_def split: option.split)

lemma encode_lwt_length: "encode_publish_from_lwt mq l q = Some bs \<Longrightarrow> length bs \<le> MAX_OUTBOUND_FRAME_SIZE"
  by (auto simp: encode_publish_from_lwt_def Let_def split: sum.splits)

lemma will_outbox_inv: "session_inv ms mi st \<Longrightarrow> session_inv ms mi (will_outbox mq l q st)"
  using encode_lwt_length session_inv_push by (auto simp: will_outbox_def split: option.split)

lemma deliver_lwt_to_eq:
  "fst (deliver_lwt_to mq l (i, q) (r, sigs)) = registry_get_mut i (will_outbox mq l q) r"
  "length (snd (deliver_lwt_to mq l (i, q) (r, sigs))) = length sigs"
proof -
  show "fst (deliver_lwt_to mq l (i, q) (r, sigs)) = registry_get_mut i (will_outbox mq l q) r"
  proof (cases "registry_get r i")
    case None
    then show ?thesis by (simp add: deliver_lwt_to_def get_mut_None)
  next
    case (Some st)
    show ?thesis
    proof (cases "encode_publish_from_lwt mq l q \<noteq> None \<and> length (outbox st) < MAX_OUTBOX_DEPTH")
      case True
      then show ?thesis using Some
        by (auto simp: deliver_lwt_to_def will_outbox_def intro!: get_mut_cong [OF Some])
    next
      case False
      then have "will_outbox mq l q st = st" by (auto simp: will_outbox_def split: option.split)
      with False show ?thesis using Some get_mut_id [OF Some, of "will_outbox mq l q"]
        by (auto simp: deliver_lwt_to_def split: option.split)
    qed
  qed
qed (auto simp: deliver_lwt_to_def split: option.split)

lemma fold_deliver_lwt:
  assumes "registry_inv ms r" "distinct (map fst ds)"
    and "fold (deliver_lwt_to mq l) ds (r, sigs) = (r', sigs')"
  shows "registry_inv ms r' \<and> length sigs' = length sigs \<and> length (slots r') = length (slots r)
    \<and> (\<forall>i. registry_get r' i = (case map_of ds i of
          None \<Rightarrow> registry_get r i | Some q \<Rightarrow> map_option (will_outbox mq l q) (registry_get r i)))"
  using assms
proof (induction ds arbitrary: r sigs)
  case (Cons d ds)
  obtain i q where d: "d = (i, q)" by fastforce
  let ?r1 = "registry_get_mut i (will_outbox mq l q) r"
  obtain sigs1 where one: "deliver_lwt_to mq l d (r, sigs) = (?r1, sigs1)" "length sigs1 = length sigs"
    using deliver_lwt_to_eq [of mq l i q r sigs] d by (cases "deliver_lwt_to mq l d (r, sigs)") auto
  have "registry_wf ms ?r1"
    by (rule wf_get_mut) (use Cons.prems inv_session in \<open>auto simp: registry_inv_def will_outbox_inv will_outbox_frame\<close>)
  moreover have "refs_ok {#} ?r1"
    using refs_ok_map_entries [of r i "will_outbox mq l q" "{#}"] Cons.prems(1)
    by (simp add: registry_inv_def will_outbox_frame)
  ultimately have inv1: "registry_inv ms ?r1" by (simp add: registry_inv_def)
  have "map_of ds i = None" using Cons.prems(2) d by (simp add: map_of_eq_None_iff)
  then show ?case
    using Cons.IH [OF inv1, of sigs1] Cons.prems(2,3) one d
    by (auto simp: get_mut_get get_mut_frame fun_upd_apply split: option.split)
qed auto

lemma cleanup_deliver_spec:
  assumes "broker_inv ms mr b" "distinct (map fst ds)"
  shows "broker_inv ms mr (cleanup_deliver mq l ds b)"
    and "br_retained (cleanup_deliver mq l ds b) = br_retained b"
    and "br_handler (cleanup_deliver mq l ds b) = br_handler b"
    and "registry_get (br_registry (cleanup_deliver mq l ds b)) i = (case map_of ds i of
          None \<Rightarrow> registry_get (br_registry b) i
        | Some q \<Rightarrow> map_option (will_outbox mq l q) (registry_get (br_registry b) i))"
proof -
  obtain r' sigs' where f: "fold (deliver_lwt_to mq l) ds (br_registry b, br_signals b) = (r', sigs')" by fastforce
  note sp = fold_deliver_lwt [OF _ assms(2) f, of ms]
  show "broker_inv ms mr (cleanup_deliver mq l ds b)" "br_retained (cleanup_deliver mq l ds b) = br_retained b"
    "br_handler (cleanup_deliver mq l ds b) = br_handler b"
    "registry_get (br_registry (cleanup_deliver mq l ds b)) i = (case map_of ds i of
          None \<Rightarrow> registry_get (br_registry b) i
        | Some q \<Rightarrow> map_option (will_outbox mq l q) (registry_get (br_registry b) i))"
    using assms(1) sp by (auto simp: cleanup_deliver_def f broker_inv_def)
qed

lemma cleanup_remove_inv: "broker_inv ms mr b \<Longrightarrow> broker_inv ms mr (cleanup_remove sid b)"
  by (simp add: broker_inv_def cleanup_remove_def remove_inv reset_session_signal_def remove_frame)

lemma retained_or_keep_inv:
  "retained_inv n rs \<Longrightarrow> retained_inv n (snd (if c then retained_set n t p q rs else (x, rs)))"
  by (simp add: retained_set_inv)

text \<open>The will a disconnect for this reason publishes.\<close>

definition will_of :: "disconnect_reason \<Rightarrow> session_state \<Rightarrow> lwt_message option" where
  "will_of reason s = (if is_clean reason then None else lwt s)"

definition will_retained :: "nat \<Rightarrow> lwt_message \<Rightarrow> retained_store \<Rightarrow> (retained_error + unit) \<times> retained_store" where
  "will_retained n l rs =
     (if lwt_retain l then retained_set n (lwt_topic l) (lwt_payload l) (lwt_qos l) rs else (Inr (), rs))"

lemma cleanup_lwt_eq:
  assumes "registry_get (br_registry b) sid = Some s"
  shows "cleanup_lwt env sid reason b =
    (case will_of reason s of
       None \<Rightarrow> (None, b)
     | Some l \<Rightarrow>
         (let (res, rs) = will_retained (env_max_retained env) l (br_retained b);
              ds = find_lwt_subscribers (br_registry b) (sess_client_id s) l
          in (if res = Inr () \<and> ds \<noteq> [] then Some (l, ds) else None, b\<lparr>br_retained := rs\<rparr>)))"
  using assms
  by (auto simp: cleanup_lwt_def will_of_def will_retained_def publish_lwt_message_if_needed_def
      recording_broadcast_lwt Let_def split: option.split prod.split sum.split)

lemma will_retained_inv: "retained_inv n rs \<Longrightarrow> retained_inv n (snd (will_retained n l rs))"
  by (simp add: will_retained_def retained_set_inv)

lemma cleanup_lwt_inv:
  assumes "broker_inv ms (env_max_retained env) b"
  shows "broker_inv ms (env_max_retained env) (snd (cleanup_lwt env sid reason b))"
proof (cases "registry_get (br_registry b) sid")
  case None
  then show ?thesis using assms by (simp add: cleanup_lwt_def)
next
  case (Some s)
  then show ?thesis
    using assms will_retained_inv [of "env_max_retained env" "br_retained b"]
    by (auto simp: cleanup_lwt_eq [OF Some] broker_inv_def case_prod_unfold Let_def split: option.split)
qed

lemma will_targets:
  assumes "registry_inv ms r" "registry_get r sid = Some s"
  shows "map_of (find_lwt_subscribers r (sess_client_id s) l) i =
    (case registry_get r i of
       None \<Rightarrow> None
     | Some st \<Rightarrow> if i = sid \<or> granted (lwt_topic l) st = {} then None else Some (Max (granted (lwt_topic l) st)))"
proof -
  have uniq: "i = sid" if "registry_get r i = Some st" "sess_client_id st = sess_client_id s" for st
    using inv_unique [OF assms(1)] that assms(2) unfolding unique_clients_def by blast
  have iff: "map_of (find_lwt_subscribers r (sess_client_id s) l) i = Some q \<longleftrightarrow>
      (i, q) \<in> set (find_lwt_subscribers r (sess_client_id s) l)" for q
    by (rule map_of_eq_Some_iff) (rule find_lwt_subscribers_distinct)
  show ?thesis
  proof (cases "registry_get r i")
    case None
    then have "map_of (find_lwt_subscribers r (sess_client_id s) l) i \<noteq> Some q" for q
      by (simp add: iff find_lwt_subscribers_iff)
    then have "map_of (find_lwt_subscribers r (sess_client_id s) l) i = None"
      by (cases "map_of (find_lwt_subscribers r (sess_client_id s) l) i") auto
    then show ?thesis using None by simp
  next
    case (Some st)
    then have "map_of (find_lwt_subscribers r (sess_client_id s) l) i = Some q \<longleftrightarrow>
        i \<noteq> sid \<and> granted (lwt_topic l) st \<noteq> {} \<and> q = Max (granted (lwt_topic l) st)" for q
      using uniq assms(2) by (auto simp: iff find_lwt_subscribers_iff)
    then show ?thesis using Some by (auto simp: not_Some_eq [symmetric] simp del: not_Some_eq)
  qed
qed

lemma cleanup_lwt_frame:
  assumes "registry_get (br_registry b) sid = Some s" "cleanup_lwt env sid reason b = (d, b1)"
  shows "br_handler b1 = br_handler b" "br_registry b1 = br_registry b"
    "br_retained b1 = (case will_of reason s of None \<Rightarrow> br_retained b
       | Some l \<Rightarrow> snd (will_retained (env_max_retained env) l (br_retained b)))"
    "\<And>l ds. d = Some (l, ds) \<Longrightarrow> distinct (map fst ds)"
  using assms(2) find_lwt_subscribers_distinct
  by (auto simp: cleanup_lwt_eq [OF assms(1)] Let_def case_prod_unfold split: option.splits if_splits)

text \<open>The first two critical sections of the cleanup.\<close>

definition cleanup_will :: "'h broker_env \<Rightarrow> session_id \<Rightarrow> disconnect_reason \<Rightarrow> 'h broker \<Rightarrow> 'h broker" where
  "cleanup_will env sid reason b =
     (case cleanup_lwt env sid reason b of
        (None, b1) \<Rightarrow> b1
      | (Some (l, ds), b1) \<Rightarrow> cleanup_deliver (env_mq env) l ds b1)"

lemma cleanup_will_frame:
  assumes "broker_inv ms (env_max_retained env) b" "registry_get (br_registry b) sid = Some s"
  shows "broker_inv ms (env_max_retained env) (cleanup_will env sid reason b)"
    "br_handler (cleanup_will env sid reason b) = br_handler b"
    "br_retained (cleanup_will env sid reason b) = (case will_of reason s of None \<Rightarrow> br_retained b
       | Some l \<Rightarrow> snd (will_retained (env_max_retained env) l (br_retained b)))"
proof -
  obtain d b1 where lw: "cleanup_lwt env sid reason b = (d, b1)" by fastforce
  note fr = cleanup_lwt_frame [OF assms(2) lw]
  have inv1: "broker_inv ms (env_max_retained env) b1" using cleanup_lwt_inv [OF assms(1), of sid reason] lw by simp
  show "broker_inv ms (env_max_retained env) (cleanup_will env sid reason b)"
    "br_handler (cleanup_will env sid reason b) = br_handler b"
    "br_retained (cleanup_will env sid reason b) = (case will_of reason s of None \<Rightarrow> br_retained b
       | Some l \<Rightarrow> snd (will_retained (env_max_retained env) l (br_retained b)))"
    using inv1 fr(1,3) cleanup_deliver_spec(1-3) [OF inv1 fr(4)]
    by (auto simp: cleanup_will_def lw split: option.split)
qed

lemma cleanup_will_get:
  assumes binv: "broker_inv ms (env_max_retained env) b" and get: "registry_get (br_registry b) sid = Some s"
    and i: "i \<noteq> sid"
  shows "registry_get (br_registry (cleanup_will env sid reason b)) i = (case will_of reason s of
      None \<Rightarrow> registry_get (br_registry b) i
    | Some l \<Rightarrow>
        if fst (will_retained (env_max_retained env) l (br_retained b)) = Inr ()
        then map_option (\<lambda>st. if granted (lwt_topic l) st = {} then st
               else will_outbox (env_mq env) l (Max (granted (lwt_topic l) st)) st) (registry_get (br_registry b) i)
        else registry_get (br_registry b) i)"
proof (cases "will_of reason s")
  case None
  then show ?thesis by (simp add: cleanup_will_def cleanup_lwt_eq [OF get])
next
  case (Some l)
  obtain d b1 where lw: "cleanup_lwt env sid reason b = (d, b1)" by fastforce
  note fr = cleanup_lwt_frame [OF get lw]
  have inv1: "broker_inv ms (env_max_retained env) b1" using cleanup_lwt_inv [OF binv, of sid reason] lw by simp
  define ds where "ds = find_lwt_subscribers (br_registry b) (sess_client_id s) l"
  have d: "d = (if fst (will_retained (env_max_retained env) l (br_retained b)) = Inr () \<and> ds \<noteq> []
      then Some (l, ds) else None)"
    using lw Some by (auto simp: cleanup_lwt_eq [OF get] ds_def case_prod_unfold Let_def)
  have "registry_get (br_registry (cleanup_will env sid reason b)) i = (case map_of ds i of
        None \<Rightarrow> registry_get (br_registry b) i
      | Some q \<Rightarrow> map_option (will_outbox (env_mq env) l q) (registry_get (br_registry b) i))"
    if "fst (will_retained (env_max_retained env) l (br_retained b)) = Inr ()"
    using cleanup_deliver_spec(4) [OF inv1, of ds "env_mq env" l i, unfolded fr(2)] find_lwt_subscribers_distinct d that
    by (cases "ds = []") (auto simp: cleanup_will_def lw fr(2) ds_def)
  then show ?thesis
    using Some will_targets [OF _ get, of ms l i] binv i d
    by (cases "registry_get (br_registry b) i") (auto simp: ds_def [symmetric] cleanup_will_def lw fr(2) broker_inv_def)
qed

section \<open>Properties\<close>


definition example_will :: lwt_message where
  "example_will = \<lparr>lwt_topic = ''a/b'', lwt_payload = [2], lwt_qos = AtMostOnce, lwt_retain = True\<rparr>"

definition example_will_broker :: "mqtt_intent list broker" where
  "example_will_broker = example_broker\<lparr>br_registry :=
     registry_get_mut 0 (\<lambda>_. (session_new ''p'' 60)\<lparr>lwt := Some example_will\<rparr>) (br_registry example_broker)\<rparr>"

lemma example_will_broker_facts:
  "broker_inv 4 (env_max_retained example_env) example_will_broker"
  "registry_get (br_registry example_will_broker) =
     [0 \<mapsto> (session_new ''p'' 60)\<lparr>lwt := Some example_will\<rparr>, 1 \<mapsto> example_subscriber]"
proof -
  let ?r = "br_registry example_broker"
  have inv: "registry_inv 4 ?r" using example_broker_inv by (simp add: broker_inv_def)
  have get: "registry_get ?r 0 = Some (session_new ''p'' 60)" by (simp add: example_broker_get)
  have "registry_inv 4 (br_registry example_will_broker)"
    unfolding example_will_broker_def broker.simps
    by (simp, rule inv_put [OF inv get])
      (use inv_session [OF inv get] in \<open>simp_all add: session_inv_def lwt_inv_def example_will_def\<close>)
  then show "broker_inv 4 (env_max_retained example_env) example_will_broker"
    using example_broker_inv by (simp add: broker_inv_def example_will_broker_def get_mut_frame example_env_def)
  show "registry_get (br_registry example_will_broker) =
     [0 \<mapsto> (session_new ''p'' 60)\<lparr>lwt := Some example_will\<rparr>, 1 \<mapsto> example_subscriber]"
    by (auto simp: example_will_broker_def get_mut_get example_broker_get)
qed


end
