(* ===== verification/Connection.thy ===== *)
theory Connection
  imports Disconnect
begin

text \<open>
  The connection loop, \<open>connection_loop\<close> of \<^verbatim>\<open>crates/GatoMQTT/src/handler/connection.rs\<close>. The loop is
  asynchronous: it gives up control at every await, and other connections run meanwhile. What it does under the lock of the
  registry is atomic for them. The model cuts the function at these points: \<open>conn_pc\<close> is the point a
  connection has reached, with the local variables that are live there, and \<open>conn_step\<close> runs the code up to the
  next point; \<open>cleanup_connection\<close> at its end is one step. \<open>system_step\<close> interleaves the connections, the control
  domain's outbound publishes and the arrival of new clients in any order.
\<close>

section \<open>Critical sections\<close>

definition reset_empty_session_signals :: "session_registry \<Rightarrow> session_signals \<Rightarrow> session_signals" where
  "reset_empty_session_signals r sigs =
     fold (\<lambda>sid sigs. if registry_get r sid = None then reset_session_signal sid sigs else sigs)
       [0..<length (slots r)] sigs"

text \<open>The section that prepares a CONNECT.\<close>

definition connect_section ::
  "broker_config \<Rightarrow> connect \<Rightarrow> instant \<Rightarrow> 'h broker
     \<Rightarrow> (unit connect_error + prepared_connect) \<times> 'h broker" where
  "connect_section cfg p now b =
     (let token = \<lparr>tok_username = house_token_username cfg, tok_password = house_token_password cfg\<rparr>;
          (prep, r) = prepare_connect (br_registry b) p token
      in case prep of
           Inr (PAccepted outcome) \<Rightarrow>
             (let sid = oc_session_id outcome;
                  r1 = registry_get_mut sid (\<lambda>s. update_activity_at now
                         (s\<lparr>rate := bucket_new (rate_capacity cfg) (cfg_rate_per_sec cfg)\<rparr>)) r
              in (prep, b\<lparr>br_registry := r1,
                          br_signals := reset_session_signal sid (reset_empty_session_signals r1 (br_signals b))\<rparr>))
         | _ \<Rightarrow> (prep, b\<lparr>br_registry := r, br_signals := reset_empty_session_signals r (br_signals b)\<rparr>))"

text \<open>The section of \<open>flush_outbox_for_session\<close>.\<close>

definition flush_section :: "session_id \<Rightarrow> 'h broker \<Rightarrow> outbound_packet option \<times> 'h broker" where
  "flush_section sid b =
     (case registry_get (br_registry b) sid of
        None \<Rightarrow> (None, b)
      | Some session \<Rightarrow>
          (case outbox session of
             [] \<Rightarrow> (None, b\<lparr>br_registry := registry_get_mut sid (\<lambda>s. s\<lparr>outbox_drops := 0\<rparr>) (br_registry b)\<rparr>)
           | packet # rest \<Rightarrow>
               (Some packet, b\<lparr>br_registry := registry_get_mut sid (\<lambda>s. s\<lparr>outbox := rest\<rparr>) (br_registry b)\<rparr>)))"

text \<open>
  The loop releases the lock before each write: \<open>others k\<close> is what the other tasks do to the broker during the
  \<open>k\<close>-th write. They can refill the outbox for ever; \<open>None\<close> means that the loop does not return.
\<close>

partial_function (option) flush_outbox_for_session ::
  "('s, 'e) transport \<Rightarrow> (nat \<Rightarrow> 'h broker \<Rightarrow> 'h broker) \<Rightarrow> nat \<Rightarrow> session_id \<Rightarrow> 'h broker \<Rightarrow> 's
     \<Rightarrow> (('e + unit) \<times> 'h broker \<times> 's) option" where
  "flush_outbox_for_session tr others k sid b s =
     (case flush_section sid b of
        (None, b') \<Rightarrow> Some (Inr (), b', s)
      | (Some packet, b') \<Rightarrow>
          (case tr_write tr (ob_bytes packet) s of
             (Inl e, s') \<Rightarrow> Some (Inl e, others k b', s')
           | (Inr _, s') \<Rightarrow> flush_outbox_for_session tr others (Suc k) sid (others k b') s'))"

declare flush_outbox_for_session.simps [code]

text \<open>
  The section that decides how long to wait. The clock is read twice: \<open>now\<close> by
  \<open>process_inflight_retries\<close> and \<open>now'\<close> after the retransmissions.
\<close>

definition timer_section ::
  "'h broker_env \<Rightarrow> broker_config \<Rightarrow> ('s, 'e) transport \<Rightarrow> session_id \<Rightarrow> instant \<Rightarrow> instant \<Rightarrow> 'h broker \<Rightarrow> 's
     \<Rightarrow> (disconnect_reason + duration) \<times> 'h broker \<times> 's" where
  "timer_section env cfg tr sid now now' b s =
     (case registry_get (br_registry b) sid of
        None \<Rightarrow> (Inl ConnectionClosed, b, s)
      | Some session0 \<Rightarrow>
          if quarantined session0 then (Inl OutboxQuarantine, b, s)
          else
            (let (res, r, s') = process_inflight_retries_at (env_td env) (env_mq env) tr (env_max_packet env) sid
                   (qos1_retry_ms cfg) (qos1_max_retries cfg) now (br_registry b) s;
                 b' = b\<lparr>br_registry := r\<rparr>
             in case res of
                  Inl _ \<Rightarrow> (Inl RetryLimitExceeded, b', s')
                | Inr _ \<Rightarrow>
                    (case registry_get r sid of
                       None \<Rightarrow> (Inl ConnectionClosed, b', s')
                     | Some session \<Rightarrow>
                         if is_keepalive_expired (env_td env) now' session then (Inl KeepaliveTimeout, b', s')
                         else (Inr (next_wakeup_after (env_td env) now' (qos1_retry_ms cfg)
                                 (from_secs (env_td env) 3600) session), b', s'))))"

text \<open>What has to be written after the lock is released.\<close>

datatype response = RPuback pid | RSuback prepared_subscribe | RUnsuback pid | RPingresp

definition write_response ::
  "mqttrs \<Rightarrow> ('s, 'e) transport \<Rightarrow> nat \<Rightarrow> response \<Rightarrow> 's \<Rightarrow> bool \<times> 's" where
  "write_response mq tr m resp s =
     (case resp of
        RPuback pid \<Rightarrow> apfst isl (write_packet mq tr m (Puback pid) s)
      | RSuback ps \<Rightarrow> apfst isl (write_prepared_subscribe mq tr m ps s)
      | RUnsuback pid \<Rightarrow> apfst isl (write_packet mq tr m (Unsuback pid) s)
      | RPingresp \<Rightarrow> apfst isl (write_packet mq tr m Pingresp s))"

text \<open>
  The section that handles a packet: the reason to stop, or the response that is due if any. \<open>None\<close> is a panic.
\<close>

definition packet_section ::
  "'h broker_env \<Rightarrow> session_id \<Rightarrow> packet \<Rightarrow> instant \<Rightarrow> instant \<Rightarrow> 'h broker
     \<Rightarrow> ((disconnect_reason + response option) \<times> 'h broker) option" where
  "packet_section env sid p now now' b =
     (case registry_get (br_registry b) sid of
        None \<Rightarrow> Some (Inl (if p = Disconnect then ClientDisconnect else ConnectionClosed), b)
      | Some session \<Rightarrow>
          (let touch = (\<lambda>f. b\<lparr>br_registry := registry_get_mut sid (\<lambda>s. f (update_activity_at now s)) (br_registry b)\<rparr>)
           in case p of
                Publish publish \<Rightarrow>
                  (let puback_pid = (case qospid publish of QosPid1 pid \<Rightarrow> Some pid | _ \<Rightarrow> None);
                       (result, b') = handle_publish env sid publish now' (touch (\<lambda>s. s))
                   in Some (case result of
                              Inl RateLimitDisconnect \<Rightarrow> Inl RateLimitExceeded
                            | Inl CommandHandlerOverloaded \<Rightarrow> Inl ReasonCommandHandlerOverloaded
                            | _ \<Rightarrow> Inr (map_option RPuback puback_pid), b'))
              | Puback pid \<Rightarrow>
                  (case apply_puback sid pid now (br_registry b) of
                     None \<Rightarrow> Some (Inl ConnectionClosed, b)
                   | Some r \<Rightarrow> Some (Inr None, b\<lparr>br_registry := r\<rparr>))
              | Subscribe subscribe \<Rightarrow>
                  (case prepare_subscribe (env_max_subs env) (env_max_retained env) subscribe (br_retained b)
                          (update_activity_at now session) of
                     None \<Rightarrow> None
                   | Some (ps, session') \<Rightarrow>
                       Some (Inr (Some (RSuback ps)),
                             b\<lparr>br_registry := registry_get_mut sid (\<lambda>_. session') (br_registry b)\<rparr>))
              | Unsubscribe unsubscribe \<Rightarrow>
                  Some (Inr (Some (RUnsuback (unsub_pid unsubscribe))), touch (apply_unsubscribe unsubscribe))
              | Pingreq \<Rightarrow>
                  Some (Inr (Some RPingresp),
                        b\<lparr>br_registry := registry_get_mut sid (touch_pingreq now) (br_registry b)\<rparr>)
              | Disconnect \<Rightarrow> Some (Inl ClientDisconnect, b)
              | _ \<Rightarrow> Some (Inr None, touch (\<lambda>s. s))))"

section \<open>One connection\<close>

datatype conn_pc =
    AwaitConnect
  | SendConnack session_id bool
  | SendReject connect_return_code
  | Flush session_id
  | FlushWrite session_id outbound_packet
  | Tick session_id
  | Await session_id duration
  | Respond session_id response
  | CleanLwt session_id disconnect_reason
  | CleanDeliver session_id lwt_message "(session_id \<times> qos) list"
  | CleanRemove session_id
  | Closing
  | Finished
  | Panicked

text \<open>
  How a \<open>select\<close> ends: the read completes, the timer fires, or the outbox is signalled. In the last two
  cases the read is abandoned wherever it was, and the transport stays in the state it had then.
\<close>

datatype 's event = Ready | Elapsed 's | Signalled 's

definition conn_step ::
  "'h broker_env \<Rightarrow> broker_config \<Rightarrow> ('s, 'e) transport \<Rightarrow> 's event \<Rightarrow> instant \<Rightarrow> instant
     \<Rightarrow> conn_pc \<Rightarrow> 's \<Rightarrow> 'h broker \<Rightarrow> conn_pc \<times> 's \<times> 'h broker" where
  "conn_step env cfg tr ev now now' pc s b =
     (case pc of
        AwaitConnect \<Rightarrow>
          (case ev of
             Ready \<Rightarrow>
               (case read_packet (env_mq env) tr (env_max_packet env) s of
                  (None, s') \<Rightarrow> (Panicked, s', b)
                | (Some (Inl _), s') \<Rightarrow> (Closing, s', b)
                | (Some (Inr p), s') \<Rightarrow>
                    (case p of
                       Connect c \<Rightarrow>
                         (case connect_section cfg c now b of
                            (Inr (PAccepted outcome), b') \<Rightarrow>
                              (SendConnack (oc_session_id outcome) (oc_session_present outcome), s', b')
                          | (Inr (PRejected ret), b') \<Rightarrow> (SendReject ret, s', b')
                          | (Inl _, b') \<Rightarrow> (Finished, s', b'))
                     | _ \<Rightarrow> (Closing, s', b)))
           | Elapsed s' \<Rightarrow> (Closing, s', b)
           | Signalled s' \<Rightarrow> (Closing, s', b))
      | SendConnack sid present \<Rightarrow>
          (case write_connack (env_mq env) tr (env_max_packet env) Accepted present s of
             (Inl _, s') \<Rightarrow> (Closing, s', b)
           | (Inr _, s') \<Rightarrow> (Flush sid, s', b))
      | SendReject ret \<Rightarrow>
          (let (_, s') = write_connack (env_mq env) tr (env_max_packet env) ret False s in (Closing, s', b))
      | Flush sid \<Rightarrow>
          (case flush_section sid b of
             (None, b') \<Rightarrow> (Tick sid, s, b')
           | (Some packet, b') \<Rightarrow> (FlushWrite sid packet, s, b'))
      | FlushWrite sid packet \<Rightarrow>
          (case tr_write tr (ob_bytes packet) s of
             (Inl _, s') \<Rightarrow> (CleanLwt sid TransportError, s', b)
           | (Inr _, s') \<Rightarrow> (Flush sid, s', b))
      | Tick sid \<Rightarrow>
          (case timer_section env cfg tr sid now now' b s of
             (Inl reason, b', s') \<Rightarrow> (CleanLwt sid reason, s', b')
           | (Inr timer_after, b', s') \<Rightarrow>
               if sid < length (br_signals b') then (Await sid timer_after, s', b') else (Panicked, s', b'))
      | Await sid timer_after \<Rightarrow>
          (case ev of
             Ready \<Rightarrow>
               (case read_packet (env_mq env) tr (env_max_packet env) s of
                  (None, s') \<Rightarrow> (Panicked, s', b)
                | (Some (Inl e), s') \<Rightarrow>
                    (CleanLwt sid (if e = Eof then ConnectionClosed else TransportError), s', b)
                | (Some (Inr p), s') \<Rightarrow>
                    (case packet_section env sid p now now' b of
                       None \<Rightarrow> (Panicked, s', b)
                     | Some (Inl reason, b') \<Rightarrow> (CleanLwt sid reason, s', b')
                     | Some (Inr None, b') \<Rightarrow> (Flush sid, s', b')
                     | Some (Inr (Some resp), b') \<Rightarrow> (Respond sid resp, s', b')))
           | Elapsed s' \<Rightarrow> (Flush sid, s', b)
           | Signalled s' \<Rightarrow> (Flush sid, s', b\<lparr>br_signals := reset_session_signal sid (br_signals b)\<rparr>))
      | Respond sid resp \<Rightarrow>
          (let (failed, s') = write_response (env_mq env) tr (env_max_packet env) resp s
           in (if failed then CleanLwt sid TransportError else Flush sid, s', b))
      | CleanLwt sid reason \<Rightarrow>
          (case cleanup_lwt env sid reason b of
             (None, b') \<Rightarrow> (CleanRemove sid, s, b')
           | (Some (l, deliveries), b') \<Rightarrow> (CleanDeliver sid l deliveries, s, b'))
      | CleanDeliver sid l deliveries \<Rightarrow> (CleanRemove sid, s, cleanup_deliver (env_mq env) l deliveries b)
      | CleanRemove sid \<Rightarrow> (Closing, s, cleanup_remove sid b)
      | Closing \<Rightarrow> (Finished, tr_close tr s, b)
      | Finished \<Rightarrow> (Finished, s, b)
      | Panicked \<Rightarrow> (Panicked, s, b))"

text \<open>
  When an event is possible: an abandoned read has completed some reads of the transport, the connect phase knows no signal,
  and a signal must have been raised.
\<close>

inductive abandoned :: "('s, 'e) transport \<Rightarrow> 's \<Rightarrow> 's \<Rightarrow> bool" for tr where
  abandoned_start: "abandoned tr s s"
| abandoned_read: "abandoned tr s s' \<Longrightarrow> abandoned tr s (snd (tr_read tr n s'))"

definition event_ok :: "('s, 'e) transport \<Rightarrow> conn_pc \<Rightarrow> 's \<Rightarrow> 'h broker \<Rightarrow> 's event \<Rightarrow> bool" where
  "event_ok tr pc s b ev \<longleftrightarrow>
     (case ev of
        Ready \<Rightarrow> True
      | Elapsed s' \<Rightarrow> abandoned tr s s' \<and> (pc = AwaitConnect \<or> (\<exists>sid d. pc = Await sid d))
      | Signalled s' \<Rightarrow> abandoned tr s s' \<and> (\<exists>sid d. pc = Await sid d \<and> br_signals b ! sid))"

section \<open>The system\<close>

record ('s, 'h) system =
  sys_broker :: "'h broker"
  sys_conns :: "(conn_pc \<times> 's) list"
  sys_now :: instant

inductive system_step ::
  "'h broker_env \<Rightarrow> broker_config \<Rightarrow> ('s, 'e) transport \<Rightarrow> ('s, 'h) system \<Rightarrow> ('s, 'h) system \<Rightarrow> bool"
  for env cfg tr where
  step_connection:
    "i < length (sys_conns y) \<Longrightarrow> sys_conns y ! i = (pc, s) \<Longrightarrow> event_ok tr pc s (sys_broker y) ev \<Longrightarrow>
     sys_now y \<le> now \<Longrightarrow> now \<le> now' \<Longrightarrow>
     conn_step env cfg tr ev now now' pc s (sys_broker y) = (pc', s', b') \<Longrightarrow>
     system_step env cfg tr y
       (y\<lparr>sys_broker := b', sys_conns := (sys_conns y)[i := (pc', s')], sys_now := now'\<rparr>)"
| step_outbound:
    "sys_now y \<le> now \<Longrightarrow> process_outbound_publish env p now (sys_broker y) = (res, b') \<Longrightarrow>
     system_step env cfg tr y (y\<lparr>sys_broker := b', sys_now := now\<rparr>)"
| step_accept:
    "i < length (sys_conns y) \<Longrightarrow> fst (sys_conns y ! i) = Finished \<Longrightarrow>
     system_step env cfg tr y (y\<lparr>sys_conns := (sys_conns y)[i := (AwaitConnect, s)]\<rparr>)"

inductive_cases system_stepE: "system_step env cfg tr y y'"

section \<open>Every section keeps the invariant\<close>

text \<open>What holds of the broker after a section that started in a good state.\<close>

definition section_ok :: "'h broker_env \<Rightarrow> 'h broker \<Rightarrow> 'h broker \<Rightarrow> bool" where
  "section_ok env b b' \<longleftrightarrow>
     broker_inv (env_max_subs env) (env_max_retained env) b' \<and> length (br_signals b') = length (br_signals b)"

lemma inv_update:
  assumes "registry_inv ms r"
    and "\<And>st. registry_get r sid = Some st \<Longrightarrow> session_inv ms (length (stored_publishes r)) st \<Longrightarrow>
      session_inv ms (length (stored_publishes r)) (f st) \<and> sess_client_id (f st) = sess_client_id st
      \<and> map inf_publish (inflight (f st)) = map inf_publish (inflight st)"
  shows "registry_inv ms (registry_get_mut sid f r)"
proof (cases "registry_get r sid")
  case None
  then show ?thesis using assms(1) by (simp add: get_mut_None)
next
  case (Some st)
  have "registry_inv ms (registry_get_mut sid (\<lambda>_. f st) r)"
    by (rule inv_put [OF assms(1) Some]) (use assms(2) [OF Some inv_session [OF assms(1) Some]] in auto)
  then show ?thesis using get_mut_cong [OF Some, of f "\<lambda>_. f st"] by simp
qed

lemma section_registry:
  assumes "broker_inv (env_max_subs env) (env_max_retained env) b" "registry_inv (env_max_subs env) r"
    and "length (slots r) = length (slots (br_registry b))"
  shows "section_ok env b (b\<lparr>br_registry := r\<rparr>)"
  using assms by (simp add: section_ok_def broker_inv_def)

lemma section_update:
  assumes "broker_inv (env_max_subs env) (env_max_retained env) b"
    and "\<And>st mi. session_inv (env_max_subs env) mi st \<Longrightarrow>
      session_inv (env_max_subs env) mi (f st) \<and> sess_client_id (f st) = sess_client_id st
      \<and> map inf_publish (inflight (f st)) = map inf_publish (inflight st)"
  shows "section_ok env b (b\<lparr>br_registry := registry_get_mut sid f (br_registry b)\<rparr>)"
  by (rule section_registry [OF assms(1)])
    (use assms in \<open>auto simp: broker_inv_def get_mut_frame intro!: inv_update\<close>)

lemma length_reset [simp]: "length (reset_session_signal sid sigs) = length sigs"
  by (simp add: reset_session_signal_def)

lemma length_reset_empty [simp]: "length (reset_empty_session_signals r sigs) = length sigs"
proof -
  have "length (fold (\<lambda>sid sigs. if registry_get r sid = None then reset_session_signal sid sigs else sigs) xs sigs)
      = length sigs" for xs
    by (induction xs arbitrary: sigs) auto
  then show ?thesis by (simp add: reset_empty_session_signals_def)
qed

lemma section_signals:
  "section_ok env b b' \<Longrightarrow> length sigs = length (br_signals b') \<Longrightarrow> section_ok env b (b'\<lparr>br_signals := sigs\<rparr>)"
  by (simp add: section_ok_def broker_inv_def)

lemma prepare_connect_slots:
  assumes "registry_inv ms r"
  shows "length (slots (snd (prepare_connect r p tok :: ('e connect_error + prepared_connect) \<times> session_registry)))
    = length (slots r)"
proof -
  obtain d r1 where dis: "displace_session (client_id p) r = (d, r1)" by fastforce
  have "length (slots r1) = length (slots r)" by (rule displace_session_spec(5) [OF assms dis])
  moreover have "length (slots (snd (registry_insert st q))) = length (slots q)" for st q
    by (simp add: registry_insert_def split: option.split)
  moreover have "length (slots (snd (record_published_lwt l q))) = length (slots q)" for l q
    by (simp add: record_published_lwt_def split: option.split)
  ultimately have "length (slots (snd (connect_fresh r p :: ('e connect_error + prepared_connect) \<times> session_registry)))
      = length (slots r)"
    by (simp add: connect_fresh_def' dis Let_def case_prod_unfold split: option.split sum.split)
  then show ?thesis by (simp add: prepare_connect_def get_mut_frame split: option.split sum.split)
qed

lemma prepare_connect_sid:
  assumes "registry_inv ms r"
    and "(prepare_connect r p tok :: ('e connect_error + prepared_connect) \<times> session_registry) = (Inr (PAccepted oc), r')"
  shows "registry_get r' (oc_session_id oc) \<noteq> None"
proof (cases "clean_session p \<or> find_by_client_id (client_id p) r = None")
  case True
  then have "(connect_fresh r p :: ('e connect_error + prepared_connect) \<times> session_registry) = (Inr (PAccepted oc), r')"
    using assms(2) by (auto simp: prepare_connect_def split: if_splits option.splits)
  then show ?thesis by (rule connect_fresh_accepted [OF assms(1)]) simp
next
  case False
  then obtain i where i: "find_by_client_id (client_id p) r = Some i" "\<not> clean_session p" by blast
  then show ?thesis
    using assms(2) find_by_client_id_SomeD [OF i(1)]
    by (auto simp: prepare_connect_def get_mut_get split: if_splits sum.splits)
qed

lemma get_slot: "registry_get r i \<noteq> None \<Longrightarrow> i < length (slots r)"
  by (auto simp: registry_get_def look_def split: if_splits)

lemma connect_section_ok:
  assumes "broker_inv (env_max_subs env) (env_max_retained env) b" "connect_section cfg p now b = (x, b')"
  shows "section_ok env b b' \<and> (\<forall>oc. x = Inr (PAccepted oc) \<longrightarrow> oc_session_id oc < length (br_signals b'))"
proof -
  let ?ms = "env_max_subs env" and ?mr = "env_max_retained env"
  define tok where "tok = \<lparr>tok_username = house_token_username cfg, tok_password = house_token_password cfg\<rparr>"
  obtain y r where prep: "(prepare_connect (br_registry b) p tok :: (unit connect_error + prepared_connect) \<times> session_registry)
      = (y, r)" by fastforce
  have inv0: "registry_inv ?ms (br_registry b)" using assms(1) by (simp add: broker_inv_def)
  have r: "registry_inv ?ms r" "length (slots r) = length (slots (br_registry b))"
    using prepare_connect_inv [OF inv0, of p tok, where 'e = unit]
      prepare_connect_slots [OF inv0, of p tok, where 'e = unit] prep by simp_all
  have upd: "registry_inv ?ms (registry_get_mut sid (\<lambda>s. update_activity_at now
      (s\<lparr>rate := bucket_new c k\<rparr>)) r)" for sid c k
    by (rule inv_update [OF r(1)]) (auto simp: session_inv_def update_activity_at_def bucket_inv_def bucket_new_def)
  have sid: "oc_session_id oc < length (br_signals b)" if "y = Inr (PAccepted oc)" for oc
    using get_slot [OF prepare_connect_sid [OF inv0 prep [unfolded that]]] r(2) assms(1) by (simp add: broker_inv_def)
  show ?thesis
    using assms(2) r upd sid assms(1)
    by (auto simp: connect_section_def prep tok_def [symmetric] section_ok_def broker_inv_def Let_def get_mut_frame
        split: sum.splits prepared_connect.splits)
qed

lemma flush_section_ok:
  assumes "broker_inv (env_max_subs env) (env_max_retained env) b"
  shows "section_ok env b (snd (flush_section sid b))"
proof (cases "registry_get (br_registry b) sid")
  case None
  then show ?thesis using assms by (simp add: flush_section_def section_ok_def)
next
  case (Some st)
  have inv: "registry_inv (env_max_subs env) (br_registry b)" using assms by (simp add: broker_inv_def)
  have "section_ok env b (b\<lparr>br_registry := registry_get_mut sid (\<lambda>s. s\<lparr>outbox := rest\<rparr>) (br_registry b)\<rparr>)"
    if "outbox st = packet # rest" for packet rest
    by (rule section_registry [OF assms])
      (use inv that Some in \<open>auto simp: get_mut_frame session_inv_def intro!: inv_update\<close>)
  moreover have "section_ok env b (b\<lparr>br_registry := registry_get_mut sid (\<lambda>s. s\<lparr>outbox_drops := 0\<rparr>) (br_registry b)\<rparr>)"
    by (rule section_update [OF assms]) (auto simp: session_inv_def)
  ultimately show ?thesis using Some by (simp add: flush_section_def split: list.split)
qed

lemma timer_section_ok:
  assumes "broker_inv (env_max_subs env) (env_max_retained env) b" "mqttrs_pids (env_mq env)"
    and "timer_section env cfg tr sid now now' b s = (x, b', s')"
  shows "section_ok env b b'"
proof (cases "registry_get (br_registry b) sid")
  case None
  then show ?thesis using assms by (simp add: timer_section_def section_ok_def)
next
  case (Some st)
  obtain y r s1 where p: "process_inflight_retries_at (env_td env) (env_mq env) tr (env_max_packet env) sid
      (qos1_retry_ms cfg) (qos1_max_retries cfg) now (br_registry b) s = (y, r, s1)"
    using prod_cases3 by blast
  have inv: "registry_inv (env_max_subs env) (br_registry b)" using assms by (simp add: broker_inv_def)
  have r: "registry_inv (env_max_subs env) r" by (rule process_inflight_retries_inv [OF inv Some assms(2) p])
  have "length (slots r) = length (slots (br_registry b))"
    using p by (auto simp: process_inflight_retries_resend [OF inv Some assms(2)] get_mut_frame split: prod.splits)
  then have ok: "section_ok env b (b\<lparr>br_registry := r\<rparr>)" by (rule section_registry [OF assms(1) r])
  have self: "section_ok env b b" using assms(1) by (simp add: section_ok_def)
  show ?thesis
    using assms(3) Some ok self by (auto simp: timer_section_def p Let_def split: if_splits sum.splits option.splits)
qed

lemma deliver_to_signals: "length (snd (snd (deliver_to mq now md q t p b x sh r sigs))) = length sigs"
  by (simp add: deliver_to_def Let_def case_prod_unfold split: option.split sum.split)

lemma deliver_all_signals: "length (snd (snd (deliver_all mq now md q t p b ts sh r sigs))) = length sigs"
proof (induction ts arbitrary: sh r sigs)
  case (Cons x ts)
  show ?case
    using Cons.IH deliver_to_signals [of mq now md q t p b x sh r sigs]
    by (simp add: case_prod_unfold split: sum.split)
qed simp

lemma handle_publish_signals: "length (br_signals (snd (handle_publish_at env sid p now mv md b))) = length (br_signals b)"
  by (simp add: handle_publish_at_def Let_def case_prod_unfold deliver_all_signals forward_command_frame
      split: option.split sum.split)

lemma handle_publish_ok:
  assumes "broker_inv (env_max_subs env) (env_max_retained env) b"
  shows "section_ok env b (snd (handle_publish env sid p now b))"
  using handle_publish_at_inv [OF assms] by (simp add: section_ok_def handle_publish_def handle_publish_signals)

lemma section_trans: "section_ok env b b1 \<Longrightarrow> section_ok env b1 b2 \<Longrightarrow> section_ok env b b2"
  by (simp add: section_ok_def)

lemma section_inv: "section_ok env b b' \<Longrightarrow> broker_inv (env_max_subs env) (env_max_retained env) b'"
  by (simp add: section_ok_def)

lemma apply_puback_slots: "apply_puback sid pid now r = Some r' \<Longrightarrow> length (slots r') = length (slots r)"
  by (auto simp: apply_puback_def Let_def case_prod_unfold get_mut_frame release_frame split: option.splits)

lemma puback_section:
  assumes inv: "broker_inv (env_max_subs env) (env_max_retained env) b"
    and get: "registry_get (br_registry b) sid = Some st"
  shows "\<exists>r. apply_puback sid pid now (br_registry b) = Some r \<and> section_ok env b (b\<lparr>br_registry := r\<rparr>)"
proof -
  have "registry_inv (env_max_subs env) (br_registry b)" using inv by (simp add: broker_inv_def)
  then obtain r where "apply_puback sid pid now (br_registry b) = Some r" "registry_inv (env_max_subs env) r"
    by (rule apply_puback_spec [OF _ get])
  then show ?thesis using section_registry [OF inv] apply_puback_slots by blast
qed

lemma subscribe_section:
  assumes inv: "broker_inv (env_max_subs env) (env_max_retained env) b"
    and get: "registry_get (br_registry b) sid = Some st"
  shows "\<exists>ps st'. prepare_subscribe (env_max_subs env) (env_max_retained env) q (br_retained b) (update_activity_at now st)
      = Some (ps, st') \<and> section_ok env b (b\<lparr>br_registry := registry_get_mut sid (\<lambda>_. st') (br_registry b)\<rparr>)"
proof -
  have rinv: "registry_inv (env_max_subs env) (br_registry b)" using inv by (simp add: broker_inv_def)
  obtain ps st' where ps: "prepare_subscribe (env_max_subs env) (env_max_retained env) q (br_retained b)
      (update_activity_at now st) = Some (ps, st')"
    "session_inv (env_max_subs env) (length (stored_publishes (br_registry b))) st'"
    "st' = (update_activity_at now st)\<lparr>subscriptions := subscriptions st'\<rparr>"
    using prepare_subscribe_total [of "env_max_subs env" "length (stored_publishes (br_registry b))"
        "update_activity_at now st" "env_max_retained env" q "br_retained b"] inv_session [OF rinv get]
    by (simp add: session_inv_activity) blast
  have same: "inflight st' = inflight st" "sess_client_id st' = sess_client_id st"
    using arg_cong [OF ps(3), of inflight] arg_cong [OF ps(3), of sess_client_id] by simp_all
  have "registry_inv (env_max_subs env) (registry_get_mut sid (\<lambda>_. st') (br_registry b))"
    by (rule inv_put [OF rinv get ps(2)]) (simp_all add: same)
  then show ?thesis using ps(1) section_registry [OF inv] by (auto simp: get_mut_frame)
qed

lemma packet_section_ok:
  assumes inv: "broker_inv (env_max_subs env) (env_max_retained env) b"
  shows "\<exists>x b'. packet_section env sid p now now' b = Some (x, b') \<and> section_ok env b b'"
proof (cases "registry_get (br_registry b) sid")
  case None
  then show ?thesis using inv by (simp add: packet_section_def section_ok_def)
next
  case (Some st)
  have touch: "section_ok env b (b\<lparr>br_registry := registry_get_mut sid (\<lambda>s. f (update_activity_at now s)) (br_registry b)\<rparr>)"
    if "\<And>st mi. session_inv (env_max_subs env) mi st \<Longrightarrow> session_inv (env_max_subs env) mi (f st)
      \<and> sess_client_id (f st) = sess_client_id st \<and> inflight (f st) = inflight st" for f
    by (rule section_update [OF inv]) (use that in auto)
  have self: "section_ok env b b" using inv by (simp add: section_ok_def)
  have pub: "section_ok env b (snd (handle_publish env sid q now' (b\<lparr>br_registry :=
      registry_get_mut sid (update_activity_at now) (br_registry b)\<rparr>)))" for q
    using touch [of "\<lambda>s. s"] handle_publish_ok section_trans section_inv by fastforce
  have unsub: "section_ok env b (b\<lparr>br_registry := registry_get_mut sid
      (\<lambda>s. apply_unsubscribe u (update_activity_at now s)) (br_registry b)\<rparr>)" for u
    by (rule touch) (auto simp: apply_unsubscribe_inv, simp_all add: apply_unsubscribe_def)
  note [simp] = packet_section_def Let_def case_prod_unfold touch_pingreq_def [abs_def] Some
  show ?thesis
  proof (cases p)
    case (Publish q)
    then show ?thesis using pub [of q] by simp
  next
    case (Puback pid)
    obtain r where "apply_puback sid pid now (br_registry b) = Some r" "section_ok env b (b\<lparr>br_registry := r\<rparr>)"
      using puback_section [OF inv Some] by blast
    then show ?thesis using Puback by simp
  next
    case (Subscribe q)
    obtain ps st' where "prepare_subscribe (env_max_subs env) (env_max_retained env) q (br_retained b)
        (update_activity_at now st) = Some (ps, st')"
        "section_ok env b (b\<lparr>br_registry := registry_get_mut sid (\<lambda>_. st') (br_registry b)\<rparr>)"
      using subscribe_section [OF inv Some] by blast
    then show ?thesis using Subscribe by simp
  next
    case (Unsubscribe u)
    then show ?thesis using unsub [of u] by simp
  qed (use touch [of "\<lambda>s. s"] self in simp_all)
qed

lemma cleanup_lwt_ok:
  assumes "broker_inv (env_max_subs env) (env_max_retained env) b" "cleanup_lwt env sid reason b = (d, b')"
  shows "section_ok env b b' \<and> (\<forall>l ds. d = Some (l, ds) \<longrightarrow> distinct (map fst ds))"
proof (cases "registry_get (br_registry b) sid")
  case None
  then have "d = None" "b' = b" using assms(2) by (auto simp: cleanup_lwt_def split: if_splits)
  then show ?thesis using assms(1) by (simp add: section_ok_def)
next
  case (Some st)
  have "br_signals b' = br_signals b"
    using assms(2) by (auto simp: cleanup_lwt_eq [OF Some] Let_def case_prod_unfold split: option.splits)
  then show ?thesis
    using cleanup_lwt_inv [OF assms(1), of sid reason] cleanup_lwt_frame(4) [OF Some assms(2)] assms(2)
    by (simp add: section_ok_def)
qed

lemma cleanup_deliver_ok:
  assumes "broker_inv (env_max_subs env) (env_max_retained env) b" "distinct (map fst ds)"
  shows "section_ok env b (cleanup_deliver mq l ds b)"
proof -
  have "length (snd (fold (deliver_lwt_to mq l) ds rs)) = length (snd rs)" for rs
  proof (induction ds arbitrary: rs)
    case (Cons d ds)
    then show ?case using deliver_lwt_to_eq(2) [of mq l "fst d" "snd d" "fst rs" "snd rs"] by simp
  qed simp
  then have "length (br_signals (cleanup_deliver mq l ds b)) = length (br_signals b)"
    by (simp add: cleanup_deliver_def case_prod_unfold Let_def)
  then show ?thesis using cleanup_deliver_spec(1) [OF assms] by (simp add: section_ok_def)
qed

lemma cleanup_remove_ok:
  "broker_inv (env_max_subs env) (env_max_retained env) b \<Longrightarrow> section_ok env b (cleanup_remove sid b)"
  using cleanup_remove_inv [of _ _ b sid] by (simp add: section_ok_def cleanup_remove_def)

section \<open>The system's invariant\<close>

text \<open>What is true of a connection's local variables, with \<open>n\<close> session slots. No connection has panicked.\<close>

primrec pc_ok :: "nat \<Rightarrow> conn_pc \<Rightarrow> bool" where
  "pc_ok n AwaitConnect = True"
| "pc_ok n (SendConnack sid present) = (sid < n)"
| "pc_ok n (SendReject ret) = True"
| "pc_ok n (Flush sid) = (sid < n)"
| "pc_ok n (FlushWrite sid packet) = (sid < n)"
| "pc_ok n (Tick sid) = (sid < n)"
| "pc_ok n (Await sid d) = (sid < n)"
| "pc_ok n (Respond sid resp) = (sid < n)"
| "pc_ok n (CleanLwt sid reason) = (sid < n)"
| "pc_ok n (CleanDeliver sid l ds) = (sid < n \<and> distinct (map fst ds))"
| "pc_ok n (CleanRemove sid) = (sid < n)"
| "pc_ok n Closing = True"
| "pc_ok n Finished = True"
| "pc_ok n Panicked = False"

lemma read_packet_obtain:
  assumes "5 \<le> m"
  obtains x s' where "read_packet mq tr m s = (Some x, s')"
  using read_packet_total [OF assms, of mq tr s] by (cases "read_packet mq tr m s") auto

lemma await_connect_ok:
  assumes inv: "broker_inv (env_max_subs env) (env_max_retained env) b" and buf: "5 \<le> env_max_packet env"
    and step: "conn_step env cfg tr ev now now' AwaitConnect s b = (pc', s', b')"
  shows "section_ok env b b' \<and> pc_ok (length (br_signals b)) pc'"
proof -
  have self: "section_ok env b b" using inv by (simp add: section_ok_def)
  show ?thesis
  proof (cases ev)
    case Ready
    obtain x s1 where rd: "read_packet (env_mq env) tr (env_max_packet env) s = (Some x, s1)"
      by (rule read_packet_obtain [OF buf])
    show ?thesis
    proof (cases "\<exists>q. x = Inr (Connect q)")
      case True
      then obtain q where q: "x = Inr (Connect q)" by blast
      obtain y b1 where c: "connect_section cfg q now b = (y, b1)" by fastforce
      show ?thesis
        using step rd q Ready connect_section_ok [OF inv c]
        by (auto simp: conn_step_def c section_ok_def split: sum.splits prepared_connect.splits)
    next
      case False
      then show ?thesis
        using step rd Ready self by (auto simp: conn_step_def split: sum.splits packet.splits)
    qed
  qed (use step self in \<open>auto simp: conn_step_def\<close>)
qed

lemma await_ok:
  assumes inv: "broker_inv (env_max_subs env) (env_max_retained env) b" and buf: "5 \<le> env_max_packet env"
    and sid: "sid < length (br_signals b)" and step: "conn_step env cfg tr ev now now' (Await sid d) s b = (pc', s', b')"
  shows "section_ok env b b' \<and> pc_ok (length (br_signals b)) pc'"
proof -
  have self: "section_ok env b b" using inv by (simp add: section_ok_def)
  show ?thesis
  proof (cases ev)
    case Ready
    obtain y s1 where rd: "read_packet (env_mq env) tr (env_max_packet env) s = (Some y, s1)"
      by (rule read_packet_obtain [OF buf])
    show ?thesis
    proof (cases y)
      case (Inr p)
      obtain x b1 where "packet_section env sid p now now' b = Some (x, b1)" "section_ok env b b1"
        using packet_section_ok [OF inv] by blast
      then show ?thesis
        using step rd Inr Ready sid by (auto simp: conn_step_def split: sum.splits option.splits)
    qed (use step rd Ready self sid in \<open>auto simp: conn_step_def\<close>)
  qed (use step self sid section_signals [OF self] in \<open>auto simp: conn_step_def\<close>)
qed

lemma conn_step_ok:
  assumes inv: "broker_inv (env_max_subs env) (env_max_retained env) b" and pids: "mqttrs_pids (env_mq env)"
    and buf: "5 \<le> env_max_packet env" and pc: "pc_ok (length (br_signals b)) pc"
    and step: "conn_step env cfg tr ev now now' pc s b = (pc', s', b')"
  shows "section_ok env b b' \<and> pc_ok (length (br_signals b)) pc'"
proof -
  have self: "section_ok env b b" using inv by (simp add: section_ok_def)
  show ?thesis
  proof (cases pc)
    case AwaitConnect
    then show ?thesis using step await_connect_ok [OF inv buf] by simp
  next
    case (SendConnack sid present)
    then show ?thesis using step pc self by (auto simp: conn_step_def split: prod.splits sum.splits)
  next
    case (SendReject ret)
    then show ?thesis using step self by (auto simp: conn_step_def split: prod.splits)
  next
    case (Flush sid)
    then show ?thesis using step pc flush_section_ok [OF inv, of sid] by (auto simp: conn_step_def split: prod.splits option.splits)
  next
    case (FlushWrite sid packet)
    then show ?thesis using step pc self by (auto simp: conn_step_def split: prod.splits sum.splits)
  next
    case (Tick sid)
    obtain x b1 s1 where t: "timer_section env cfg tr sid now now' b s = (x, b1, s1)" using prod_cases3 by blast
    show ?thesis using step Tick pc timer_section_ok [OF inv pids t] t
      by (auto simp: conn_step_def section_ok_def split: sum.splits if_splits)
  next
    case (Await sid d)
    then show ?thesis using step pc await_ok [OF inv buf] by simp
  next
    case (Respond sid resp)
    then show ?thesis using step pc self by (auto simp: conn_step_def split: prod.splits if_splits)
  next
    case (CleanLwt sid reason)
    obtain d b1 where c: "cleanup_lwt env sid reason b = (d, b1)" by fastforce
    show ?thesis using step CleanLwt pc cleanup_lwt_ok [OF inv c] c by (auto simp: conn_step_def split: option.splits prod.splits)
  next
    case (CleanDeliver sid l ds)
    then show ?thesis using step pc cleanup_deliver_ok [OF inv] by (auto simp: conn_step_def)
  next
    case (CleanRemove sid)
    then show ?thesis using step cleanup_remove_ok [OF inv] by (auto simp: conn_step_def)
  qed (use step pc self in \<open>auto simp: conn_step_def\<close>)
qed

definition system_inv :: "'h broker_env \<Rightarrow> ('s, 'h) system \<Rightarrow> bool" where
  "system_inv env y \<longleftrightarrow>
     broker_inv (env_max_subs env) (env_max_retained env) (sys_broker y)
     \<and> (\<forall>c \<in> set (sys_conns y). pc_ok (length (br_signals (sys_broker y))) (fst c))"

definition init_broker :: "nat \<Rightarrow> nat \<Rightarrow> 'h \<Rightarrow> 'h broker" where
  "init_broker max_sessions max_inflight h =
     \<lparr>br_registry = registry_new max_sessions max_inflight, br_retained = retained_new,
      br_signals = new_session_signals max_sessions, br_handler = h\<rparr>"

definition initial :: "nat \<Rightarrow> nat \<Rightarrow> ('s, 'h) system \<Rightarrow> bool" where
  "initial n k y \<longleftrightarrow> (\<exists>h. sys_broker y = init_broker n k h) \<and> (\<forall>c \<in> set (sys_conns y). fst c = Finished)"

lemma initial_inv: "initial n k y \<Longrightarrow> system_inv env y"
  using registry_new_inv [of _ n k]
  by (auto simp: initial_def system_inv_def init_broker_def broker_inv_def retained_inv_def retained_new_def
      new_session_signals_def registry_new_def)

lemma process_outbound_signals:
  "length (br_signals (snd (process_outbound_publish env p now b))) = length (br_signals b)"
  by (simp add: process_outbound_publish_def Let_def case_prod_unfold deliver_all_signals split: sum.split)

lemma system_step_inv:
  assumes "system_step env cfg tr y y'" "system_inv env y" "mqttrs_pids (env_mq env)" "5 \<le> env_max_packet env"
  shows "system_inv env y' \<and> length (br_signals (sys_broker y')) = length (br_signals (sys_broker y))"
  using assms
proof (induction rule: system_step.induct)
  case (step_connection i y pc s ev now now' pc' s' b')
  have "(pc, s) \<in> set (sys_conns y)" using nth_mem [OF step_connection.hyps(1)] step_connection.hyps(2) by simp
  then have inv: "broker_inv (env_max_subs env) (env_max_retained env) (sys_broker y)"
    "pc_ok (length (br_signals (sys_broker y))) pc"
    using step_connection.prems(1) by (auto simp: system_inv_def)
  have "section_ok env (sys_broker y) b' \<and> pc_ok (length (br_signals (sys_broker y))) pc'"
    by (rule conn_step_ok [OF inv(1) step_connection.prems(2,3) inv(2) step_connection.hyps(6)])
  then show ?case
    using step_connection.prems(1)
    by (auto simp: system_inv_def section_ok_def dest!: set_update_subset_insert [THEN subsetD])
next
  case (step_outbound y now p res b')
  then show ?case
    using process_outbound_publish_inv [of "env_max_subs env" env "sys_broker y" p now]
      process_outbound_signals [of env p now "sys_broker y"]
    by (simp add: system_inv_def)
next
  case (step_accept i y s)
  then show ?case by (auto simp: system_inv_def dest!: set_update_subset_insert [THEN subsetD])
qed

text \<open>The interleavings as sequences of steps.\<close>

definition reachable ::
  "'h broker_env \<Rightarrow> broker_config \<Rightarrow> ('s, 'e) transport \<Rightarrow> ('s, 'h) system \<Rightarrow> ('s, 'h) system \<Rightarrow> bool" where
  "reachable env cfg tr = (system_step env cfg tr)\<^sup>*\<^sup>*"

lemma reachable_inv:
  assumes "reachable env cfg tr y y'" "system_inv env y" "mqttrs_pids (env_mq env)" "5 \<le> env_max_packet env"
  shows "system_inv env y' \<and> length (br_signals (sys_broker y')) = length (br_signals (sys_broker y))"
  using assms unfolding reachable_def
  by (induction rule: rtranclp_induct) (auto dest: system_step_inv)

section \<open>Draining the outbox\<close>

fun write_packets :: "('s, 'e) transport \<Rightarrow> outbound_packet list \<Rightarrow> 's \<Rightarrow> ('e + unit) \<times> outbound_packet list \<times> 's" where
  "write_packets tr [] s = (Inr (), [], s)"
| "write_packets tr (p # ps) s =
     (case tr_write tr (ob_bytes p) s of
        (Inl e, s') \<Rightarrow> (Inl e, ps, s')
      | (Inr _, s') \<Rightarrow> write_packets tr ps s')"

text \<open>The broker after some rounds of the loop, each of them a section followed by the steps of the others.\<close>

primrec flush_rounds ::
  "(nat \<Rightarrow> 'h broker \<Rightarrow> 'h broker) \<Rightarrow> session_id \<Rightarrow> nat \<Rightarrow> 'h broker \<Rightarrow> nat \<Rightarrow> 'h broker" where
  "flush_rounds others sid k b 0 = b"
| "flush_rounds others sid k b (Suc m) = flush_rounds others sid (Suc k) (others k (snd (flush_section sid b))) m"

text \<open>
  Others that leave the session in place and only append to its outbox, \<open>queued k b\<close> in the \<open>k\<close>-th round, and
  that are quiet from round \<open>N\<close> on.
\<close>

definition only_queue ::
  "(nat \<Rightarrow> 'h broker \<Rightarrow> 'h broker) \<Rightarrow> session_id \<Rightarrow> (nat \<Rightarrow> 'h broker \<Rightarrow> outbound_packet list) \<Rightarrow> nat \<Rightarrow> bool" where
  "only_queue others sid queued N \<longleftrightarrow>
     (\<forall>k b st. registry_get (br_registry b) sid = Some st \<longrightarrow>
        (\<exists>st'. registry_get (br_registry (others k b)) sid = Some st' \<and> outbox st' = outbox st @ queued k b
           \<and> (N \<le> k \<longrightarrow> queued k b = [])))"

text \<open>All packets that come to the outbox in the first \<open>m\<close> rounds.\<close>

primrec to_write ::
  "(nat \<Rightarrow> 'h broker \<Rightarrow> 'h broker) \<Rightarrow> session_id \<Rightarrow> (nat \<Rightarrow> 'h broker \<Rightarrow> outbound_packet list) \<Rightarrow> nat \<Rightarrow> 'h broker
     \<Rightarrow> nat \<Rightarrow> outbound_packet list" where
  "to_write others sid queued k b 0 = []"
| "to_write others sid queued k b (Suc m) =
     (let b' = snd (flush_section sid b)
      in queued k b' @ to_write others sid queued (Suc k) (others k b') m)"

lemma only_queueE:
  assumes "only_queue others sid queued N" "registry_get (br_registry b) sid = Some st"
  obtains st' where "registry_get (br_registry (others k b)) sid = Some st'" "outbox st' = outbox st @ queued k b"
    "N \<le> k \<longrightarrow> queued k b = []"
  using assms unfolding only_queue_def by blast

lemma flush_section_other:
  "i \<noteq> sid \<Longrightarrow> registry_get (br_registry (snd (flush_section sid b))) i = registry_get (br_registry b) i"
  by (simp add: flush_section_def get_mut_get split: option.split list.split)

lemma flush_section_Nil:
  assumes "registry_get (br_registry b) sid = Some st" "outbox st = []"
  obtains b' where "flush_section sid b = (None, b')" "registry_get (br_registry b') sid = Some (st\<lparr>outbox_drops := 0\<rparr>)"
  using assms by (simp add: flush_section_def get_mut_get)

lemma flush_section_Cons:
  assumes "registry_get (br_registry b) sid = Some st" "outbox st = p # ps"
  obtains b' where "flush_section sid b = (Some p, b')" "registry_get (br_registry b') sid = Some (st\<lparr>outbox := ps\<rparr>)"
  using assms by (simp add: flush_section_def get_mut_get)

lemma flush_outbox_writes:
  assumes "only_queue others sid queued N" "registry_get (br_registry b) sid = Some st"
  shows "\<exists>x s' m rest st'. flush_outbox_for_session tr others k sid b s
      = Some (x, (if isl x then id else snd \<circ> flush_section sid) (flush_rounds others sid k b m), s')
    \<and> write_packets tr (outbox st @ to_write others sid queued k b m) s = (x, rest, s')
    \<and> registry_get (br_registry ((if isl x then id else snd \<circ> flush_section sid) (flush_rounds others sid k b m))) sid = Some st'
    \<and> outbox st' = rest \<and> (\<not> isl x \<longrightarrow> rest = [] \<and> outbox_drops st' = 0)"
  using assms(2)
proof (induction "(N - k, length (outbox st))" arbitrary: k b st s rule: wf_induct_rule [OF wf_lex_prod [OF wf_less_than wf_less_than]])
  case less: 1
  show ?case
  proof (cases "outbox st")
    case Nil
    obtain b' where b': "flush_section sid b = (None, b')" "registry_get (br_registry b') sid = Some (st\<lparr>outbox_drops := 0\<rparr>)"
      by (rule flush_section_Nil [OF less.prems Nil])
    then have "flush_outbox_for_session tr others k sid b s = Some (Inr (), b', s)"
      by (subst flush_outbox_for_session.simps) simp
    then show ?thesis using b' Nil by (intro exI [of _ "Inr ()"] exI [of _ s] exI [of _ 0]) simp
  next
    case (Cons p ps)
    obtain b1 where b1: "flush_section sid b = (Some p, b1)" "registry_get (br_registry b1) sid = Some (st\<lparr>outbox := ps\<rparr>)"
      by (rule flush_section_Cons [OF less.prems Cons])
    obtain st2 where st2: "registry_get (br_registry (others k b1)) sid = Some st2" "outbox st2 = ps @ queued k b1"
        "N \<le> k \<longrightarrow> queued k b1 = []"
      by (rule only_queueE [OF assms(1) b1(2), of k]) simp
    obtain x s1 where w: "tr_write tr (ob_bytes p) s = (x, s1)" by fastforce
    show ?thesis
    proof (cases x)
      case (Inl e)
      then have "flush_outbox_for_session tr others k sid b s = Some (Inl e, others k b1, s1)"
        using b1 w by (subst flush_outbox_for_session.simps) simp
      then show ?thesis using b1 st2 w Inl Cons
        by (intro exI [of _ "Inl e"] exI [of _ s1] exI [of _ 1] exI [of _ "ps @ queued k b1"] exI [of _ st2]) simp
    next
      case (Inr u)
      then have f: "flush_outbox_for_session tr others k sid b s = flush_outbox_for_session tr others (Suc k) sid (others k b1) s1"
        using b1 w by (subst flush_outbox_for_session.simps) simp
      have lt: "((N - Suc k, length (outbox st2)), N - k, length (outbox st)) \<in> less_than <*lex*> less_than"
        using st2(2,3) Cons by (cases "N \<le> k") auto
      obtain y s' m rest st' where IH: "flush_outbox_for_session tr others (Suc k) sid (others k b1) s1
          = Some (y, (if isl y then id else snd \<circ> flush_section sid) (flush_rounds others sid (Suc k) (others k b1) m), s')"
        "write_packets tr (outbox st2 @ to_write others sid queued (Suc k) (others k b1) m) s1 = (y, rest, s')"
        "registry_get (br_registry ((if isl y then id else snd \<circ> flush_section sid)
           (flush_rounds others sid (Suc k) (others k b1) m))) sid = Some st'"
        "outbox st' = rest" "\<not> isl y \<longrightarrow> rest = [] \<and> outbox_drops st' = 0"
        using less.hyps [OF lt st2(1), where s = s1] by blast
      then show ?thesis
        using f b1 st2 w Inr Cons
        by (intro exI [of _ y] exI [of _ s'] exI [of _ "Suc m"] exI [of _ rest] exI [of _ st']) simp
    qed
  qed
qed

section \<open>Schedules\<close>

text \<open>Executable runs: \<open>Serve\<close> accepts a client on a free connection, \<open>Go\<close> lets a connection take a step.\<close>

datatype 's move = Serve nat 's | Go nat

primrec make_move ::
  "'h broker_env \<Rightarrow> broker_config \<Rightarrow> ('s, 'e) transport \<Rightarrow> 's move \<Rightarrow> ('s, 'h) system \<Rightarrow> ('s, 'h) system" where
  "make_move env cfg tr (Serve i s) y =
     (if i < length (sys_conns y) \<and> fst (sys_conns y ! i) = Finished
      then y\<lparr>sys_conns := (sys_conns y)[i := (AwaitConnect, s)]\<rparr> else y)"
| "make_move env cfg tr (Go i) y =
     (if i < length (sys_conns y)
      then (let (pc, s) = sys_conns y ! i;
                (pc', s', b') = conn_step env cfg tr Ready (sys_now y) (sys_now y) pc s (sys_broker y)
            in y\<lparr>sys_broker := b', sys_conns := (sys_conns y)[i := (pc', s')], sys_now := sys_now y\<rparr>)
      else y)"

lemma make_move_reachable: "reachable env cfg tr y (make_move env cfg tr m y)"
proof (cases m)
  case (Serve i s)
  show ?thesis
  proof (cases "i < length (sys_conns y) \<and> fst (sys_conns y ! i) = Finished")
    case True
    then have "system_step env cfg tr y (make_move env cfg tr m y)"
      using Serve step_accept [of i y env cfg tr s] by simp
    then show ?thesis by (simp add: reachable_def r_into_rtranclp)
  qed (use Serve in \<open>auto simp: reachable_def\<close>)
next
  case (Go i)
  show ?thesis
  proof (cases "i < length (sys_conns y)")
    case True
    obtain pc s where c: "sys_conns y ! i = (pc, s)" by fastforce
    obtain pc' s' b' where st: "conn_step env cfg tr Ready (sys_now y) (sys_now y) pc s (sys_broker y) = (pc', s', b')"
      using prod_cases3 by blast
    have "system_step env cfg tr y (make_move env cfg tr m y)"
      using step_connection [OF True c, of tr Ready "sys_now y" "sys_now y", OF _ _ _ st] True c st Go
      by (simp add: event_ok_def)
    then show ?thesis by (simp add: reachable_def r_into_rtranclp)
  qed (use Go in \<open>simp add: reachable_def\<close>)
qed

lemma moves_reachable: "reachable env cfg tr y (fold (make_move env cfg tr) ms y)"
proof (induction ms arbitrary: y)
  case (Cons m ms)
  then show ?case
    using make_move_reachable [of env cfg tr y m] by (auto simp: reachable_def intro: rtranclp_trans)
qed (simp add: reachable_def)

text \<open>Two connections on which clients with the same identifier log in one after the other.\<close>

definition takeover_env :: "mqtt_intent list broker_env" where
  "takeover_env = example_env\<lparr>env_mq := example_codec\<lparr>decode_slice := (\<lambda>bs.
     if bs = [0x10, 0] then Inr (Some (Connect example_connect)) else decode_slice example_codec bs)\<rparr>\<rparr>"

definition takeover_start :: "(mock_transport, mqtt_intent list) system" where
  "takeover_start = \<lparr>sys_broker = init_broker 2 2 [], sys_conns = [(Finished, mock_new), (Finished, mock_new)],
     sys_now = 0\<rparr>"

definition takeover_moves :: "mock_transport move list" where
  "takeover_moves =
     [Serve 0 (mock_feed [0x10, 0] mock_new), Go 0, Go 0, Go 0, Go 0,
      Serve 1 (mock_feed [0x10, 0] mock_new), Go 1, Go 1, Go 1, Go 1]"

lemma takeover_start_initial: "initial 2 2 takeover_start"
  by (auto simp: initial_def takeover_start_def)

lemma takeover_env_pids: "mqttrs_pids (env_mq takeover_env)" "5 \<le> env_max_packet takeover_env"
  by (simp_all add: takeover_env_def mqttrs_pids_def example_env_def example_codec_def)

section \<open>Properties\<close>

text \<open>
  C1: the whole broker. Start with no session and let any number of connections, the control domain and
  arriving clients take their critical sections in any order, whatever the transports deliver and
  whenever timers and signals abandon a read. Then the registry, the retained store and the signals always satisfy
  their invariant (unique client identifiers, bounded tables, reference counts that are exactly
  the in-flight entries), every connection's session identifier is within bounds, and no connection
  panics, given a frame buffer of at least five bytes.
\<close>

theorem broker_safe:
  assumes "mqttrs_pids (env_mq env)" "5 \<le> env_max_packet env"
    and "initial n k y" "reachable env cfg tr y y'"
  shows "broker_inv (env_max_subs env) (env_max_retained env) (sys_broker y')
    \<and> length (br_signals (sys_broker y')) = n
    \<and> (\<forall>c \<in> set (sys_conns y'). pc_ok n (fst c) \<and> fst c \<noteq> Panicked)"
proof -
  have n: "length (br_signals (sys_broker y)) = n"
    using assms(3) by (auto simp: initial_def init_broker_def new_session_signals_def)
  have "system_inv env y' \<and> length (br_signals (sys_broker y')) = n"
    using reachable_inv [OF assms(4) initial_inv [OF assms(3)] assms(1,2)] n by simp
  then show ?thesis by (auto simp: system_inv_def)
qed

theorem broker_safe_witness:
  "\<exists>y. reachable takeover_env GATOMQTT_CONFIG mock_transport_ops takeover_start y
     \<and> broker_inv 4 4 (sys_broker y) \<and> map fst (sys_conns y) = [Await 0 90000, Await 0 90000]"
proof -
  let ?y = "fold (make_move takeover_env GATOMQTT_CONFIG mock_transport_ops) takeover_moves takeover_start"
  have "map fst (sys_conns ?y) = [Await 0 90000, Await 0 90000]" by code_simp
  moreover have "broker_inv (env_max_subs takeover_env) (env_max_retained takeover_env) (sys_broker ?y)"
    using broker_safe [OF takeover_env_pids takeover_start_initial moves_reachable] by (rule conjunct1)
  moreover have "env_max_subs takeover_env = 4" "env_max_retained takeover_env = 4"
    by (simp_all add: takeover_env_def example_env_def)
  ultimately show ?thesis by (intro exI [of _ ?y] conjI moves_reachable) (simp_all only:)
qed

text \<open>
  C34: draining the outbox while other tasks run. As long as the others leave the session in place and only append to its
  outbox, and stop doing so at some point, \<open>flush_outbox_for_session\<close> returns. Up to the first failed write it has written
  all packets in the order they came to the outbox, those that were there and those queued during its writes. When
  no write failed the outbox is empty and the count of drops is forgotten; otherwise the packets behind the failed
  one are still queued. The loop itself changes no other session.
\<close>

theorem flush_drains:
  assumes "only_queue others sid queued N" "registry_get (br_registry b) sid = Some st"
  shows "\<exists>x s' m rest st'. flush_outbox_for_session tr others 0 sid b s
      = Some (x, (if isl x then id else snd \<circ> flush_section sid) (flush_rounds others sid 0 b m), s')
    \<and> write_packets tr (outbox st @ to_write others sid queued 0 b m) s = (x, rest, s')
    \<and> registry_get (br_registry ((if isl x then id else snd \<circ> flush_section sid) (flush_rounds others sid 0 b m))) sid = Some st'
    \<and> outbox st' = rest \<and> (\<not> isl x \<longrightarrow> rest = [] \<and> outbox_drops st' = 0)
    \<and> (\<forall>i b. i \<noteq> sid \<longrightarrow> registry_get (br_registry (snd (flush_section sid b))) i = registry_get (br_registry b) i)"
  using flush_outbox_writes [OF assms, where tr = tr and k = 0 and s = s] flush_section_other by blast

text \<open>One packet is queued for session 1 before the loop, another one during its first write.\<close>

definition late_packet :: "nat \<Rightarrow> mqtt_intent list broker \<Rightarrow> mqtt_intent list broker" where
  "late_packet k b = (if k = 0 then b\<lparr>br_registry := registry_get_mut 1 (\<lambda>s. s\<lparr>outbox := outbox s @ [\<lparr>ob_bytes = [7]\<rparr>]\<rparr>)
     (br_registry b)\<rparr> else b)"

lemma late_packet_queues: "only_queue late_packet 1 (\<lambda>k _. if k = 0 then [\<lparr>ob_bytes = [7]\<rparr>] else []) 1"
  by (simp add: only_queue_def late_packet_def get_mut_get)

theorem flush_drains_witness:
  "\<exists>b' s' st. flush_outbox_for_session mock_transport_ops late_packet 0 1
       (cleanup_deliver example_codec example_will [(1, AtLeastOnce)] example_broker) mock_new = Some (Inr (), b', s')
     \<and> tx_log s' = [[0x30, 0], [7]] \<and> registry_get (br_registry b') 1 = Some st \<and> outbox st = []"
proof -
  define b where "b = cleanup_deliver example_codec example_will [(1, AtLeastOnce)] example_broker"
  let ?f = "flush_outbox_for_session mock_transport_ops late_packet 0 1 b mock_new"
  have f: "map_option (\<lambda>(x, b', s'). (isl x, tx_log s')) ?f = Some (False, [[0x30, 0], [7]])"
    unfolding b_def by code_simp
  have "registry_get (br_registry b) 1 = Some (will_outbox example_codec example_will AtLeastOnce example_subscriber)"
    unfolding b_def by (subst cleanup_deliver_spec(4) [OF example_broker_inv]) (simp_all add: example_broker_get)
  from flush_drains [OF late_packet_queues this, where tr = mock_transport_ops and s = mock_new]
  obtain x b' s' rest st where r: "?f = Some (x, b', s')" "registry_get (br_registry b') 1 = Some st"
      "outbox st = rest" "\<not> isl x \<longrightarrow> rest = []"
    by blast
  with f have "\<not> isl x" "tx_log s' = [[0x30, 0], [7]]" by simp_all
  moreover from this have "x = Inr ()" by (cases x) simp_all
  ultimately show ?thesis using r unfolding b_def by blast
qed

section \<open>A stale connection\<close>

lemma connection_step:
  assumes "i < length (sys_conns y)" "sys_conns y ! i = (pc, s)"
    and "conn_step env cfg tr Ready (sys_now y) (sys_now y) pc s (sys_broker y) = (pc', s', b')"
  shows "reachable env cfg tr y (y\<lparr>sys_broker := b', sys_conns := (sys_conns y)[i := (pc', s')]\<rparr>)"
proof -
  have "y\<lparr>sys_broker := b', sys_conns := (sys_conns y)[i := (pc', s')], sys_now := sys_now y\<rparr>
      = y\<lparr>sys_broker := b', sys_conns := (sys_conns y)[i := (pc', s')]\<rparr>"
    by simp
  then show ?thesis
    using step_connection [OF assms(1,2), of tr Ready "sys_now y" "sys_now y", OF _ _ _ assms(3)]
    by (simp add: event_ok_def reachable_def r_into_rtranclp)
qed

lemma cleanup_steps:
  assumes "i < length (sys_conns y)" "sys_conns y ! i = (CleanLwt sid reason, s)"
  shows "\<exists>b'. reachable env cfg tr y (y\<lparr>sys_broker := b', sys_conns := (sys_conns y)[i := (Closing, s)]\<rparr>)
    \<and> registry_get (br_registry b') sid = None"
proof -
  obtain d b1 where lw: "cleanup_lwt env sid reason (sys_broker y) = (d, b1)" by fastforce
  have last: "reachable env cfg tr z (z\<lparr>sys_broker := cleanup_remove sid (sys_broker z), sys_conns := (sys_conns z)[i := (Closing, s)]\<rparr>)"
    if "i < length (sys_conns z)" "sys_conns z ! i = (CleanRemove sid, s)" for z :: "('a, 'b) system"
    by (rule connection_step [OF that]) (simp add: conn_step_def)
  have gone: "registry_get (br_registry (cleanup_remove sid b)) sid = None" for b :: "'b broker"
    by (simp add: cleanup_remove_def remove_get)
  have "\<exists>b2. reachable env cfg tr y (y\<lparr>sys_broker := b2, sys_conns := (sys_conns y)[i := (CleanRemove sid, s)]\<rparr>)"
  proof (cases d)
    case None
    then show ?thesis
      using connection_step [OF assms, of env cfg tr "CleanRemove sid" s b1] lw by (auto simp: conn_step_def)
  next
    case (Some ld)
    obtain l ds where ld: "ld = (l, ds)" by fastforce
    let ?z = "y\<lparr>sys_broker := b1, sys_conns := (sys_conns y)[i := (CleanDeliver sid l ds, s)]\<rparr>"
    have 1: "reachable env cfg tr y ?z"
      by (rule connection_step [OF assms]) (simp add: conn_step_def lw Some ld)
    have "reachable env cfg tr ?z (?z\<lparr>sys_broker := cleanup_deliver (env_mq env) l ds b1,
        sys_conns := (sys_conns ?z)[i := (CleanRemove sid, s)]\<rparr>)"
      by (rule connection_step [where pc = "CleanDeliver sid l ds" and s = s]) (use assms(1) in \<open>simp_all add: conn_step_def\<close>)
    with 1 show ?thesis
      by (intro exI [of _ "cleanup_deliver (env_mq env) l ds b1"]) (simp add: reachable_def)
  qed
  then obtain b2 where b2: "reachable env cfg tr y (y\<lparr>sys_broker := b2, sys_conns := (sys_conns y)[i := (CleanRemove sid, s)]\<rparr>)"
    by blast
  moreover note last [of "y\<lparr>sys_broker := b2, sys_conns := (sys_conns y)[i := (CleanRemove sid, s)]\<rparr>"]
  ultimately show ?thesis
    using assms(1) gone [of b2] by (intro exI [of _ "cleanup_remove sid b2"]) (auto simp: reachable_def)
qed

text \<open>
  C40: a session can be lost to a connection that no longer owns it. There is a reachable state in which connection 0 waits for
  packets of session 0; connection 1 then logs in with the same client identifier and is given session 0, while
  connection 0 does not move, so that both wait with the same session identifier. And whenever two connections do so,
  steps of the first one alone, once reading from its transport fails, take the session away from the second, which waits on.
\<close>

theorem stale_cleanup_removes_successor:
  "(\<exists>y0 y t. reachable takeover_env GATOMQTT_CONFIG mock_transport_ops takeover_start y0
     \<and> map fst (sys_conns y0) = [Await 0 90000, AwaitConnect]
     \<and> reachable takeover_env GATOMQTT_CONFIG mock_transport_ops y0 y
     \<and> sys_conns y = (sys_conns y0)[1 := (Await 0 90000, t)] \<and> registry_get (br_registry (sys_broker y)) 0 \<noteq> None)
   \<and> (i < length (sys_conns y) \<and> j < length (sys_conns y) \<and> i \<noteq> j
      \<and> sys_conns y ! i = (Await sid d, s) \<and> sys_conns y ! j = (Await sid d', s')
      \<and> read_packet (env_mq env) tr (env_max_packet env) s = (Some (Inl e), s'') \<longrightarrow>
      (\<exists>b'. reachable env cfg tr y (y\<lparr>sys_broker := b', sys_conns := (sys_conns y)[i := (Closing, s'')]\<rparr>)
         \<and> registry_get (br_registry b') sid = None \<and> (sys_conns y)[i := (Closing, s'')] ! j = (Await sid d', s')))"
proof (intro conjI impI)
  let ?run = "fold (make_move takeover_env GATOMQTT_CONFIG mock_transport_ops)"
  let ?before = "?run (take 6 takeover_moves) takeover_start"
  let ?y = "?run (drop 6 takeover_moves) ?before"
  have "map fst (sys_conns ?before) = [Await 0 90000, AwaitConnect]"
    "sys_conns ?y = (sys_conns ?before)[1 := (Await 0 90000, snd (sys_conns ?y ! 1))]"
    "\<not> Option.is_none (registry_get (br_registry (sys_broker ?y)) 0)"
    by code_simp+
  then show "\<exists>y0 y t. reachable takeover_env GATOMQTT_CONFIG mock_transport_ops takeover_start y0
     \<and> map fst (sys_conns y0) = [Await 0 90000, AwaitConnect]
     \<and> reachable takeover_env GATOMQTT_CONFIG mock_transport_ops y0 y
     \<and> sys_conns y = (sys_conns y0)[1 := (Await 0 90000, t)] \<and> registry_get (br_registry (sys_broker y)) 0 \<noteq> None"
    by (intro exI [of _ ?before] exI [of _ ?y] exI [of _ "snd (sys_conns ?y ! 1)"] conjI moves_reachable)
      (simp_all only: Option.is_none_def not_False_eq_True)
next
  assume a: "i < length (sys_conns y) \<and> j < length (sys_conns y) \<and> i \<noteq> j
      \<and> sys_conns y ! i = (Await sid d, s) \<and> sys_conns y ! j = (Await sid d', s')
      \<and> read_packet (env_mq env) tr (env_max_packet env) s = (Some (Inl e), s'')"
  let ?r = "if e = Eof then ConnectionClosed else TransportError"
  let ?z = "y\<lparr>sys_broker := sys_broker y, sys_conns := (sys_conns y)[i := (CleanLwt sid ?r, s'')]\<rparr>"
  have 1: "reachable env cfg tr y ?z"
    by (rule connection_step [where pc = "Await sid d" and s = s]) (use a in \<open>simp_all add: conn_step_def\<close>)
  obtain b' where "reachable env cfg tr ?z (?z\<lparr>sys_broker := b', sys_conns := (sys_conns ?z)[i := (Closing, s'')]\<rparr>)"
      "registry_get (br_registry b') sid = None"
    using cleanup_steps [of i ?z sid ?r s'' env cfg tr] a by auto
  with 1 a show "\<exists>b'. reachable env cfg tr y (y\<lparr>sys_broker := b', sys_conns := (sys_conns y)[i := (Closing, s'')]\<rparr>)
         \<and> registry_get (br_registry b') sid = None \<and> (sys_conns y)[i := (Closing, s'')] ! j = (Await sid d', s')"
    by (intro exI [of _ b']) (auto simp: reachable_def)
qed

definition takeover_state :: "(mock_transport, mqtt_intent list) system" where
  "takeover_state = fold (make_move takeover_env GATOMQTT_CONFIG mock_transport_ops) takeover_moves takeover_start"

theorem stale_cleanup_removes_successor_witness:
  "\<exists>b'. reachable takeover_env GATOMQTT_CONFIG mock_transport_ops takeover_start
       (takeover_state\<lparr>sys_broker := b', sys_conns := (sys_conns takeover_state)[0 := (Closing, snd (sys_conns takeover_state ! 0))]\<rparr>)
     \<and> registry_get (br_registry b') 0 = None"
proof -
  let ?s = "snd (sys_conns takeover_state ! 0)" and ?t = "snd (sys_conns takeover_state ! 1)"
  have "length (sys_conns takeover_state) = 2"
    "sys_conns takeover_state ! 0 = (Await 0 90000, ?s)" "sys_conns takeover_state ! 1 = (Await 0 90000, ?t)"
    "read_packet (env_mq takeover_env) mock_transport_ops (env_max_packet takeover_env) ?s = (Some (Inl Eof), ?s)"
    by code_simp+
  with stale_cleanup_removes_successor [where i = 0 and j = 1 and y = takeover_state and sid = 0 and d = 90000 and d' = 90000
      and s = ?s and s' = ?t and env = takeover_env and tr = mock_transport_ops and e = Eof and s'' = ?s
      and cfg = GATOMQTT_CONFIG, THEN conjunct2, THEN mp]
  show ?thesis using moves_reachable [of takeover_env GATOMQTT_CONFIG mock_transport_ops takeover_start takeover_moves]
    unfolding takeover_state_def [symmetric] by (auto simp: reachable_def intro: rtranclp_trans)
qed

end
