(* ===== verification/Tls_Psk.thy ===== *)
theory Tls_Psk
  imports Frame Bytes
begin

text \<open>
  The TLS 1.3 pre-shared-key session, \<^verbatim>\<open>crates/GatoMQTT/src/tls/embedded_tls_psk.rs\<close>: the adapter that
  takes records off a transport, drives the handshake and turns the transport into a stream of decrypted
  bytes. The TLS engine (crate \<open>gatopsktls\<close>) is a parameter: a record of functions on its state that return what
  they place at the front of the buffer they are given, whose length they are told.

  Change-cipher-spec records are skipped in a loop that a peer can keep running for ever, so the
  operations with such a loop return an option and \<open>None\<close> means that they do not return.
\<close>

section \<open>The engine\<close>

record 'd tls_server_config =
  sc_psk :: "bytes \<times> bytes"
  sc_server_random :: bytes
  sc_dhe_keypair :: "'d option"

datatype handshake_output = FirstFlight bytes | HelloRetryRequest bytes

datatype app_data_or_alert = AppData bytes | Alert

record ('i, 'd, 't) tls_engine =
  te_new :: 'i
  process_client_hello :: "bytes \<Rightarrow> 'd tls_server_config \<Rightarrow> nat \<Rightarrow> 'i \<Rightarrow> ('t + handshake_output) \<times> 'i"
  process_client_finished :: "bytes \<Rightarrow> 'i \<Rightarrow> ('t + unit) \<times> 'i"
  encrypt_app_data :: "bytes \<Rightarrow> nat \<Rightarrow> 'i \<Rightarrow> ('t + bytes) \<times> 'i"
  decrypt_app_data_or_alert :: "bytes \<Rightarrow> nat \<Rightarrow> 'i \<Rightarrow> ('t + app_data_or_alert) \<times> 'i"
  encrypt_close_notify :: "nat \<Rightarrow> 'i \<Rightarrow> ('t + bytes) \<times> 'i"
  te_InvalidHandshake :: 't
  te_InsufficientSpace :: 't

section \<open>The session\<close>

definition RECORD_HEADER_LEN :: nat where
  "RECORD_HEADER_LEN = 5"

definition TLS_CT_CHANGE_CIPHER_SPEC :: u8 where
  "TLS_CT_CHANGE_CIPHER_SPEC = 20"

definition TLS_CT_ALERT :: u8 where
  "TLS_CT_ALERT = 21"

definition TLS_CT_HANDSHAKE :: u8 where
  "TLS_CT_HANDSHAKE = 22"

definition TLS_CT_APPLICATION_DATA :: u8 where
  "TLS_CT_APPLICATION_DATA = 23"

datatype ('e, 't) session_error = SETransport 'e | SETls 't | SEEof | SERecordTooLarge nat nat
  | SEUnexpectedRecordType u8 | SEHandshakeIncomplete | SEClosed

record 'd psk_config =
  psk_identity :: bytes
  psk_secret :: bytes
  dhe_keypair :: "'d option"

record ('s, 'i, 'd) psk_session =
  ps_transport :: 's
  ps_inner :: 'i
  ps_config :: "'d psk_config"
  server_random :: bytes
  record_buf :: bytes
  record_len :: nat
  out_buf :: bytes
  plain_buf :: bytes
  plain_len :: nat
  plain_offset :: nat
  handshake_done :: bool
  ps_closed :: bool

definition psk_new ::
  "('i, 'd, 't) tls_engine \<Rightarrow> nat \<Rightarrow> 's \<Rightarrow> 'd psk_config \<Rightarrow> bytes \<Rightarrow> ('s, 'i, 'd) psk_session" where
  "psk_new eng BUF t cfg random =
     \<lparr>ps_transport = t, ps_inner = te_new eng, ps_config = cfg, server_random = random,
      record_buf = replicate BUF 0, record_len = 0, out_buf = replicate BUF 0, plain_buf = replicate BUF 0,
      plain_len = 0, plain_offset = 0, handshake_done = False, ps_closed = False\<rparr>"

section \<open>Records\<close>

function fill_record ::
  "('s, 'e) transport \<Rightarrow> nat \<Rightarrow> nat \<Rightarrow> ('s, 'i, 'd) psk_session
     \<Rightarrow> (('e, 't) session_error + unit) \<times> ('s, 'i, 'd) psk_session" where
  "fill_record tr filled stop ps =
     (if filled < stop
      then (case tr_read tr (stop - filled) (ps_transport ps) of
              (Inl e, t) \<Rightarrow> (Inl (SETransport e), ps\<lparr>ps_transport := t\<rparr>)
            | (Inr bs, t) \<Rightarrow>
                if bs = [] then (Inl SEEof, ps\<lparr>ps_transport := t\<rparr>)
                else fill_record tr (filled + length bs) stop
                       (ps\<lparr>ps_transport := t, record_buf := put_at filled bs (record_buf ps)\<rparr>))
      else (Inr (), ps))"
  by pat_completeness auto

termination
  by (relation "measure (\<lambda>(tr, filled, stop, ps). stop - filled)") (auto intro!: diff_less_mono2)

declare fill_record.simps [simp del]

definition read_exact_into ::
  "('s, 'e) transport \<Rightarrow> nat \<Rightarrow> nat \<Rightarrow> ('s, 'i, 'd) psk_session
     \<Rightarrow> (('e, 't) session_error + unit) \<times> ('s, 'i, 'd) psk_session" where
  "read_exact_into tr start len ps =
     (let stop = start + len
      in if stop > length (record_buf ps) then (Inl (SERecordTooLarge stop (length (record_buf ps))), ps)
         else fill_record tr start stop ps)"

definition record_type :: "('s, 'i, 'd) psk_session \<Rightarrow> u8" where
  "record_type ps = record_buf ps ! 0"

definition fetch_record ::
  "('s, 'e) transport \<Rightarrow> ('s, 'i, 'd) psk_session
     \<Rightarrow> (('e, 't) session_error + unit) \<times> ('s, 'i, 'd) psk_session" where
  "fetch_record tr ps =
     (case read_exact_into tr 0 RECORD_HEADER_LEN ps of
        (Inl e, ps1) \<Rightarrow> (Inl e, ps1)
      | (Inr _, ps1) \<Rightarrow>
          (let body_len = unat (u16_from_be_bytes (record_buf ps1 ! 3) (record_buf ps1 ! 4));
               total = RECORD_HEADER_LEN + body_len
           in if total > length (record_buf ps1)
              then (Inl (SERecordTooLarge total (length (record_buf ps1))), ps1)
              else (case read_exact_into tr RECORD_HEADER_LEN body_len ps1 of
                      (Inl e, ps2) \<Rightarrow> (Inl e, ps2)
                    | (Inr _, ps2) \<Rightarrow> (Inr (), ps2\<lparr>record_len := total\<rparr>))))"

text \<open>The next record that is not a change-cipher-spec, by its type.\<close>

partial_function (option) skip_ccs ::
  "('s, 'e) transport \<Rightarrow> ('s, 'i, 'd) psk_session
     \<Rightarrow> ((('e, 't) session_error + u8) \<times> ('s, 'i, 'd) psk_session) option" where
  "skip_ccs tr ps =
     (case fetch_record tr ps of
        (Inl e, ps') \<Rightarrow> Some (Inl e, ps')
      | (Inr _, ps') \<Rightarrow>
          if record_type ps' = TLS_CT_CHANGE_CIPHER_SPEC then skip_ccs tr ps'
          else Some (Inr (record_type ps'), ps'))"

section \<open>Handshake\<close>

definition client_hello ::
  "('i, 'd, 't) tls_engine \<Rightarrow> ('s, 'i, 'd) psk_session
     \<Rightarrow> (('e, 't) session_error + handshake_output) \<times> ('s, 'i, 'd) psk_session" where
  "client_hello eng ps =
     (let hello = slice RECORD_HEADER_LEN (record_len ps) (record_buf ps);
          cfg = \<lparr>sc_psk = (psk_identity (ps_config ps), psk_secret (ps_config ps)),
                 sc_server_random = server_random ps, sc_dhe_keypair = dhe_keypair (ps_config ps)\<rparr>
      in case process_client_hello eng hello cfg (length (out_buf ps)) (ps_inner ps) of
           (Inl e, i) \<Rightarrow> (Inl (SETls e), ps\<lparr>ps_inner := i\<rparr>)
         | (Inr out, i) \<Rightarrow>
             (Inr out, ps\<lparr>ps_inner := i,
                out_buf := put_at 0 (case out of FirstFlight bs \<Rightarrow> bs | HelloRetryRequest bs \<Rightarrow> bs) (out_buf ps)\<rparr>))"

definition send_out ::
  "('s, 'e) transport \<Rightarrow> nat \<Rightarrow> ('s, 'i, 'd) psk_session
     \<Rightarrow> (('e, 't) session_error + unit) \<times> ('s, 'i, 'd) psk_session" where
  "send_out tr len ps =
     (case tr_write tr (take len (out_buf ps)) (ps_transport ps) of
        (Inl e, t) \<Rightarrow> (Inl (SETransport e), ps\<lparr>ps_transport := t\<rparr>)
      | (Inr _, t) \<Rightarrow> (Inr (), ps\<lparr>ps_transport := t\<rparr>))"

definition finish_handshake ::
  "('i, 'd, 't) tls_engine \<Rightarrow> ('s, 'e) transport \<Rightarrow> nat \<Rightarrow> ('s, 'i, 'd) psk_session
     \<Rightarrow> ((('e, 't) session_error + unit) \<times> ('s, 'i, 'd) psk_session) option" where
  "finish_handshake eng tr flight_len ps =
     (case send_out tr flight_len ps of
        (Inl e, ps1) \<Rightarrow> Some (Inl e, ps1)
      | (Inr _, ps1) \<Rightarrow>
          (case skip_ccs tr ps1 of
             None \<Rightarrow> None
           | Some (Inl e, ps2) \<Rightarrow> Some (Inl e, ps2)
           | Some (Inr ct, ps2) \<Rightarrow>
               if ct \<noteq> TLS_CT_APPLICATION_DATA then Some (Inl (SEUnexpectedRecordType ct), ps2)
               else (case process_client_finished eng (take (record_len ps2) (record_buf ps2)) (ps_inner ps2) of
                       (Inl e, i) \<Rightarrow> Some (Inl (SETls e), ps2\<lparr>ps_inner := i\<rparr>)
                     | (Inr _, i) \<Rightarrow> Some (Inr (), ps2\<lparr>ps_inner := i, handshake_done := True\<rparr>))))"

definition hello_retry ::
  "('i, 'd, 't) tls_engine \<Rightarrow> ('s, 'e) transport \<Rightarrow> nat \<Rightarrow> ('s, 'i, 'd) psk_session
     \<Rightarrow> ((('e, 't) session_error + unit) \<times> ('s, 'i, 'd) psk_session) option" where
  "hello_retry eng tr hrr_len ps =
     (case send_out tr hrr_len ps of
        (Inl e, ps1) \<Rightarrow> Some (Inl e, ps1)
      | (Inr _, ps1) \<Rightarrow>
          (case skip_ccs tr ps1 of
             None \<Rightarrow> None
           | Some (Inl e, ps2) \<Rightarrow> Some (Inl e, ps2)
           | Some (Inr ct, ps2) \<Rightarrow>
               if ct \<noteq> TLS_CT_HANDSHAKE then Some (Inl (SEUnexpectedRecordType ct), ps2)
               else
                 (case client_hello eng ps2 of
                    (Inl e, ps3) \<Rightarrow> Some (Inl e, ps3)
                  | (Inr (FirstFlight bs), ps3) \<Rightarrow> finish_handshake eng tr (length bs) ps3
                  | (Inr (HelloRetryRequest _), ps3) \<Rightarrow> Some (Inl (SETls (te_InvalidHandshake eng)), ps3))))"

definition do_accept ::
  "('i, 'd, 't) tls_engine \<Rightarrow> ('s, 'e) transport \<Rightarrow> ('s, 'i, 'd) psk_session
     \<Rightarrow> ((('e, 't) session_error + unit) \<times> ('s, 'i, 'd) psk_session) option" where
  "do_accept eng tr ps =
     (case fetch_record tr ps of
        (Inl e, ps1) \<Rightarrow> Some (Inl e, ps1)
      | (Inr _, ps1) \<Rightarrow>
          if record_type ps1 \<noteq> TLS_CT_HANDSHAKE then Some (Inl (SEUnexpectedRecordType (record_type ps1)), ps1)
          else
            (case client_hello eng ps1 of
               (Inl e, ps2) \<Rightarrow> Some (Inl e, ps2)
             | (Inr (FirstFlight bs), ps2) \<Rightarrow> finish_handshake eng tr (length bs) ps2
             | (Inr (HelloRetryRequest bs), ps2) \<Rightarrow> hello_retry eng tr (length bs) ps2))"

section \<open>Application data\<close>

text \<open>A decryption that fails may leave anything in \<open>plain_buf\<close>; the code does not look at it again.\<close>

definition refill_plaintext ::
  "('i, 'd, 't) tls_engine \<Rightarrow> ('s, 'e) transport \<Rightarrow> ('s, 'i, 'd) psk_session
     \<Rightarrow> ((('e, 't) session_error + unit) \<times> ('s, 'i, 'd) psk_session) option" where
  "refill_plaintext eng tr ps =
     (case skip_ccs tr ps of
        None \<Rightarrow> None
      | Some (Inl e, ps1) \<Rightarrow> Some (Inl e, ps1)
      | Some (Inr ct, ps1) \<Rightarrow>
          if ct = TLS_CT_APPLICATION_DATA
          then (case decrypt_app_data_or_alert eng (take (record_len ps1) (record_buf ps1)) (length (plain_buf ps1))
                       (ps_inner ps1) of
                  (Inl e, i) \<Rightarrow> Some (Inl (SETls e), ps1\<lparr>ps_inner := i\<rparr>)
                | (Inr (AppData plaintext), i) \<Rightarrow>
                    Some (Inr (), ps1\<lparr>ps_inner := i, plain_buf := put_at 0 plaintext (plain_buf ps1),
                                      plain_len := length plaintext, plain_offset := 0\<rparr>)
                | (Inr Alert, i) \<Rightarrow> Some (Inl SEClosed, ps1\<lparr>ps_inner := i, ps_closed := True\<rparr>))
          else if ct = TLS_CT_ALERT then Some (Inl SEClosed, ps1\<lparr>ps_closed := True\<rparr>)
          else Some (Inl (SEUnexpectedRecordType ct), ps1))"

definition psk_accept ::
  "('i, 'd, 't) tls_engine \<Rightarrow> ('s, 'e) transport \<Rightarrow> ('s, 'i, 'd) psk_session
     \<Rightarrow> ((('e, 't) session_error + unit) \<times> ('s, 'i, 'd) psk_session) option" where
  "psk_accept eng tr ps = (if handshake_done ps then Some (Inr (), ps) else do_accept eng tr ps)"

definition take_plaintext ::
  "nat \<Rightarrow> ('s, 'i, 'd) psk_session \<Rightarrow> bytes \<times> ('s, 'i, 'd) psk_session" where
  "take_plaintext buf_len ps =
     (let available = plain_len ps - plain_offset ps;
          n = min buf_len available
      in (slice (plain_offset ps) (plain_offset ps + n) (plain_buf ps), ps\<lparr>plain_offset := plain_offset ps + n\<rparr>))"

definition psk_read ::
  "('i, 'd, 't) tls_engine \<Rightarrow> ('s, 'e) transport \<Rightarrow> nat \<Rightarrow> ('s, 'i, 'd) psk_session
     \<Rightarrow> ((('e, 't) session_error + bytes) \<times> ('s, 'i, 'd) psk_session) option" where
  "psk_read eng tr buf_len ps =
     (if \<not> handshake_done ps then Some (Inl SEHandshakeIncomplete, ps)
      else if ps_closed ps then Some (Inr [], ps)
      else if plain_offset ps \<ge> plain_len ps
      then (case refill_plaintext eng tr ps of
              None \<Rightarrow> None
            | Some (Inr _, ps') \<Rightarrow> Some (apfst Inr (take_plaintext buf_len ps'))
            | Some (Inl SEClosed, ps') \<Rightarrow> Some (Inr [], ps')
            | Some (Inl SEEof, ps') \<Rightarrow> Some (Inr [], ps')
            | Some (Inl e, ps') \<Rightarrow> Some (Inl e, ps'))
      else Some (apfst Inr (take_plaintext buf_len ps)))"

definition psk_write ::
  "('i, 'd, 't) tls_engine \<Rightarrow> ('s, 'e) transport \<Rightarrow> bytes \<Rightarrow> ('s, 'i, 'd) psk_session
     \<Rightarrow> (('e, 't) session_error + nat) \<times> ('s, 'i, 'd) psk_session" where
  "psk_write eng tr buf ps =
     (if \<not> handshake_done ps then (Inl SEHandshakeIncomplete, ps)
      else if ps_closed ps then (Inl SEClosed, ps)
      else
        (let max_chunk = length (out_buf ps) - (RECORD_HEADER_LEN + 1 + 16);
             chunk = min (length buf) max_chunk
         in if chunk = 0 then (Inl (SETls (te_InsufficientSpace eng)), ps)
            else (case encrypt_app_data eng (take chunk buf) (length (out_buf ps)) (ps_inner ps) of
                    (Inl e, i) \<Rightarrow> (Inl (SETls e), ps\<lparr>ps_inner := i\<rparr>)
                  | (Inr record, i) \<Rightarrow>
                      (case send_out tr (length record)
                              (ps\<lparr>ps_inner := i, out_buf := put_at 0 record (out_buf ps)\<rparr>) of
                         (Inl e, ps') \<Rightarrow> (Inl e, ps')
                       | (Inr _, ps') \<Rightarrow> (Inr chunk, ps')))))"

definition psk_flush :: "('s, 'i, 'd) psk_session \<Rightarrow> (('e, 't) session_error + unit) \<times> ('s, 'i, 'd) psk_session" where
  "psk_flush ps = (Inr (), ps)"

definition close_transport :: "('s, 'e) transport \<Rightarrow> ('s, 'i, 'd) psk_session \<Rightarrow> ('s, 'i, 'd) psk_session" where
  "close_transport tr ps = ps\<lparr>ps_transport := tr_close tr (ps_transport ps)\<rparr>"

definition psk_close ::
  "('i, 'd, 't) tls_engine \<Rightarrow> ('s, 'e) transport \<Rightarrow> ('s, 'i, 'd) psk_session \<Rightarrow> ('s, 'i, 'd) psk_session" where
  "psk_close eng tr ps =
     (if ps_closed ps then ps
      else
        (let ps1 = ps\<lparr>ps_closed := True\<rparr>
         in if \<not> handshake_done ps1 then close_transport tr ps1
            else (case encrypt_close_notify eng (length (out_buf ps1)) (ps_inner ps1) of
                    (Inl _, i) \<Rightarrow> close_transport tr (ps1\<lparr>ps_inner := i\<rparr>)
                  | (Inr record, i) \<Rightarrow>
                      (let (_, t) = tr_write tr record (ps_transport ps1)
                       in close_transport tr (ps1\<lparr>ps_inner := i, out_buf := put_at 0 record (out_buf ps1),
                            ps_transport := t\<rparr>)))))"

text \<open>
  The session as an implementation of \<open>TlsSession\<close>. The error \<open>None\<close> stands for an operation that
  does not return.
\<close>

definition or_diverge :: "(('f + 'a) \<times> 's) option \<Rightarrow> 's \<Rightarrow> ('f option + 'a) \<times> 's" where
  "or_diverge r s = (case r of None \<Rightarrow> (Inl None, s) | Some (x, s') \<Rightarrow> (map_err Some x, s'))"

definition psk_session_ops ::
  "('i, 'd, 't) tls_engine \<Rightarrow> ('s, 'e) transport
     \<Rightarrow> (('s, 'i, 'd) psk_session, ('e, 't) session_error option) tls_session" where
  "psk_session_ops eng tr =
     \<lparr>ts_accept = (\<lambda>ps. or_diverge (psk_accept eng tr ps) ps),
      ts_read = (\<lambda>n ps. or_diverge (psk_read eng tr n ps) ps),
      ts_write = (\<lambda>bs ps. apfst (map_err Some) (psk_write eng tr bs ps)),
      ts_flush = (\<lambda>ps. apfst (map_err Some) (psk_flush ps)),
      ts_close = psk_close eng tr\<rparr>"

section \<open>Records on a byte stream\<close>

definition next_record :: "nat \<Rightarrow> bytes \<Rightarrow> (bytes \<times> bytes) option" where
  "next_record cap w =
     (if length w < 5 then None
      else let total = 5 + unat (u16_from_be_bytes (w ! 3) (w ! 4))
           in if cap < total \<or> length w < total then None else Some (take total w, drop total w))"

lemma next_record_SomeD:
  assumes "next_record cap w = Some (r, w')"
  shows "w = r @ w'" "5 \<le> length r" "length r \<le> cap" "length w' < length w"
    "length r = 5 + unat (u16_from_be_bytes (w ! 3) (w ! 4))"
  using assms by (auto simp: next_record_def Let_def split: if_splits)

lemma put_at_twice:
  "i + length bs + length cs \<le> length buf \<Longrightarrow>
   put_at (i + length bs) cs (put_at i bs buf) = put_at i (bs @ cs) buf"
  by (simp add: put_at_def ac_simps)

context byte_stream
begin

lemma fill_record_ok:
  assumes "good (ps_transport ps)" "filled \<le> stop" "stop \<le> length (record_buf ps)"
    and "stop - filled \<le> length (incoming (ps_transport ps))"
  shows "\<exists>t. fill_record tr filled stop ps
      = (Inr () :: ('e, 't) session_error + unit, ps\<lparr>ps_transport := t,
           record_buf := put_at filled (take (stop - filled) (incoming (ps_transport ps))) (record_buf ps)\<rparr>)
    \<and> incoming t = drop (stop - filled) (incoming (ps_transport ps)) \<and> good t"
  using assms
proof (induction "stop - filled" arbitrary: filled ps rule: less_induct)
  case less
  show ?case
  proof (cases "filled < stop")
    case False
    then show ?thesis using less.prems
      by (intro exI [of _ "ps_transport ps"]) (simp add: fill_record.simps put_at_def)
  next
    case True
    then obtain bs t where r: "tr_read tr (stop - filled) (ps_transport ps) = (Inr bs, t)" "bs \<noteq> []"
        "length bs \<le> stop - filled" "incoming (ps_transport ps) = bs @ incoming t" "good t"
      using read_some [OF less.prems(1), of "stop - filled"] less.prems(4) by fastforce
    let ?ps = "ps\<lparr>ps_transport := t, record_buf := put_at filled bs (record_buf ps)\<rparr>"
    have len: "filled + length bs \<le> stop" "length (put_at filled bs (record_buf ps)) = length (record_buf ps)"
      using r(3) True less.prems(3) by simp_all
    moreover have "stop - (filled + length bs) < stop - filled" using r(2) True by (intro diff_less_mono2) auto
    moreover have "stop - (filled + length bs) \<le> length (incoming t)" using less.prems(4) r(4) by simp
    ultimately obtain t' where "fill_record tr (filled + length bs) stop ?ps
        = (Inr () :: ('e, 't) session_error + unit, ?ps\<lparr>ps_transport := t', record_buf := put_at (filled + length bs)
             (take (stop - (filled + length bs)) (incoming t)) (record_buf ?ps)\<rparr>)"
        "incoming t' = drop (stop - (filled + length bs)) (incoming t)" "good t'"
      using less.hyps [of "filled + length bs" ?ps] r(5) less.prems(3) by auto
    moreover have "(fill_record tr filled stop ps :: (('e, 't) session_error + unit) \<times> _)
        = fill_record tr (filled + length bs) stop ?ps"
      using True r by (simp add: fill_record.simps [of _ filled])
    moreover have "put_at (filled + length bs) (take (stop - (filled + length bs)) (incoming t))
        (put_at filled bs (record_buf ps)) = put_at filled (take (stop - filled) (bs @ incoming t)) (record_buf ps)"
      using put_at_twice [of filled bs "take (stop - (filled + length bs)) (incoming t)" "record_buf ps"]
        r(3) less.prems(3) len(1) by simp
    ultimately show ?thesis using r(3,4) by (intro exI [of _ t']) simp
  qed
qed

lemma fill_record_eof:
  assumes "good (ps_transport ps)" "stop \<le> length (record_buf ps)"
    and "length (incoming (ps_transport ps)) < stop - filled"
  shows "\<exists>t buf. fill_record tr filled stop ps = (Inl SEEof :: ('e, 't) session_error + unit, ps\<lparr>ps_transport := t, record_buf := buf\<rparr>)
    \<and> length buf = length (record_buf ps) \<and> incoming t = [] \<and> good t"
  using assms
proof (induction "stop - filled" arbitrary: filled ps rule: less_induct)
  case less
  then have True: "filled < stop" by simp
  show ?case
  proof (cases "incoming (ps_transport ps) = []")
    case Nil: True
    then obtain t where "tr_read tr (stop - filled) (ps_transport ps) = (Inr [], t)" "incoming t = []" "good t"
      using read_end [OF less.prems(1) Nil, of "stop - filled"] True by auto
    then show ?thesis using True
      by (intro exI [of _ t] exI [of _ "record_buf ps"]) (simp add: fill_record.simps)
  next
    case False
    then obtain bs t where r: "tr_read tr (stop - filled) (ps_transport ps) = (Inr bs, t)" "bs \<noteq> []"
        "length bs \<le> stop - filled" "incoming (ps_transport ps) = bs @ incoming t" "good t"
      using read_some [OF less.prems(1), of "stop - filled"] True by fastforce
    let ?ps = "ps\<lparr>ps_transport := t, record_buf := put_at filled bs (record_buf ps)\<rparr>"
    have "length (put_at filled bs (record_buf ps)) = length (record_buf ps)"
      using r(3) True less.prems(2) by simp
    moreover have "stop - (filled + length bs) < stop - filled" using r(2) True by (intro diff_less_mono2) auto
    moreover have "length (incoming t) < stop - (filled + length bs)" using less.prems(3) r(4) by simp
    ultimately obtain t' buf where "fill_record tr (filled + length bs) stop ?ps
        = (Inl SEEof :: ('e, 't) session_error + unit, ?ps\<lparr>ps_transport := t', record_buf := buf\<rparr>)" "length buf = length (record_buf ps)"
        "incoming t' = []" "good t'"
      using less.hyps [of "filled + length bs" ?ps] r(5) less.prems(2) by auto
    moreover have "(fill_record tr filled stop ps :: (('e, 't) session_error + unit) \<times> _)
        = fill_record tr (filled + length bs) stop ?ps"
      using True r by (simp add: fill_record.simps [of _ filled])
    ultimately show ?thesis by (intro exI [of _ t'] exI [of _ buf]) simp
  qed
qed

lemma fetch_record_ok:
  assumes "good (ps_transport ps)" "next_record (length (record_buf ps)) (incoming (ps_transport ps)) = Some (r, w)"
  shows "\<exists>t buf. fetch_record tr ps = (Inr () :: ('e, 't) session_error + unit, ps\<lparr>ps_transport := t, record_buf := buf, record_len := length r\<rparr>)
    \<and> take (length r) buf = r \<and> length buf = length (record_buf ps) \<and> incoming t = w \<and> good t"
proof -
  let ?w = "incoming (ps_transport ps)"
  note r = next_record_SomeD [OF assms(2)]
  have w: "?w = take 5 r @ drop 5 r @ w" using r(1) by simp
  have l5: "5 \<le> length ?w" "5 \<le> length (record_buf ps)" using r by simp_all
  let ?b1 = "put_at 0 (take 5 ?w) (record_buf ps)"
  obtain t1 where t1: "fill_record tr 0 5 ps = (Inr () :: ('e, 't) session_error + unit, ps\<lparr>ps_transport := t1, record_buf := ?b1\<rparr>)"
      "incoming t1 = drop 5 ?w" "good t1"
    using fill_record_ok [OF assms(1), of 0 5] l5 by auto
  have b1: "?b1 ! 3 = ?w ! 3" "?b1 ! 4 = ?w ! 4" "length ?b1 = length (record_buf ps)" "take 5 ?b1 = take 5 r"
    using l5 r(2) w by (simp_all add: put_at_def nth_append)
  define ps1 where "ps1 = ps\<lparr>ps_transport := t1, record_buf := ?b1\<rparr>"
  define k where "k = unat (u16_from_be_bytes (?w ! 3) (?w ! 4))"
  have k: "length r = 5 + k" using r(5) by (simp add: k_def)
  let ?b2 = "put_at 5 (take k (drop 5 ?w)) ?b1"
  obtain t2 where t2: "fill_record tr 5 (5 + k) ps1 = (Inr () :: ('e, 't) session_error + unit, ps1\<lparr>ps_transport := t2, record_buf := ?b2\<rparr>)"
      "incoming t2 = drop k (drop 5 ?w)" "good t2"
    using fill_record_ok [of ps1 5 "5 + k"] t1 k r(1,3) b1(3) by (auto simp: ps1_def)
  have body: "take k (drop 5 ?w) = drop 5 r" "drop k (drop 5 ?w) = w"
    using k r(1) by (simp_all add: add.commute)
  have "take (length r) ?b2 = r"
    using take_put_at [of 5 ?b1 "drop 5 r"] b1(3,4) l5 k body(1) by simp
  moreover have "length ?b2 = length (record_buf ps)" using b1(3) k r(3) body(1) by simp
  moreover have "fetch_record tr ps
      = (Inr () :: ('e, 't) session_error + unit, ps\<lparr>ps_transport := t2, record_buf := ?b2, record_len := length r\<rparr>)"
    using t1(1) t2(1) l5 k r(3) b1
    by (simp add: fetch_record_def read_exact_into_def RECORD_HEADER_LEN_def ps1_def k_def Let_def)
  ultimately show ?thesis using t2 body by (intro exI [of _ t2] exI [of _ ?b2]) simp
qed

lemma fetch_record_none:
  assumes "good (ps_transport ps)" "next_record (length (record_buf ps)) (incoming (ps_transport ps)) = None"
  shows "\<exists>e t buf. fetch_record tr ps = (Inl e :: ('e, 't) session_error + unit, ps\<lparr>ps_transport := t, record_buf := buf\<rparr>)
    \<and> length buf = length (record_buf ps) \<and> good t
    \<and> (incoming (ps_transport ps) = [] \<longrightarrow> 5 \<le> length (record_buf ps) \<longrightarrow> e = SEEof \<and> incoming t = [])"
proof -
  let ?w = "incoming (ps_transport ps)"
  consider "length (record_buf ps) < 5" | "5 \<le> length (record_buf ps)" "length ?w < 5"
    | "5 \<le> length (record_buf ps)" "5 \<le> length ?w" by linarith
  then show ?thesis
  proof cases
    case 1
    then show ?thesis using assms(1)
      by (intro exI [of _ "SERecordTooLarge 5 (length (record_buf ps))"] exI [of _ "ps_transport ps"]
          exI [of _ "record_buf ps"]) (simp add: fetch_record_def read_exact_into_def RECORD_HEADER_LEN_def)
  next
    case 2
    then obtain t buf where "fill_record tr 0 5 ps = (Inl SEEof :: ('e, 't) session_error + unit, ps\<lparr>ps_transport := t, record_buf := buf\<rparr>)"
        "length buf = length (record_buf ps)" "incoming t = []" "good t"
      using fill_record_eof [OF assms(1), of 5 0] by auto
    then show ?thesis using 2
      by (intro exI [of _ SEEof] exI [of _ t] exI [of _ buf])
        (simp add: fetch_record_def read_exact_into_def RECORD_HEADER_LEN_def)
  next
    case 3
    let ?b1 = "put_at 0 (take 5 ?w) (record_buf ps)"
    obtain t1 where t1: "fill_record tr 0 5 ps = (Inr () :: ('e, 't) session_error + unit, ps\<lparr>ps_transport := t1, record_buf := ?b1\<rparr>)"
        "incoming t1 = drop 5 ?w" "good t1"
      using fill_record_ok [OF assms(1), of 0 5] 3 by auto
    have b1: "?b1 ! 3 = ?w ! 3" "?b1 ! 4 = ?w ! 4" "length ?b1 = length (record_buf ps)"
      using 3 by (simp_all add: put_at_def nth_append)
    define k where "k = unat (u16_from_be_bytes (?w ! 3) (?w ! 4))"
    define ps1 where "ps1 = ps\<lparr>ps_transport := t1, record_buf := ?b1\<rparr>"
    show ?thesis
    proof (cases "length (record_buf ps) < 5 + k")
      case True
      then show ?thesis using t1 3 b1
        by (intro exI [of _ "SERecordTooLarge (5 + k) (length (record_buf ps))"] exI [of _ t1] exI [of _ ?b1])
          (auto simp: fetch_record_def read_exact_into_def RECORD_HEADER_LEN_def Let_def k_def)
    next
      case False
      then have "length ?w < 5 + k" using assms(2) 3 by (auto simp: next_record_def k_def Let_def split: if_splits)
      then have "length ?w - 5 < k" using 3 by linarith
      then obtain t buf where "fill_record tr 5 (5 + k) ps1 = (Inl SEEof :: ('e, 't) session_error + unit, ps1\<lparr>ps_transport := t, record_buf := buf\<rparr>)"
          "length buf = length ?b1" "incoming t = []" "good t"
        using fill_record_eof [of ps1 "5 + k" 5] t1 False b1(3) 3 by (auto simp: ps1_def)
      then show ?thesis using t1 False b1 3
        by (intro exI [of _ SEEof] exI [of _ t] exI [of _ buf])
          (auto simp: fetch_record_def read_exact_into_def RECORD_HEADER_LEN_def Let_def k_def ps1_def)
    qed
  qed
qed

lemma skip_ccs_returns:
  assumes "good (ps_transport ps)"
  shows "\<exists>x ps'. skip_ccs tr ps = Some (x :: ('e, 't) session_error + u8, ps') \<and> good (ps_transport ps')"
  using assms
proof (induction "length (incoming (ps_transport ps))" arbitrary: ps rule: less_induct)
  case less
  show ?case
  proof (cases "next_record (length (record_buf ps)) (incoming (ps_transport ps))")
    case None
    obtain e t buf where "fetch_record tr ps = (Inl e :: ('e, 't) session_error + unit, ps\<lparr>ps_transport := t, record_buf := buf\<rparr>)"
        "good t"
      using fetch_record_none [OF less.prems None] by blast
    then show ?thesis by (simp add: skip_ccs.simps)
  next
    case (Some rw)
    obtain r w where rw: "rw = (r, w)" by fastforce
    then obtain t buf where f:
        "fetch_record tr ps = (Inr () :: ('e, 't) session_error + unit, ps\<lparr>ps_transport := t, record_buf := buf, record_len := length r\<rparr>)"
        "incoming t = w" "good t"
      using fetch_record_ok [OF less.prems] Some by blast
    have "length w < length (incoming (ps_transport ps))" using next_record_SomeD(4) Some rw by blast
    then show ?thesis
      using less.hyps [of "ps\<lparr>ps_transport := t, record_buf := buf, record_len := length r\<rparr>"] f
      by (auto simp: skip_ccs.simps [of _ ps])
  qed
qed

end

section \<open>The session is a byte stream again\<close>

text \<open>
  What the engine makes of the bytes on the wire: change-cipher-spec records are skipped, application data is
  decrypted in order, an alert or the end of the stream ends it. \<open>None\<close> is a wire that is not well-formed, and also one
  with an empty application-data record, which \<open>read\<close> cannot tell from the end of the stream.
\<close>

function decrypted :: "('i, 'd, 't) tls_engine \<Rightarrow> nat \<Rightarrow> 'i \<Rightarrow> bytes \<Rightarrow> bytes option" where
  "decrypted eng BUF i w =
     (if w = [] then Some []
      else (case next_record BUF w of
              None \<Rightarrow> None
            | Some (r, w') \<Rightarrow>
                if r ! 0 = TLS_CT_CHANGE_CIPHER_SPEC then decrypted eng BUF i w'
                else if r ! 0 = TLS_CT_APPLICATION_DATA
                then (case decrypt_app_data_or_alert eng r BUF i of
                        (Inl _, _) \<Rightarrow> None
                      | (Inr Alert, _) \<Rightarrow> Some []
                      | (Inr (AppData p), i') \<Rightarrow>
                          if p = [] then None else map_option ((@) p) (decrypted eng BUF i' w'))
                else if r ! 0 = TLS_CT_ALERT then Some [] else None))"
  by pat_completeness auto

termination
  by (relation "measure (\<lambda>(eng, BUF, i, w). length w)") (auto dest: next_record_SomeD)

declare decrypted.simps [simp del]

lemma decrypted_Nil [simp]: "decrypted eng BUF i [] = Some []"
  by (simp add: decrypted.simps)

text \<open>The engine stays within the plaintext buffer.\<close>

definition engine_fits :: "('i, 'd, 't) tls_engine \<Rightarrow> bool" where
  "engine_fits eng \<longleftrightarrow>
     (\<forall>r n i p i'. decrypt_app_data_or_alert eng r n i = (Inr (AppData p), i') \<longrightarrow> length p \<le> n)"

definition psk_incoming ::
  "('i, 'd, 't) tls_engine \<Rightarrow> ('s \<Rightarrow> bytes) \<Rightarrow> ('s, 'i, 'd) psk_session \<Rightarrow> bytes" where
  "psk_incoming eng incoming ps =
     (if ps_closed ps then []
      else slice (plain_offset ps) (plain_len ps) (plain_buf ps)
        @ the (decrypted eng (length (record_buf ps)) (ps_inner ps) (incoming (ps_transport ps))))"

definition psk_ready :: "('s \<Rightarrow> bool) \<Rightarrow> ('s, 'i, 'd) psk_session \<Rightarrow> bool" where
  "psk_ready good ps \<longleftrightarrow>
     handshake_done ps \<and> good (ps_transport ps) \<and> 5 \<le> length (record_buf ps)
     \<and> length (plain_buf ps) = length (record_buf ps) \<and> plain_offset ps \<le> plain_len ps
     \<and> plain_len ps \<le> length (plain_buf ps)"

definition psk_good ::
  "('i, 'd, 't) tls_engine \<Rightarrow> ('s \<Rightarrow> bytes) \<Rightarrow> ('s \<Rightarrow> bool) \<Rightarrow> ('s, 'i, 'd) psk_session \<Rightarrow> bool" where
  "psk_good eng incoming good ps \<longleftrightarrow>
     psk_ready good ps
     \<and> (ps_closed ps \<or> decrypted eng (length (record_buf ps)) (ps_inner ps) (incoming (ps_transport ps)) \<noteq> None)"

lemma refill_ccs:
  assumes "fetch_record tr ps = (Inr () :: ('e, 't) session_error + unit, ps')"
    and "record_type ps' = TLS_CT_CHANGE_CIPHER_SPEC"
  shows "refill_plaintext eng tr ps = refill_plaintext (eng :: ('i, 'd, 't) tls_engine) tr ps'"
  using assms by (simp add: refill_plaintext_def skip_ccs.simps [of _ ps])

context byte_stream
begin

text \<open>How a refill ends: with the end of the stream, or with a non-empty piece of plaintext.\<close>

definition refilled ::
  "('i, 'd, 't) tls_engine \<Rightarrow> bytes \<Rightarrow> ((('e, 't) session_error + unit) \<times> ('s, 'i, 'd) psk_session) option \<Rightarrow> bool" where
  "refilled eng ds res \<longleftrightarrow>
     (\<exists>e ps. res = Some (Inl e, ps) \<and> (e = SEClosed \<or> e = SEEof) \<and> ds = []
        \<and> psk_good eng incoming good ps \<and> psk_incoming eng incoming ps = [])
     \<or> (\<exists>ps. res = Some (Inr (), ps) \<and> plain_offset ps < plain_len ps \<and> \<not> ps_closed ps
        \<and> psk_good eng incoming good ps \<and> psk_incoming eng incoming ps = ds)"

lemma refill_app_data:
  assumes f: "fetch_record tr ps = (Inr () :: ('e, 't) session_error + unit, ps')"
    and ps': "ps' = ps\<lparr>ps_transport := t, record_buf := buf, record_len := length r\<rparr>" "take (length r) buf = r"
      "length buf = length (record_buf ps)" "incoming t = w'" "good t" "5 \<le> length r"
    and ct: "r ! 0 = TLS_CT_APPLICATION_DATA"
    and fits: "engine_fits (eng :: ('i, 'd, 't) tls_engine)" "psk_good eng incoming good ps" "\<not> ps_closed ps"
    and p: "decrypt_app_data_or_alert eng r (length (record_buf ps)) (ps_inner ps) = (Inr out, i')"
    and ds: "case out of Alert \<Rightarrow> ds = []
      | AppData p \<Rightarrow> p \<noteq> [] \<and> (\<exists>ds'. decrypted eng (length (record_buf ps)) i' w' = Some ds' \<and> ds = p @ ds')"
  shows "refilled eng ds (refill_plaintext eng tr ps)"
proof -
  have "buf ! 0 = r ! 0" using nth_take [of 0 "length r" buf] ps'(2,6) by fastforce
  then have "record_type ps' = TLS_CT_APPLICATION_DATA" using ct by (simp add: ps'(1) record_type_def)
  then have s: "skip_ccs tr ps = Some (Inr TLS_CT_APPLICATION_DATA :: ('e, 't) session_error + u8, ps')"
    using f by (simp add: skip_ccs.simps TLS_CT_APPLICATION_DATA_def TLS_CT_CHANGE_CIPHER_SPEC_def)
  have len: "length (plain_buf ps) = length (record_buf ps)" using fits(2) by (simp add: psk_good_def psk_ready_def)
  show ?thesis
  proof (cases out)
    case Alert
    then show ?thesis
      using s p ds fits(2) ps' by (auto simp: refill_plaintext_def refilled_def len psk_good_def psk_ready_def psk_incoming_def)
  next
    case (AppData q)
    have q: "length q \<le> length (record_buf ps)" using fits(1) p AppData unfolding engine_fits_def by metis
    have "take (length q) (put_at 0 q (plain_buf ps)) = q" by simp
    then have "slice 0 (length q) (put_at 0 q (plain_buf ps)) = q" by (simp add: slice_def)
    then show ?thesis
      using s p ds fits(2,3) ps' AppData q
      by (auto simp: refill_plaintext_def refilled_def len psk_good_def psk_ready_def psk_incoming_def)
  qed
qed

lemma refill_stream:
  assumes "psk_good (eng :: ('i, 'd, 't) tls_engine) incoming good ps" "engine_fits eng" "\<not> ps_closed ps"
    and "plain_len ps \<le> plain_offset ps"
    and "decrypted eng (length (record_buf ps)) (ps_inner ps) (incoming (ps_transport ps)) = Some ds"
  shows "refilled eng ds (refill_plaintext eng tr ps)"
  using assms
proof (induction "length (incoming (ps_transport ps))" arbitrary: ps rule: less_induct)
  case less
  let ?w = "incoming (ps_transport ps)" and ?n = "length (record_buf ps)"
  have g: "good (ps_transport ps)" "5 \<le> ?n" "plain_len ps = plain_offset ps" using less.prems(1,4) by (simp_all add: psk_good_def psk_ready_def)
  show ?case
  proof (cases "?w = []")
    case True
    then have none: "next_record ?n ?w = None" by (simp add: next_record_def)
    obtain t buf where f: "fetch_record tr ps = (Inl SEEof :: ('e, 't) session_error + unit, ps\<lparr>ps_transport := t, record_buf := buf\<rparr>)"
        "length buf = ?n" "incoming t = []" "good t"
      using fetch_record_none [OF g(1) none] True g(2) by blast
    have "ds = []" using less.prems(5) True by simp
    then show ?thesis using f less.prems(1,3) g(3)
      by (auto simp: refilled_def refill_plaintext_def skip_ccs.simps psk_good_def psk_ready_def psk_incoming_def slice_def)
  next
    case False
    then obtain r w' where rw: "next_record ?n ?w = Some (r, w')"
      using less.prems(5) by (auto simp: decrypted.simps [of _ _ _ ?w] split: option.splits)
    then obtain t buf where f:
        "fetch_record tr ps = (Inr () :: ('e, 't) session_error + unit, ps\<lparr>ps_transport := t, record_buf := buf, record_len := length r\<rparr>)"
        "take (length r) buf = r" "length buf = ?n" "incoming t = w'" "good t"
      using fetch_record_ok [OF g(1) rw] by blast
    let ?ps = "ps\<lparr>ps_transport := t, record_buf := buf, record_len := length r\<rparr>"
    note r = next_record_SomeD [OF rw]
    have ct: "record_type ?ps = r ! 0" using nth_take [of 0 "length r" buf] f(2) r(2) by (fastforce simp: record_type_def)
    note dec = less.prems(5) [unfolded decrypted.simps [of _ _ _ ?w]]
    consider (ccs) "r ! 0 = TLS_CT_CHANGE_CIPHER_SPEC" | (app) "r ! 0 = TLS_CT_APPLICATION_DATA" | (alert) "r ! 0 = TLS_CT_ALERT"
      using dec False rw by (auto split: if_splits)
    then show ?thesis
    proof cases
      case ccs
      then have d: "decrypted eng ?n (ps_inner ps) w' = Some ds" using dec False rw by simp
      have "refilled eng ds (refill_plaintext eng tr ?ps)"
        using less.hyps [of ?ps] less.prems r(4) f d by (auto simp: psk_good_def psk_ready_def)
      then show ?thesis using refill_ccs [OF f(1)] ct ccs by simp
    next
      case app
      then obtain out i' where o: "decrypt_app_data_or_alert eng r ?n (ps_inner ps) = (Inr out, i')"
        using dec False rw by (auto simp: TLS_CT_APPLICATION_DATA_def TLS_CT_CHANGE_CIPHER_SPEC_def split: prod.splits sum.splits)
      have "case out of Alert \<Rightarrow> ds = []
          | AppData p \<Rightarrow> p \<noteq> [] \<and> (\<exists>ds'. decrypted eng ?n i' w' = Some ds' \<and> ds = p @ ds')"
        using dec False rw app o
        by (auto simp: TLS_CT_APPLICATION_DATA_def TLS_CT_CHANGE_CIPHER_SPEC_def split: app_data_or_alert.splits if_splits)
      then show ?thesis
        by (rule refill_app_data [OF f(1) refl f(2,3,4,5) r(2) app less.prems(2,1,3) o])
    next
      case alert
      then have "ds = []" using dec False rw
        by (simp add: TLS_CT_ALERT_def TLS_CT_APPLICATION_DATA_def TLS_CT_CHANGE_CIPHER_SPEC_def)
      then show ?thesis using f ct alert less.prems(1)
        by (auto simp: refilled_def refill_plaintext_def skip_ccs.simps psk_good_def psk_ready_def psk_incoming_def
            TLS_CT_ALERT_def TLS_CT_APPLICATION_DATA_def TLS_CT_CHANGE_CIPHER_SPEC_def)
    qed
  qed
qed

end

lemma take_plaintext_stream:
  assumes "psk_good eng incoming good ps" "\<not> ps_closed ps" "plain_offset ps < plain_len ps" "0 < n"
    and "take_plaintext n ps = (bs, ps')"
  shows "bs \<noteq> [] \<and> length bs \<le> n \<and> psk_incoming eng incoming ps = bs @ psk_incoming eng incoming ps'
    \<and> psk_good eng incoming good ps'"
proof -
  define k where "k = min n (plain_len ps - plain_offset ps)"
  have k: "0 < k" "k \<le> n" "plain_offset ps + k \<le> plain_len ps" "plain_len ps \<le> length (plain_buf ps)"
    using assms(1,3,4) by (auto simp: k_def psk_good_def psk_ready_def)
  have bs: "bs = slice (plain_offset ps) (plain_offset ps + k) (plain_buf ps)"
      "ps' = ps\<lparr>plain_offset := plain_offset ps + k\<rparr>"
    using assms(5) by (simp_all add: take_plaintext_def k_def Let_def)
  have "length bs = k" using k by (simp add: bs(1))
  moreover have "slice (plain_offset ps) (plain_len ps) (plain_buf ps)
      = bs @ slice (plain_offset ps + k) (plain_len ps) (plain_buf ps)"
    using slice_split [of "plain_offset ps" "plain_offset ps + k" "plain_len ps" "plain_buf ps"] k(3) by (simp add: bs(1))
  ultimately show ?thesis using assms(1,2) k by (auto simp: bs(2) psk_good_def psk_ready_def psk_incoming_def)
qed

context byte_stream
begin

lemma psk_read_stream:
  assumes "psk_good (eng :: ('i, 'd, 't) tls_engine) incoming good ps" "engine_fits eng" "0 < n"
  shows "\<exists>bs ps'. psk_read eng tr n ps = Some (Inr bs, ps') \<and> length bs \<le> n
    \<and> psk_incoming eng incoming ps = bs @ psk_incoming eng incoming ps' \<and> psk_good eng incoming good ps'
    \<and> (bs = [] \<longrightarrow> psk_incoming eng incoming ps = [])"
proof -
  have hd: "handshake_done ps" using assms(1) by (simp add: psk_good_def psk_ready_def)
  consider "ps_closed ps" | "\<not> ps_closed ps" "plain_offset ps < plain_len ps"
    | "\<not> ps_closed ps" "plain_len ps \<le> plain_offset ps" by linarith
  then show ?thesis
  proof cases
    case 1
    then show ?thesis using assms(1) hd by (simp add: psk_read_def psk_incoming_def)
  next
    case 2
    then show ?thesis
      using take_plaintext_stream [OF assms(1) 2 assms(3)] hd
      by (cases "take_plaintext n ps") (auto simp: psk_read_def)
  next
    case 3
    then obtain ds where ds: "decrypted eng (length (record_buf ps)) (ps_inner ps) (incoming (ps_transport ps)) = Some ds"
        "psk_incoming eng incoming ps = ds"
      using assms(1) by (auto simp: psk_good_def psk_ready_def psk_incoming_def slice_def)
    note ref = refill_stream [OF assms(1,2) 3 ds(1), unfolded refilled_def]
    then show ?thesis
    proof (elim disjE exE conjE, goal_cases)
      case (1 e ps')
      then show ?thesis using hd 3 ds(2) by (auto simp: psk_read_def)
    next
      case (2 e ps')
      then show ?thesis using hd 3 ds(2) by (auto simp: psk_read_def)
    next
      case (3 ps')
      then show ?thesis
        using take_plaintext_stream [of eng incoming good ps' n] assms(3) hd ds(2) \<open>\<not> ps_closed ps\<close> \<open>plain_len ps \<le> plain_offset ps\<close>
        by (cases "take_plaintext n ps'") (auto simp: psk_read_def)
    qed
  qed
qed

end

context byte_stream
begin

text \<open>An empty record of application data: the read returns no bytes.\<close>

lemma read_empty_record:
  assumes "psk_ready good ps" "\<not> ps_closed ps" "plain_offset ps = plain_len ps"
    and "next_record (length (record_buf ps)) (incoming (ps_transport ps)) = Some (r, w)" "r ! 0 = TLS_CT_APPLICATION_DATA"
    and "decrypt_app_data_or_alert (eng :: ('i, 'd, 't) tls_engine) r (length (record_buf ps)) (ps_inner ps) = (Inr (AppData []), i)"
  shows "\<exists>ps'. psk_read eng tr n ps = Some (Inr [], ps') \<and> \<not> ps_closed ps' \<and> incoming (ps_transport ps') = w"
proof -
  have g: "good (ps_transport ps)" "handshake_done ps" "length (plain_buf ps) = length (record_buf ps)"
    using assms(1) by (simp_all add: psk_ready_def)
  obtain t buf where f:
      "fetch_record tr ps = (Inr () :: ('e, 't) session_error + unit, ps\<lparr>ps_transport := t, record_buf := buf, record_len := length r\<rparr>)"
      "take (length r) buf = r" "incoming t = w"
    using fetch_record_ok [OF g(1) assms(4)] by blast
  have "buf ! 0 = r ! 0" using nth_take [of 0 "length r" buf] f(2) next_record_SomeD(2) [OF assms(4)] by fastforce
  then have "skip_ccs tr ps = Some (Inr TLS_CT_APPLICATION_DATA :: ('e, 't) session_error + u8,
      ps\<lparr>ps_transport := t, record_buf := buf, record_len := length r\<rparr>)"
    using f(1) assms(5) by (simp add: skip_ccs.simps record_type_def TLS_CT_APPLICATION_DATA_def TLS_CT_CHANGE_CIPHER_SPEC_def)
  then show ?thesis
    using assms(2,3,6) g f by (simp add: psk_read_def refill_plaintext_def take_plaintext_def slice_def)
qed

end

lemma psk_byte_stream:
  assumes "byte_stream tr incoming good" "engine_fits (eng :: ('i, 'd, 't) tls_engine)"
  shows "byte_stream (tls_transport (psk_session_ops eng tr)) (psk_incoming eng incoming) (psk_good eng incoming good)"
proof
  fix ps :: "('a, 'i, 'd) psk_session" and n :: nat
  assume g: "psk_good eng incoming good ps" "0 < n"
  obtain bs ps' where r: "psk_read eng tr n ps = Some (Inr bs, ps')" "length bs \<le> n"
      "psk_incoming eng incoming ps = bs @ psk_incoming eng incoming ps'" "psk_good eng incoming good ps'"
      "bs = [] \<longrightarrow> psk_incoming eng incoming ps = []"
    using byte_stream.psk_read_stream [OF assms(1) g(1) assms(2) g(2)] by blast
  then have t: "tr_read (tls_transport (psk_session_ops eng tr)) n ps = (Inr bs, ps')"
    by (simp add: tls_transport_def tls_read_def psk_session_ops_def or_diverge_def)
  show "\<exists>bs s'. tr_read (tls_transport (psk_session_ops eng tr)) n ps = (Inr bs, s') \<and> bs \<noteq> [] \<and> length bs \<le> n
      \<and> psk_incoming eng incoming ps = bs @ psk_incoming eng incoming s' \<and> psk_good eng incoming good s'"
    if "psk_incoming eng incoming ps \<noteq> []"
    using that r t by (intro exI [of _ bs] exI [of _ ps']) simp
  show "\<exists>s'. tr_read (tls_transport (psk_session_ops eng tr)) n ps = (Inr [], s')
      \<and> psk_incoming eng incoming s' = [] \<and> psk_good eng incoming good s'"
    if "psk_incoming eng incoming ps = []"
    using that r t by (intro exI [of _ ps']) simp
qed

section \<open>What the peer receives\<close>

text \<open>
  The hypotheses on the engine and on the transport below: \<open>in_sync i recs\<close> says that a peer that has received the
  records \<open>recs\<close> expects what the engine in state \<open>i\<close> sends next, and \<open>opens recs\<close> is the plaintext it has then;
  \<open>sent\<close> is what was written to the transport, where a failed write may or may not have left its bytes.
\<close>

definition peer_opens :: "('i, 'd, 't) tls_engine \<Rightarrow> ('i \<Rightarrow> bytes list \<Rightarrow> bool) \<Rightarrow> (bytes list \<Rightarrow> bytes) \<Rightarrow> bool" where
  "peer_opens eng in_sync opens \<longleftrightarrow>
     (\<forall>i recs bs n r i'. in_sync i recs \<longrightarrow> encrypt_app_data eng bs n i = (Inr r, i') \<longrightarrow>
        in_sync i' (recs @ [r]) \<and> opens (recs @ [r]) = opens recs @ bs)"

definition wire_log :: "('s, 'e) transport \<Rightarrow> ('s \<Rightarrow> bytes list) \<Rightarrow> bool" where
  "wire_log tr sent \<longleftrightarrow>
     (\<forall>bs s s'. tr_write tr bs s = (Inr (), s') \<longrightarrow> sent s' = sent s @ [bs])
     \<and> (\<forall>bs s e s'. tr_write tr bs s = (Inl e, s') \<longrightarrow> sent s' = sent s \<or> sent s' = sent s @ [bs])"

lemma psk_write_cases:
  assumes "psk_write eng tr bs ps = (x, ps')"
  obtains (untouched) e where "x = Inl e" "ps' = ps"
  | (refused) e i where "x = Inl e" "ps' = ps\<lparr>ps_inner := i\<rparr>"
  | (sent) chunk r i y t where "chunk \<le> length bs" "0 < chunk" "chunk \<le> length (out_buf ps) - 22"
      "encrypt_app_data eng (take chunk bs) (length (out_buf ps)) (ps_inner ps) = (Inr r, i)"
      "tr_write tr r (ps_transport ps) = (y, t)" "handshake_done ps" "\<not> ps_closed ps"
      "x = (case y of Inl e \<Rightarrow> Inl (SETransport e) | Inr _ \<Rightarrow> Inr chunk)"
      "ps' = ps\<lparr>ps_inner := i, out_buf := put_at 0 r (out_buf ps), ps_transport := t\<rparr>"
proof -
  define chunk where "chunk = min (length bs) (length (out_buf ps) - 22)"
  have c: "min (length bs) (length (out_buf ps) - (RECORD_HEADER_LEN + 1 + 16)) = chunk"
    by (simp add: chunk_def RECORD_HEADER_LEN_def)
  have w: "psk_write eng tr bs ps = (if \<not> handshake_done ps then (Inl SEHandshakeIncomplete, ps)
      else if ps_closed ps then (Inl SEClosed, ps)
      else if chunk = 0 then (Inl (SETls (te_InsufficientSpace eng)), ps)
      else (case encrypt_app_data eng (take chunk bs) (length (out_buf ps)) (ps_inner ps) of
              (Inl e, i) \<Rightarrow> (Inl (SETls e), ps\<lparr>ps_inner := i\<rparr>)
            | (Inr r, i) \<Rightarrow>
                (case send_out tr (length r) (ps\<lparr>ps_inner := i, out_buf := put_at 0 r (out_buf ps)\<rparr>) of
                   (Inl e, ps') \<Rightarrow> (Inl e, ps') | (Inr _, ps') \<Rightarrow> (Inr chunk, ps'))))"
    unfolding psk_write_def Let_def c ..
  consider "\<not> handshake_done ps \<or> ps_closed ps \<or> chunk = 0" | "handshake_done ps" "\<not> ps_closed ps" "chunk \<noteq> 0" by blast
  then show ?thesis
  proof cases
    case 1
    then show ?thesis using assms untouched unfolding w by (auto split: if_splits)
  next
    case 2
    obtain y i where y: "encrypt_app_data eng (take chunk bs) (length (out_buf ps)) (ps_inner ps) = (y, i)" by fastforce
    show ?thesis
    proof (cases y)
      case (Inl e)
      then show ?thesis using assms 2 y refused unfolding w by auto
    next
      case (Inr r)
      obtain z t where z: "tr_write tr r (ps_transport ps) = (z, t)" by fastforce
      show ?thesis
      proof (rule sent [of chunk r i z t])
        show "x = (case z of Inl e \<Rightarrow> Inl (SETransport e) | Inr _ \<Rightarrow> Inr chunk)"
          "ps' = ps\<lparr>ps_inner := i, out_buf := put_at 0 r (out_buf ps), ps_transport := t\<rparr>"
          using assms 2 y z Inr unfolding w by (auto simp: send_out_def split: sum.splits)
      qed (use 2 y z Inr in \<open>auto simp: chunk_def\<close>)
    qed
  qed
qed

lemma ts_write_psk:
  "ts_write (psk_session_ops eng tr) bs q = (Inr m, q') \<longleftrightarrow> psk_write eng tr bs q = (Inr m, q')"
  "ts_write (psk_session_ops eng tr) bs q = (Inl e, q') \<longleftrightarrow> (\<exists>e'. e = Some e' \<and> psk_write eng tr bs q = (Inl e', q'))"
  by (cases "psk_write eng tr bs q"; cases "fst (psk_write eng tr bs q)"; auto simp: psk_session_ops_def)+

lemma psk_byte_sink:
  assumes "peer_opens eng in_sync opens" "wire_log tr sent"
  shows "byte_sink (ts_write (psk_session_ops eng tr)) (\<lambda>ps. opens (sent (ps_transport ps)))
    (\<lambda>ps. in_sync (ps_inner ps) (sent (ps_transport ps)))"
proof
  fix ps bs n ps'
  assume g: "in_sync (ps_inner ps) (sent (ps_transport ps))"
    and "ts_write (psk_session_ops eng tr) bs ps = (Inr n, ps')"
  then have w: "psk_write eng tr bs ps = (Inr n, ps')"
    by (cases "psk_write eng tr bs ps") (auto simp: psk_session_ops_def)
  then show "n \<le> length bs \<and> opens (sent (ps_transport ps')) = opens (sent (ps_transport ps)) @ take n bs
      \<and> in_sync (ps_inner ps') (sent (ps_transport ps'))"
  proof (cases rule: psk_write_cases)
    case (sent chunk r i y t)
    then show ?thesis using assms g unfolding peer_opens_def wire_log_def by (cases y) fastforce+
  qed simp_all
next
  fix ps bs e ps'
  assume g: "in_sync (ps_inner ps) (sent (ps_transport ps))"
    and "ts_write (psk_session_ops eng tr) bs ps = (Inl e, ps')"
  then obtain e' where w: "psk_write eng tr bs ps = (Inl e', ps')"
    by (cases "psk_write eng tr bs ps"; cases "fst (psk_write eng tr bs ps)") (auto simp: psk_session_ops_def)
  then show "\<exists>n. opens (sent (ps_transport ps')) = opens (sent (ps_transport ps)) @ take n bs"
  proof (cases rule: psk_write_cases)
    case (sent chunk r i y t)
    then obtain f where y: "y = Inl f" by (cases y) auto
    have "opens (sent (ps_transport ps) @ [r]) = opens (sent (ps_transport ps)) @ take chunk bs"
      using assms(1) g sent(4) unfolding peer_opens_def by blast
    moreover have "sent t = sent (ps_transport ps) \<or> sent t = sent (ps_transport ps) @ [r]"
      using assms(2) sent(5) y unfolding wire_log_def by blast
    ultimately show ?thesis using sent(9) by (auto intro: exI [of _ chunk] exI [of _ 0])
  qed (auto intro: exI [of _ 0])
qed

text \<open>
  The records written since \<open>base\<close>: each fits a buffer of \<open>BUF\<close> bytes and carries at most \<open>BUF - 22\<close> bytes of
  plaintext, so that header, content type and tag have room beside it.
\<close>

definition records_fit :: "(bytes list \<Rightarrow> bytes) \<Rightarrow> nat \<Rightarrow> bytes list \<Rightarrow> bytes list \<Rightarrow> bool" where
  "records_fit opens BUF base rs \<longleftrightarrow>
     (\<forall>k < length rs. length (rs ! k) \<le> BUF
        \<and> length (opens (base @ take (Suc k) rs)) \<le> length (opens (base @ take k rs)) + (BUF - 22))"

lemma records_fit_snoc:
  assumes "records_fit opens BUF base rs" "length r \<le> BUF"
    and "length (opens (base @ rs @ [r])) \<le> length (opens (base @ rs)) + (BUF - 22)"
  shows "records_fit opens BUF base (rs @ [r])"
  using assms by (auto simp: records_fit_def nth_append less_Suc_eq)

definition encrypt_fits :: "('i, 'd, 't) tls_engine \<Rightarrow> bool" where
  "encrypt_fits eng \<longleftrightarrow> (\<forall>bs n i r i'. encrypt_app_data eng bs n i = (Inr r, i') \<longrightarrow> length r \<le> n)"

text \<open>The engine encrypts whatever leaves it room for header, content type and tag.\<close>

definition encrypt_room :: "('i, 'd, 't) tls_engine \<Rightarrow> nat \<Rightarrow> bool" where
  "encrypt_room eng BUF \<longleftrightarrow> (\<forall>bs i. length bs + 22 \<le> BUF \<longrightarrow> \<not> isl (fst (encrypt_app_data eng bs BUF i)))"

definition writing_ok ::
  "('i \<Rightarrow> bytes list \<Rightarrow> bool) \<Rightarrow> (bytes list \<Rightarrow> bytes) \<Rightarrow> ('s \<Rightarrow> bytes list) \<Rightarrow> ('s, 'i, 'd) psk_session
     \<Rightarrow> ('s, 'i, 'd) psk_session \<Rightarrow> bool" where
  "writing_ok in_sync opens sent ps0 ps \<longleftrightarrow>
     in_sync (ps_inner ps) (sent (ps_transport ps)) \<and> length (out_buf ps) = length (out_buf ps0)
     \<and> handshake_done ps = handshake_done ps0 \<and> ps_closed ps = ps_closed ps0
     \<and> (\<exists>rs. sent (ps_transport ps) = sent (ps_transport ps0) @ rs
          \<and> records_fit opens (length (out_buf ps0)) (sent (ps_transport ps0)) rs)"

lemma psk_write_ok:
  assumes "peer_opens eng in_sync opens" "encrypt_fits eng" "wire_log tr sent" "writing_ok in_sync opens sent ps0 ps"
    and "psk_write eng tr bs ps = (x, ps')"
  shows "(\<not> isl x \<longrightarrow> writing_ok in_sync opens sent ps0 ps') \<and> x \<noteq> Inr 0
    \<and> (\<exists>rs. sent (ps_transport ps') = sent (ps_transport ps0) @ rs
         \<and> records_fit opens (length (out_buf ps0)) (sent (ps_transport ps0)) rs)"
  using assms(5)
proof (cases rule: psk_write_cases)
  case (sent chunk r i y t)
  obtain rs where rs: "sent (ps_transport ps) = sent (ps_transport ps0) @ rs"
      "records_fit opens (length (out_buf ps0)) (sent (ps_transport ps0)) rs"
      "length (out_buf ps) = length (out_buf ps0)" "in_sync (ps_inner ps) (sent (ps_transport ps))"
    using assms(4) unfolding writing_ok_def by blast
  have r: "in_sync i (sent (ps_transport ps) @ [r])" "opens (sent (ps_transport ps) @ [r]) = opens (sent (ps_transport ps)) @ take chunk bs"
    using assms(1) rs(4) sent(4) unfolding peer_opens_def by blast+
  have len: "length r \<le> length (out_buf ps)" using assms(2) sent(4) unfolding encrypt_fits_def by blast
  have fit: "records_fit opens (length (out_buf ps0)) (sent (ps_transport ps0)) (rs @ [r])"
    by (rule records_fit_snoc [OF rs(2)]) (use len rs(1,3) r(2) sent(1,3) in simp_all)
  show ?thesis
  proof (cases y)
    case (Inl e)
    then have "sent t = sent (ps_transport ps) \<or> sent t = sent (ps_transport ps) @ [r]"
      using assms(3) sent(5) unfolding wire_log_def by blast
    then show ?thesis using rs fit sent(8,9) Inl by auto
  next
    case (Inr u)
    then have "sent t = sent (ps_transport ps) @ [r]" using assms(3) sent(5) unfolding wire_log_def by simp
    then show ?thesis using rs fit sent(2,8,9) Inr r(1) len assms(4) by (auto simp: writing_ok_def)
  qed
qed (use assms(4) in \<open>auto simp: writing_ok_def\<close>)

lemma psk_write_error:
  assumes "handshake_done ps" "\<not> ps_closed ps" "22 < length (out_buf ps)" "encrypt_room eng (length (out_buf ps))" "bs \<noteq> []"
    and "psk_write eng tr bs ps = (Inl e, ps')"
  shows "\<exists>f. e = SETransport f"
proof -
  let ?chunk = "min (length bs) (length (out_buf ps) - 22)"
  have c: "length (take ?chunk bs) + 22 \<le> length (out_buf ps)" "(?chunk = 0) = False"
    using assms(3,5) by auto
  then have "\<not> isl (fst (encrypt_app_data eng (take ?chunk bs) (length (out_buf ps)) (ps_inner ps)))"
    using assms(4) unfolding encrypt_room_def by blast
  then show ?thesis
    using assms(1,2,6) by (auto simp: psk_write_def Let_def RECORD_HEADER_LEN_def c(2) send_out_def split: prod.splits sum.splits)
qed

lemma psk_write_all_fits:
  assumes "peer_opens eng in_sync opens" "encrypt_fits eng" "wire_log tr sent"
    and "in_sync (ps_inner ps) (sent (ps_transport ps))"
    and wa: "write_all (ts_write (psk_session_ops eng tr)) Tls TlsWriteZero buf 0 ps = (r, q)"
  shows "(\<exists>rs. sent (ps_transport q) = sent (ps_transport ps) @ rs
      \<and> records_fit opens (length (out_buf ps)) (sent (ps_transport ps)) rs)
    \<and> (handshake_done ps \<and> \<not> ps_closed ps \<and> 22 < length (out_buf ps) \<and> encrypt_room eng (length (out_buf ps)) \<longrightarrow>
        r = Inr () \<or> (\<exists>e. r = Inl (Tls (Some (SETransport e)))))"
proof -
  let ?I = "writing_ok in_sync opens sent ps" and ?w = "ts_write (psk_session_ops eng tr)"
  let ?fit = "\<lambda>q. \<exists>rs. sent (ps_transport q) = sent (ps_transport ps) @ rs
    \<and> records_fit opens (length (out_buf ps)) (sent (ps_transport ps)) rs"
  let ?open = "handshake_done ps \<and> \<not> ps_closed ps \<and> 22 < length (out_buf ps) \<and> encrypt_room eng (length (out_buf ps))"
  let ?J = "\<lambda>e q. ?fit q \<and> (?open \<longrightarrow> (\<exists>f. e = Some (SETransport f)))"
  have start: "?I ps" using assms(4) by (auto simp: writing_ok_def records_fit_def)
  have ok: "?I q'" if "?I q" "bs \<noteq> []" "?w bs q = (Inr m, q')" for q bs m q'
    using psk_write_ok [OF assms(1-3) that(1), of bs] that(3) by (auto simp: ts_write_psk)
  have err: "?J e q'" if I: "?I q" "bs \<noteq> []" "?w bs q = (Inl e, q')" for q bs e q'
  proof -
    obtain e' where e: "psk_write eng tr bs q = (Inl e', q')" "e = Some e'" using I(3) by (auto simp: ts_write_psk)
    show ?thesis
      using psk_write_ok [OF assms(1-3) I(1) e(1)] psk_write_error [OF _ _ _ _ I(2) e(1)] I(1) e(2)
      by (auto simp: writing_ok_def)
  qed
  have "case r of Inr _ \<Rightarrow> ?I q
      | Inl f \<Rightarrow> (\<exists>e. f = Tls e \<and> ?J e q) \<or> f = TlsWriteZero \<and> (\<exists>bs t. ?I t \<and> bs \<noteq> [] \<and> ?w bs t = (Inr 0, q))"
    by (rule write_all_invariant [where I = ?I and J = ?J, OF start ok err wa])
  moreover have "?w bs t \<noteq> (Inr 0, q)" if "?I t" for t bs
    using psk_write_ok [OF assms(1-3) that, of bs] by (auto simp: ts_write_psk)
  ultimately show ?thesis by (cases r) (auto simp: writing_ok_def)
qed

section \<open>The operations return\<close>

lemma client_hello_transport [simp]: "ps_transport (snd (client_hello eng ps)) = ps_transport ps"
  by (simp add: client_hello_def Let_def split: prod.split sum.split)

context byte_stream
begin

lemma fetch_record_good:
  assumes "good (ps_transport ps)"
  shows "good (ps_transport (snd (fetch_record tr ps :: (('e, 't) session_error + unit) \<times> _)))"
proof (cases "next_record (length (record_buf ps)) (incoming (ps_transport ps))")
  case None
  obtain e t buf where "fetch_record tr ps = (Inl e :: ('e, 't) session_error + unit, ps\<lparr>ps_transport := t, record_buf := buf\<rparr>)"
      "good t"
    using fetch_record_none [OF assms None] by blast
  then show ?thesis by simp
next
  case (Some rw)
  obtain r w where rw: "rw = (r, w)" by fastforce
  obtain t buf where
      "fetch_record tr ps = (Inr () :: ('e, 't) session_error + unit, ps\<lparr>ps_transport := t, record_buf := buf, record_len := length r\<rparr>)"
      "good t"
    using fetch_record_ok [OF assms Some [unfolded rw]] by blast
  then show ?thesis by simp
qed

lemma finish_returns:
  assumes "good (ps_transport ps)" "\<And>bs s. good s \<Longrightarrow> good (snd (tr_write tr bs s))"
  shows "\<exists>x ps'. finish_handshake (eng :: ('i, 'd, 't) tls_engine) tr n ps = Some (x, ps')"
proof -
  obtain x ps1 where s: "send_out tr n ps = (x :: ('e, 't) session_error + unit, ps1)" by fastforce
  then have "good (ps_transport ps1)"
    using assms(1) assms(2) [of "ps_transport ps" "take n (out_buf ps)"]
    by (auto simp: send_out_def split: prod.splits sum.splits)
  from skip_ccs_returns [OF this]
  obtain y ps2 where k: "skip_ccs tr ps1 = Some (y :: ('e, 't) session_error + u8, ps2)" by blast
  obtain z i where f: "process_client_finished eng (take (record_len ps2) (record_buf ps2)) (ps_inner ps2) = (z, i)"
    by fastforce
  show ?thesis using s k f by (cases x; cases y; cases z) (auto simp: finish_handshake_def)
qed

lemma retry_returns:
  assumes "good (ps_transport ps)" and w: "\<And>bs s. good s \<Longrightarrow> good (snd (tr_write tr bs s))"
  shows "\<exists>x ps'. hello_retry (eng :: ('i, 'd, 't) tls_engine) tr n ps = Some (x, ps')"
proof -
  obtain u ps1 where s: "send_out tr n ps = (u :: ('e, 't) session_error + unit, ps1)" by fastforce
  then have "good (ps_transport ps1)"
    using assms(1) w [of "ps_transport ps" "take n (out_buf ps)"]
    by (auto simp: send_out_def split: prod.splits sum.splits)
  from skip_ccs_returns [OF this]
  obtain v ps2 where k: "skip_ccs tr ps1 = Some (v :: ('e, 't) session_error + u8, ps2)" "good (ps_transport ps2)" by blast
  obtain y ps3 where h: "client_hello eng ps2 = (y :: ('e, 't) session_error + handshake_output, ps3)" by fastforce
  then have "good (ps_transport ps3)" using k(2) client_hello_transport [of eng ps2] by (metis snd_conv)
  then have "\<exists>x ps'. finish_handshake eng tr n ps3 = Some (x, ps')" for n using finish_returns [OF _ w] by blast
  then show ?thesis
    using s k(1) h by (cases u; cases v) (auto simp: hello_retry_def split: sum.split handshake_output.split)
qed

lemma accept_returns:
  assumes "good (ps_transport ps)" and w: "\<And>bs s. good s \<Longrightarrow> good (snd (tr_write tr bs s))"
  shows "\<exists>x ps'. psk_accept (eng :: ('i, 'd, 't) tls_engine) tr ps = Some (x, ps')"
proof (cases "handshake_done ps")
  case False
  obtain x ps1 where f: "fetch_record tr ps = (x :: ('e, 't) session_error + unit, ps1)" by fastforce
  then have g1: "good (ps_transport ps1)" using fetch_record_good [OF assms(1)] by (metis snd_conv)
  obtain y ps2 where h: "client_hello eng ps1 = (y :: ('e, 't) session_error + handshake_output, ps2)" by fastforce
  then have g2: "good (ps_transport ps2)" using g1 client_hello_transport [of eng ps1] by (metis snd_conv)
  show ?thesis
    using False f h finish_returns [OF g2 w] retry_returns [OF g2 w]
    by (cases x; cases y) (auto simp: psk_accept_def do_accept_def split: handshake_output.split)
qed (simp add: psk_accept_def)

lemma read_returns:
  assumes "good (ps_transport ps)"
  shows "\<exists>x ps'. psk_read (eng :: ('i, 'd, 't) tls_engine) tr n ps = Some (x, ps')"
proof -
  obtain y ps1 where k: "skip_ccs tr ps = Some (y :: ('e, 't) session_error + u8, ps1)"
    using skip_ccs_returns [OF assms] by blast
  have "\<exists>x ps'. refill_plaintext eng tr ps = Some (x, ps')"
    using k by (cases y) (auto simp: refill_plaintext_def split: prod.split sum.split app_data_or_alert.split)
  then obtain x ps' where "refill_plaintext eng tr ps = Some (x, ps')" by blast
  then show ?thesis
    by (cases x; cases "take_plaintext n ps"; cases "take_plaintext n ps'")
      (auto simp: psk_read_def split: session_error.split)
qed

end

section \<open>Completing the handshake\<close>

lemma finish_done:
  "finish_handshake eng tr n ps = Some (Inr (), ps') \<Longrightarrow>
   handshake_done ps' \<and> (\<exists>r i. process_client_finished eng r i = (Inr (), ps_inner ps'))"
  by (fastforce simp: finish_handshake_def split: prod.splits sum.splits option.splits if_splits)

lemma do_accept_done:
  assumes "do_accept eng tr ps = Some (Inr (), ps')"
  shows "handshake_done ps' \<and> (\<exists>r i. process_client_finished eng r i = (Inr (), ps_inner ps'))"
  using assms finish_done
  by (fastforce simp: do_accept_def hello_retry_def split: prod.splits sum.splits option.splits if_splits handshake_output.splits)

text \<open>
  A session as its user sees it: made by \<open>new\<close>, then any operations in any order. The flag says whether an \<open>accept\<close> has
  succeeded.
\<close>

inductive psk_run ::
  "('i, 'd, 't) tls_engine \<Rightarrow> ('s, 'e) transport \<Rightarrow> bool \<Rightarrow> ('s, 'i, 'd) psk_session \<Rightarrow> bool" for eng tr where
  run_new: "psk_run eng tr False (psk_new eng BUF t cfg random)"
| run_accept: "psk_run eng tr a ps \<Longrightarrow> psk_accept eng tr ps = Some (x, ps') \<Longrightarrow> psk_run eng tr (a \<or> \<not> isl x) ps'"
| run_read: "psk_run eng tr a ps \<Longrightarrow> psk_read eng tr n ps = Some (x, ps') \<Longrightarrow> psk_run eng tr a ps'"
| run_write: "psk_run eng tr a ps \<Longrightarrow> psk_write eng tr bs ps = (x, ps') \<Longrightarrow> psk_run eng tr a ps'"
| run_close: "psk_run eng tr a ps \<Longrightarrow> psk_run eng tr a (psk_close eng tr ps)"

lemma fill_record_done: "handshake_done (snd (fill_record tr filled stop ps)) = handshake_done ps"
proof (induction tr filled stop ps rule: fill_record.induct)
  case (1 tr filled stop ps)
  then show ?case by (subst fill_record.simps) (auto split: prod.split sum.split)
qed

lemma read_exact_into_done: "read_exact_into tr start len ps = (x, ps') \<Longrightarrow> handshake_done ps' = handshake_done ps"
  by (auto simp: read_exact_into_def Let_def split: if_splits dest!: arg_cong [of _ _ "\<lambda>r. handshake_done (snd r)"]
      simp: fill_record_done)

lemma fetch_record_done: "fetch_record tr ps = (x, ps') \<Longrightarrow> handshake_done ps' = handshake_done ps"
  by (auto simp: fetch_record_def Let_def split: prod.splits sum.splits if_splits dest!: read_exact_into_done)

lemma skip_ccs_done:
  assumes "skip_ccs tr ps = Some (x, ps')"
  shows "handshake_done ps' = handshake_done ps"
proof -
  have "handshake_done (snd (x, ps')) = handshake_done ps"
    by (rule skip_ccs.raw_induct [where P = "\<lambda>tr ps y. handshake_done (snd y) = handshake_done ps", OF _ assms])
      (auto split: prod.splits sum.splits if_splits dest!: fetch_record_done)
  then show ?thesis by simp
qed

lemma send_out_done: "send_out tr n ps = (x, ps') \<Longrightarrow> handshake_done ps' = handshake_done ps"
  by (auto simp: send_out_def split: prod.splits sum.splits)

lemma client_hello_done: "client_hello eng ps = (x, ps') \<Longrightarrow> handshake_done ps' = handshake_done ps"
  by (auto simp: client_hello_def Let_def split: prod.splits sum.splits)

lemma finish_failed:
  "finish_handshake eng tr n ps = Some (Inl e, ps') \<Longrightarrow> handshake_done ps' = handshake_done ps"
  by (auto simp: finish_handshake_def split: prod.splits sum.splits option.splits if_splits
      dest!: send_out_done skip_ccs_done)

lemma do_accept_failed:
  assumes "do_accept eng tr ps = Some (Inl e, ps')"
  shows "handshake_done ps' = handshake_done ps"
proof -
  have "handshake_done q' = handshake_done q" if "hello_retry eng tr n q = Some (Inl f, q')" for n q f q'
    using that by (auto simp: hello_retry_def split: prod.splits sum.splits option.splits if_splits handshake_output.splits
        dest!: send_out_done skip_ccs_done client_hello_done finish_failed)
  with assms show ?thesis
    by (auto simp: do_accept_def split: prod.splits sum.splits option.splits if_splits handshake_output.splits
        dest!: fetch_record_done client_hello_done finish_failed)
qed

lemma psk_read_done: "psk_read eng tr n ps = Some (x, ps') \<Longrightarrow> handshake_done ps' = handshake_done ps"
  by (auto simp: psk_read_def refill_plaintext_def take_plaintext_def Let_def
      split: if_splits option.splits prod.splits sum.splits session_error.splits app_data_or_alert.splits dest!: skip_ccs_done)

lemma psk_write_done: "psk_write eng tr bs ps = (x, ps') \<Longrightarrow> handshake_done ps' = handshake_done ps"
  by (erule psk_write_cases) simp_all

lemma psk_close_flags: "handshake_done (psk_close eng tr ps) = handshake_done ps" "ps_closed (psk_close eng tr ps)"
  by (auto simp: psk_close_def close_transport_def Let_def split: prod.splits sum.splits)

lemma psk_run_done: "psk_run eng tr a ps \<Longrightarrow> handshake_done ps = a"
proof (induction rule: psk_run.induct)
  case (run_accept a ps x ps')
  then show ?case
    using do_accept_failed [of eng tr ps _ ps'] do_accept_done [of eng tr ps ps']
    by (cases x) (auto simp: psk_accept_def split: if_splits)
qed (auto simp: psk_new_def psk_close_flags dest: psk_read_done psk_write_done)

section \<open>Properties\<close>

text \<open>
  C11: MQTT over TLS. Over any byte stream and with any engine that stays within its buffers, an open session whose handshake
  is complete delivers the decrypted plaintext as a byte stream, whatever the pieces and the dummy records in between, provided
  that what is on the wire is well-formed to its end and has no empty record of application data: reading a packet then
  consumes exactly the next frame of the plaintext. At an empty record, which TLS 1.3 allows, the packet
  reader reports the end of the stream, although the records behind it are still to come.
\<close>

theorem psk_read_packet:
  assumes "byte_stream tr incoming good" "engine_fits eng" "psk_ready good ps" "\<not> ps_closed ps"
  shows "(decrypted eng (length (record_buf ps)) (ps_inner ps) (incoming (ps_transport ps)) = Some ds
      \<and> slice (plain_offset ps) (plain_len ps) (plain_buf ps) @ ds = (b # vs @ body) @ rest
      \<and> is_varint vs \<and> varint_value vs = length body \<and> 1 + length vs + length body \<le> m \<longrightarrow>
        (\<exists>ps'. read_packet mq (tls_transport (psk_session_ops eng tr)) m ps
            = (Some (case decode_slice mq (b # vs @ body) of
                Inl e \<Rightarrow> Inl (ReadProtocol e) | Inr (Some p) \<Rightarrow> Inr p
              | Inr None \<Rightarrow> Inl (ReadProtocol InvalidLength)), ps')
          \<and> psk_incoming eng incoming ps' = rest \<and> psk_good eng incoming good ps'))
    \<and> (plain_offset ps = plain_len ps \<and> next_record (length (record_buf ps)) (incoming (ps_transport ps)) = Some (r, w)
      \<and> r ! 0 = TLS_CT_APPLICATION_DATA
      \<and> decrypt_app_data_or_alert eng r (length (record_buf ps)) (ps_inner ps) = (Inr (AppData []), i) \<and> 2 \<le> m \<longrightarrow>
        (\<exists>ps'. read_packet mq (tls_transport (psk_session_ops eng tr)) m ps = (Some (Inl Eof), ps')
          \<and> \<not> ps_closed ps' \<and> incoming (ps_transport ps') = w))"
proof (intro conjI impI)
  assume a: "decrypted eng (length (record_buf ps)) (ps_inner ps) (incoming (ps_transport ps)) = Some ds
      \<and> slice (plain_offset ps) (plain_len ps) (plain_buf ps) @ ds = (b # vs @ body) @ rest
      \<and> is_varint vs \<and> varint_value vs = length body \<and> 1 + length vs + length body \<le> m"
  then have "psk_good eng incoming good ps" "psk_incoming eng incoming ps = (b # vs @ body) @ rest"
    using assms(3,4) by (simp_all add: psk_good_def psk_incoming_def)
  with a show "\<exists>ps'. read_packet mq (tls_transport (psk_session_ops eng tr)) m ps
            = (Some (case decode_slice mq (b # vs @ body) of
                Inl e \<Rightarrow> Inl (ReadProtocol e) | Inr (Some p) \<Rightarrow> Inr p
              | Inr None \<Rightarrow> Inl (ReadProtocol InvalidLength)), ps')
          \<and> psk_incoming eng incoming ps' = rest \<and> psk_good eng incoming good ps'"
    by (intro byte_stream.read_packet_stream [OF psk_byte_stream [OF assms(1,2)]]) simp_all
next
  assume a: "plain_offset ps = plain_len ps \<and> next_record (length (record_buf ps)) (incoming (ps_transport ps)) = Some (r, w)
      \<and> r ! 0 = TLS_CT_APPLICATION_DATA
      \<and> decrypt_app_data_or_alert eng r (length (record_buf ps)) (ps_inner ps) = (Inr (AppData []), i) \<and> 2 \<le> m"
  then obtain ps' where "psk_read eng tr 2 ps = Some (Inr [], ps')" "\<not> ps_closed ps'" "incoming (ps_transport ps') = w"
    using byte_stream.read_empty_record [OF assms(1,3,4), of r w eng i 2] by blast
  with a show "\<exists>ps'. read_packet mq (tls_transport (psk_session_ops eng tr)) m ps = (Some (Inl Eof), ps')
          \<and> \<not> ps_closed ps' \<and> incoming (ps_transport ps') = w"
    by (simp add: read_packet_def read_exact.simps [of _ 2] tls_transport_def tls_read_def psk_session_ops_def or_diverge_def)
qed

text \<open>An engine without cryptography, for the witnesses: the record's body is the plaintext.\<close>

definition null_record :: "bytes \<Rightarrow> bytes" where
  "null_record bs = [23, 3, 3] @ u16_to_be_bytes (word_of_nat (length bs)) @ bs"

definition null_engine :: "(unit, unit, string) tls_engine" where
  "null_engine =
     \<lparr>te_new = (),
      process_client_hello = (\<lambda>_ _ n i. (if 2 \<le> n then Inr (FirstFlight [22, 22]) else Inl ''space'', i)),
      process_client_finished = (\<lambda>_ i. (Inr (), i)),
      encrypt_app_data = (\<lambda>bs n i. (if length bs + 5 \<le> n then Inr (null_record bs) else Inl ''space'', i)),
      decrypt_app_data_or_alert = (\<lambda>r n i. (if length r \<le> n + 5 then Inr (AppData (drop 5 r)) else Inl ''space'', i)),
      encrypt_close_notify = (\<lambda>n i. (Inl ''none'', i)),
      te_InvalidHandshake = ''handshake'', te_InsufficientSpace = ''space''\<rparr>"

lemma null_engine_fits: "engine_fits null_engine"
  by (auto simp: engine_fits_def null_engine_def split: if_splits)

definition example_session :: "(mock_transport, unit, unit) psk_session" where
  "example_session =
     (psk_new null_engine 32
        (mock_feed [3, 3, 0, 2, 0, 0xE0] (mock_feed [23, 3, 3, 0, 1, 0xC0, 20, 3, 3, 0, 1, 1, 23] mock_new))
        \<lparr>psk_identity = [], psk_secret = [], dhe_keypair = None\<rparr> [])\<lparr>handshake_done := True\<rparr>"

text \<open>The same with an empty record in front.\<close>

definition empty_record_session :: "(mock_transport, unit, unit) psk_session" where
  "empty_record_session = example_session\<lparr>ps_transport := mock_feed [23, 3, 3, 0, 0, 23, 3, 3, 0, 2, 0xC0, 0] mock_new\<rparr>"

theorem psk_read_packet_witness:
  "(\<exists>ps'. read_packet example_codec (tls_transport (psk_session_ops null_engine mock_transport_ops)) 16 example_session
     = (Some (Inr Pingreq), ps') \<and> psk_incoming null_engine mock_incoming ps' = [0xE0])
   \<and> (\<exists>ps'. read_packet example_codec (tls_transport (psk_session_ops null_engine mock_transport_ops)) 16 empty_record_session
     = (Some (Inl Eof), ps') \<and> mock_incoming (ps_transport ps') = [23, 3, 3, 0, 2, 0xC0, 0])"
proof -
  let ?w = "[23, 3, 3, 0, 1, 0xC0, 20, 3, 3, 0, 1, 1, 23, 3, 3, 0, 2, 0, 0xE0] :: bytes"
  have d: "decrypted null_engine 32 () ?w = Some [0xC0, 0, 0xE0]" by code_simp
  have e: "next_record 32 [23, 3, 3, 0, 0, 23, 3, 3, 0, 2, 0xC0, 0] = Some ([23, 3, 3, 0, 0], [23, 3, 3, 0, 2, 0xC0, 0])"
    by code_simp
  have s: "psk_ready mock_good example_session" "\<not> ps_closed example_session" "length (record_buf example_session) = 32"
    "plain_offset example_session = 0" "plain_len example_session = 0" "mock_incoming (ps_transport example_session) = ?w"
    "ps_inner example_session = ()"
    by (simp_all add: psk_ready_def example_session_def psk_new_def mock_incoming_def mock_good_def mock_feed_def mock_new_def)
  have t: "psk_ready mock_good empty_record_session" "\<not> ps_closed empty_record_session" "length (record_buf empty_record_session) = 32"
    "plain_offset empty_record_session = plain_len empty_record_session" "ps_inner empty_record_session = ()"
    "mock_incoming (ps_transport empty_record_session) = [23, 3, 3, 0, 0, 23, 3, 3, 0, 2, 0xC0, 0]"
    using s by (simp_all add: empty_record_session_def psk_ready_def mock_incoming_def mock_good_def mock_feed_def mock_new_def)
  have "is_varint [0]" "varint_value [0] = length []" by (simp_all add: is_varint_def)
  then have "\<exists>ps'. read_packet example_codec (tls_transport (psk_session_ops null_engine mock_transport_ops)) 16 example_session
     = (Some (Inr Pingreq), ps') \<and> psk_incoming null_engine mock_incoming ps' = [0xE0]"
    using psk_read_packet [OF mock.byte_stream_axioms null_engine_fits s(1,2), where vs = "[0]" and body = "[]"
        and m = 16 and b = "0xC0" and rest = "[0xE0]" and mq = example_codec and ds = "[0xC0, 0, 0xE0]", THEN conjunct1, THEN mp] d s
    by (auto simp: example_codec_def slice_def)
  moreover have "\<exists>ps'. read_packet example_codec (tls_transport (psk_session_ops null_engine mock_transport_ops)) 16 empty_record_session
     = (Some (Inl Eof), ps') \<and> mock_incoming (ps_transport ps') = [23, 3, 3, 0, 2, 0xC0, 0]"
    using psk_read_packet [OF mock.byte_stream_axioms null_engine_fits t(1,2),
        where r = "[23, 3, 3, 0, 0]" and w = "[23, 3, 3, 0, 2, 0xC0, 0]" and i = "()" and m = 16 and mq = example_codec, THEN conjunct2, THEN mp] e t
    by (auto simp: null_engine_def TLS_CT_APPLICATION_DATA_def)
  ultimately show ?thesis ..
qed


lemma mock_wire_log: "wire_log mock_transport_ops tx_log"
  by (auto simp: wire_log_def mock_transport_ops_def mock_write_def)

lemma null_engine_opens: "peer_opens null_engine (\<lambda>_ _. True) (\<lambda>recs. concat (map (drop 5) recs))"
  by (auto simp: peer_opens_def null_engine_def null_record_def split: if_splits)

lemma null_engine_encrypt_fits: "encrypt_fits null_engine"
  by (auto simp: encrypt_fits_def null_engine_def null_record_def split: if_splits)


text \<open>
  C13: no application data before the handshake. Take any session that was made by \<open>new\<close>, whatever operations it has gone
  through. Until an \<open>accept\<close> has succeeded, however many have failed, reading and writing fail and touch neither the
  engine nor the transport; \<open>accept\<close> succeeds only after the engine accepted the client's \<open>Finished\<close>, in the state
  the session then has. Afterwards \<open>accept\<close> does nothing, and a closed session reads the end of the stream and writes
  nothing.
\<close>

theorem psk_handshake_gate:
  assumes "psk_run eng tr accepted ps"
  shows "(\<not> accepted \<longrightarrow>
      psk_read eng tr n ps = Some (Inl SEHandshakeIncomplete, ps) \<and> psk_write eng tr bs ps = (Inl SEHandshakeIncomplete, ps)
      \<and> (psk_accept eng tr ps = Some (Inr (), ps') \<longrightarrow> (\<exists>r i. process_client_finished eng r i = (Inr (), ps_inner ps'))))
   \<and> (accepted \<longrightarrow> psk_accept eng tr ps = Some (Inr (), ps)
      \<and> psk_read eng tr n (psk_close eng tr ps) = Some (Inr [], psk_close eng tr ps)
      \<and> psk_write eng tr bs (psk_close eng tr ps) = (Inl SEClosed, psk_close eng tr ps))"
  using psk_run_done [OF assms] do_accept_done [of eng tr ps ps'] psk_close_flags [of eng tr ps]
  by (auto simp: psk_read_def psk_write_def psk_accept_def)

text \<open>
  C23: over a stream that ends, the handshake and every read return, however many dummy records the
  peer sends and whatever the engine answers.
\<close>

theorem psk_returns:
  assumes "byte_stream tr incoming good" "\<And>bs s. good s \<Longrightarrow> good (snd (tr_write tr bs s))" "good (ps_transport ps)"
  shows "psk_accept eng tr ps \<noteq> None \<and> psk_read eng tr n ps \<noteq> None"
  using byte_stream.accept_returns [OF assms(1,3,2), of eng] byte_stream.read_returns [OF assms(1,3), of eng n] by auto

theorem psk_returns_witness:
  "psk_accept null_engine mock_transport_ops example_session \<noteq> None
   \<and> psk_read null_engine mock_transport_ops 4 example_session \<noteq> None"
proof (rule psk_returns [OF mock.byte_stream_axioms])
  show "mock_good (snd (tr_write mock_transport_ops bs s))" if "mock_good s" for bs s
    using that by (simp add: mock_transport_ops_def mock_write_def mock_good_def)
  show "mock_good (ps_transport example_session)"
    by (simp add: example_session_def psk_new_def mock_good_def mock_feed_def mock_new_def)
qed

text \<open>An engine that refuses the client's \<open>Finished\<close>: after the failed \<open>accept\<close> nothing can be written.\<close>

definition refusing_engine :: "(unit, unit, string) tls_engine" where
  "refusing_engine = null_engine\<lparr>process_client_finished := (\<lambda>_ i. (Inl ''finished'', i))\<rparr>"

definition unaccepted_session :: "(mock_transport, unit, unit) psk_session" where
  "unaccepted_session = psk_new refusing_engine 32 (mock_feed [22, 3, 3, 0, 1, 1, 23, 3, 3, 0, 1, 1] mock_new)
     \<lparr>psk_identity = [], psk_secret = [], dhe_keypair = None\<rparr> []"

declare skip_ccs.simps [code]

theorem psk_handshake_gate_witness:
  "\<exists>ps. psk_accept refusing_engine mock_transport_ops unaccepted_session = Some (Inl (SETls ''finished''), ps)
     \<and> psk_write refusing_engine mock_transport_ops [1] ps = (Inl SEHandshakeIncomplete, ps)"
proof -
  have "map_option fst (psk_accept refusing_engine mock_transport_ops unaccepted_session) = Some (Inl (SETls ''finished''))"
    by code_simp
  then obtain ps where ps: "psk_accept refusing_engine mock_transport_ops unaccepted_session = Some (Inl (SETls ''finished''), ps)"
    by auto
  have "psk_run refusing_engine mock_transport_ops False unaccepted_session"
    by (simp add: unaccepted_session_def run_new)
  from run_accept [OF this ps] have "psk_run refusing_engine mock_transport_ops False ps" by simp
  then show ?thesis using psk_handshake_gate [of refusing_engine mock_transport_ops False ps] ps by simp
qed

end
