(* ===== verification/Worker_Pool.thy ===== *)
theory Worker_Pool
  imports Connection Tls_Psk
begin

text \<open>
  The TLS worker pool of the firmware, \<^verbatim>\<open>examples/esp32c3_mqtt_server/src/main.rs\<close>: one task accepts
  connections and hands each to one of a fixed number of worker tasks. Every worker has static socket buffers that
  are borrowed through an \<open>UnsafeCell\<close>, so memory safety rests on the protocol between the tasks. The executor is
  cooperative: a task runs until its next await. \<open>accept_step\<close> and \<open>worker_step\<close> run a task from one await
  point to the next, and \<open>pool_step\<close> interleaves them. A socket is alive from its creation to the end of the loop
  body it was created or received in.
\<close>

section \<open>Constants\<close>

text \<open>The sizes of the two builds, with and without TLS.\<close>

record firmware_sizes =
  fw_max_sessions :: nat
  fw_max_subs :: nat
  fw_max_inflight :: nat
  fw_max_retained :: nat
  fw_inbound :: nat
  fw_port :: u16

definition MAX_PACKET_SIZE :: nat where
  "MAX_PACKET_SIZE = 768"

definition TLS_SESSION_BUF :: nat where
  "TLS_SESSION_BUF = 4096"

definition MAX_TLS_CONNECTIONS :: nat where
  "MAX_TLS_CONNECTIONS = 4"

definition tls_sizes :: firmware_sizes where
  "tls_sizes = \<lparr>fw_max_sessions = MAX_TLS_CONNECTIONS, fw_max_subs = 1, fw_max_inflight = 0, fw_max_retained = 0,
     fw_inbound = 1, fw_port = 8883\<rparr>"

definition MAX_PLAIN_CONNECTIONS :: nat where
  "MAX_PLAIN_CONNECTIONS = 10"

definition plain_sizes :: firmware_sizes where
  "plain_sizes = \<lparr>fw_max_sessions = MAX_PLAIN_CONNECTIONS, fw_max_subs = 4, fw_max_inflight = 2, fw_max_retained = 8,
     fw_inbound = 4, fw_port = 1883\<rparr>"

section \<open>State\<close>

record 'c socket =
  sk_buffers :: nat
  sk_conn :: 'c

datatype accept_pc = Reserve nat | AllBusy | Listen nat | Backoff nat

datatype 'c worker_pc = Check | Waiting | Handshaking "'c socket" | Serving "'c socket" | Releasing "'c socket"

record 'c pool =
  worker_busy :: "bool list"
  worker_sockets :: "'c socket option list"
  worker_signals :: "bool list"
  acceptor :: accept_pc
  workers :: "'c worker_pc list"

definition pool_init :: "nat \<Rightarrow> 'c pool" where
  "pool_init n = \<lparr>worker_busy = replicate n False, worker_sockets = replicate n None,
     worker_signals = replicate n False, acceptor = Reserve 0, workers = replicate n Check\<rparr>"

section \<open>The socket slots\<close>

definition socket_put :: "nat \<Rightarrow> 'c socket \<Rightarrow> 'c pool \<Rightarrow> 'c pool" where
  "socket_put k s p = p\<lparr>worker_sockets := (worker_sockets p)[k := Some s]\<rparr>"

definition socket_take :: "nat \<Rightarrow> 'c pool \<Rightarrow> 'c socket option \<times> 'c pool" where
  "socket_take k p = (worker_sockets p ! k, p\<lparr>worker_sockets := (worker_sockets p)[k := None]\<rparr>)"

definition worker_ready :: "nat \<Rightarrow> 'c pool \<Rightarrow> 'c pool" where
  "worker_ready k p = p\<lparr>worker_signals := (worker_signals p)[k := True]\<rparr>"

section \<open>The acceptor\<close>

text \<open>
  \<open>Reserve k\<close> is the loop of \<open>try_reserve_worker_slot\<close> about to look at slot \<open>k\<close>. In \<open>Backoff k\<close> the task
  sleeps with the lock of the busy flag held and its socket still alive.
\<close>

datatype 'c accept_event = SocketAccepted 'c | SocketFailed

definition reserve_slot :: "nat \<Rightarrow> 'c pool \<Rightarrow> 'c pool" where
  "reserve_slot k p =
     (if k < length (worker_busy p)
      then (if \<not> worker_busy p ! k
            then p\<lparr>worker_busy := (worker_busy p)[k := True], acceptor := Listen k\<rparr>
            else p\<lparr>acceptor := Reserve (k + 1)\<rparr>)
      else p\<lparr>acceptor := AllBusy\<rparr>)"

definition accept_step :: "'c accept_event \<Rightarrow> 'c pool \<Rightarrow> 'c pool" where
  "accept_step ev p =
     (case acceptor p of
        Reserve k \<Rightarrow> reserve_slot k p
      | AllBusy \<Rightarrow> p\<lparr>acceptor := Reserve 0\<rparr>
      | Listen k \<Rightarrow>
          (case ev of
             SocketFailed \<Rightarrow> p\<lparr>worker_busy := (worker_busy p)[k := False], acceptor := Backoff k\<rparr>
           | SocketAccepted c \<Rightarrow>
               (worker_ready k (socket_put k \<lparr>sk_buffers = k, sk_conn = c\<rparr> p))\<lparr>acceptor := Reserve 0\<rparr>)
      | Backoff k \<Rightarrow> p\<lparr>acceptor := Reserve 0\<rparr>)"

section \<open>The workers\<close>

definition wait_for_worker_socket :: "nat \<Rightarrow> 'c pool \<Rightarrow> 'c pool" where
  "wait_for_worker_socket k p =
     (case workers p ! k of
        Check \<Rightarrow>
          (case socket_take k p of
             (Some s, p') \<Rightarrow> p'\<lparr>workers := (workers p')[k := Handshaking s]\<rparr>
           | (None, p') \<Rightarrow> p'\<lparr>workers := (workers p')[k := Waiting]\<rparr>)
      | Waiting \<Rightarrow>
          if worker_signals p ! k
          then p\<lparr>worker_signals := (worker_signals p)[k := False], workers := (workers p)[k := Check]\<rparr>
          else p
      | _ \<Rightarrow> p)"

definition release_worker_slot :: "nat \<Rightarrow> 'c pool \<Rightarrow> 'c pool" where
  "release_worker_slot k p =
     (if acceptor p = Backoff k then p
      else p\<lparr>worker_busy := (worker_busy p)[k := False], workers := (workers p)[k := Check]\<rparr>)"

text \<open>\<open>ok\<close>: whether the handshake succeeds. The connection loop then runs for as long as it likes.\<close>

definition worker_step :: "bool \<Rightarrow> nat \<Rightarrow> 'c pool \<Rightarrow> 'c pool" where
  "worker_step ok k p =
     (case workers p ! k of
        Check \<Rightarrow> wait_for_worker_socket k p
      | Waiting \<Rightarrow> wait_for_worker_socket k p
      | Handshaking s \<Rightarrow> p\<lparr>workers := (workers p)[k := if ok then Serving s else Releasing s]\<rparr>
      | Serving s \<Rightarrow> p\<lparr>workers := (workers p)[k := Releasing s]\<rparr>
      | Releasing s \<Rightarrow> release_worker_slot k p)"

inductive pool_step :: "'c pool \<Rightarrow> 'c pool \<Rightarrow> bool" where
  pool_accept: "pool_step p (accept_step ev p)"
| pool_worker: "k < length (workers p) \<Longrightarrow> pool_step p (worker_step ok k p)"

inductive pool_reachable :: "nat \<Rightarrow> 'c pool \<Rightarrow> bool" for n where
  pool_start: "pool_reachable n (pool_init n)"
| pool_next: "pool_reachable n p \<Longrightarrow> pool_step p p' \<Longrightarrow> pool_reachable n p'"

section \<open>Invariant\<close>

primrec engaged :: "'c worker_pc \<Rightarrow> 'c socket option" where
  "engaged Check = None"
| "engaged Waiting = None"
| "engaged (Handshaking s) = Some s"
| "engaged (Serving s) = Some s"
| "engaged (Releasing s) = Some s"

text \<open>
  For one slot: it is busy exactly while it has an owner; it has one owner at most; sockets are where their buffers belong;
  and a socket that was handed over will be noticed.
\<close>

definition slot_ok :: "accept_pc \<Rightarrow> nat \<Rightarrow> bool \<Rightarrow> 'c socket option \<Rightarrow> bool \<Rightarrow> 'c worker_pc \<Rightarrow> bool" where
  "slot_ok acc k b so r w \<longleftrightarrow>
     (b \<longleftrightarrow> acc = Listen k \<or> so \<noteq> None \<or> engaged w \<noteq> None)
     \<and> (acc = Listen k \<or> acc = Backoff k \<longrightarrow> so = None \<and> engaged w = None)
     \<and> (so \<noteq> None \<longrightarrow> w = Check \<or> w = Waiting \<and> r)
     \<and> (\<forall>s. so = Some s \<or> engaged w = Some s \<longrightarrow> sk_buffers s = k)"

definition pool_inv :: "nat \<Rightarrow> 'c pool \<Rightarrow> bool" where
  "pool_inv n p \<longleftrightarrow>
     length (worker_busy p) = n \<and> length (worker_sockets p) = n \<and> length (worker_signals p) = n
     \<and> length (workers p) = n \<and> (\<forall>k. acceptor p = Listen k \<or> acceptor p = Backoff k \<longrightarrow> k < n)
     \<and> (\<forall>k<n. slot_ok (acceptor p) k (worker_busy p ! k) (worker_sockets p ! k) (worker_signals p ! k) (workers p ! k))"

lemma engaged_None: "engaged w = None \<longleftrightarrow> w = Check \<or> w = Waiting"
  by (cases w) auto

lemma pool_inv_init: "pool_inv n (pool_init n)"
  by (simp add: pool_inv_def pool_init_def slot_ok_def)

lemma accept_step_inv:
  assumes "pool_inv n p"
  shows "pool_inv n (accept_step ev p)"
proof (cases "acceptor p")
  case (Reserve k)
  then show ?thesis using assms
    by (auto simp: accept_step_def reserve_slot_def pool_inv_def slot_ok_def nth_list_update)
next
  case (Listen k)
  then show ?thesis using assms
    by (cases ev) (auto simp: accept_step_def worker_ready_def socket_put_def pool_inv_def slot_ok_def nth_list_update
        engaged_None)
qed (use assms in \<open>auto simp: accept_step_def pool_inv_def slot_ok_def\<close>)

lemma worker_step_inv:
  assumes "pool_inv n p" "k < n"
  shows "pool_inv n (worker_step ok k p)"
proof (cases "workers p ! k")
  case Check
  then show ?thesis using assms
    by (cases "worker_sockets p ! k")
      (auto simp: worker_step_def wait_for_worker_socket_def socket_take_def pool_inv_def slot_ok_def nth_list_update)
next
  case Waiting
  then show ?thesis using assms
    by (auto simp: worker_step_def wait_for_worker_socket_def pool_inv_def slot_ok_def nth_list_update)
next
  case (Releasing s)
  then show ?thesis using assms
    by (auto simp: worker_step_def release_worker_slot_def pool_inv_def slot_ok_def nth_list_update)
qed (use assms in \<open>auto simp: worker_step_def pool_inv_def slot_ok_def nth_list_update\<close>)

lemma pool_reachable_inv: "pool_reachable n p \<Longrightarrow> pool_inv n p"
proof (induction rule: pool_reachable.induct)
  case (pool_next p p')
  have "length (workers p) = n" using pool_next.IH by (simp add: pool_inv_def)
  then show ?case using pool_next by (auto elim!: pool_step.cases intro: accept_step_inv worker_step_inv)
qed (rule pool_inv_init)

lemma pool_slot:
  assumes "pool_inv n p" "k < n"
  shows "slot_ok (acceptor p) k (worker_busy p ! k) (worker_sockets p ! k) (worker_signals p ! k) (workers p ! k)"
  using assms by (simp add: pool_inv_def)

section \<open>The random bytes of a handshake\<close>

text \<open>\<open>random\<close>: the hardware generator, a parameter.\<close>

primrec random_words :: "('g \<Rightarrow> u32 \<times> 'g) \<Rightarrow> nat \<Rightarrow> 'g \<Rightarrow> bytes \<times> 'g" where
  "random_words random 0 g = ([], g)"
| "random_words random (Suc n) g =
     (let (w, g1) = random g; (bs, g2) = random_words random n g1 in (u32_to_le_bytes w @ bs, g2))"

definition fresh_server_random :: "('g \<Rightarrow> u32 \<times> 'g) \<Rightarrow> 'g \<Rightarrow> bytes \<times> 'g" where
  "fresh_server_random random g = random_words random 8 g"

lemma length_fresh_server_random: "length (fst (fresh_server_random random g)) = 32"
proof -
  have "length (fst (random_words random n g)) = 4 * n" for n
    by (induction n arbitrary: g) (simp_all add: case_prod_unfold Let_def)
  then show ?thesis by (simp add: fresh_server_random_def)
qed

section \<open>Properties\<close>

text \<open>Who has a live socket, and with it the buffers of a slot.\<close>

datatype holder = ByAcceptor | InSlot nat | ByWorker nat

primrec borrows :: "'c pool \<Rightarrow> holder \<Rightarrow> nat set" where
  "borrows p ByAcceptor = {k. acceptor p = Listen k \<or> acceptor p = Backoff k}"
| "borrows p (InSlot j) = {k. j < length (worker_sockets p) \<and> (\<exists>s. worker_sockets p ! j = Some s \<and> sk_buffers s = k)}"
| "borrows p (ByWorker j) = {k. j < length (workers p) \<and> (\<exists>s. engaged (workers p ! j) = Some s \<and> sk_buffers s = k)}"

lemma borrows_inv:
  assumes "pool_inv n p" "k \<in> borrows p h"
  shows "k < n" "h = ByAcceptor \<and> (acceptor p = Listen k \<or> acceptor p = Backoff k)
    \<or> h = InSlot k \<and> worker_sockets p ! k \<noteq> None \<or> h = ByWorker k \<and> engaged (workers p ! k) \<noteq> None"
proof -
  have "k < n \<and> (h = ByAcceptor \<and> (acceptor p = Listen k \<or> acceptor p = Backoff k)
    \<or> h = InSlot k \<and> worker_sockets p ! k \<noteq> None \<or> h = ByWorker k \<and> engaged (workers p ! k) \<noteq> None)"
  proof (cases h)
    case ByAcceptor
    then show ?thesis using assms by (auto simp: pool_inv_def)
  next
    case (InSlot j)
    then show ?thesis using assms pool_slot [OF assms(1), of j] by (auto simp: pool_inv_def slot_ok_def)
  next
    case (ByWorker j)
    then show ?thesis using assms pool_slot [OF assms(1), of j] by (auto simp: pool_inv_def slot_ok_def)
  qed
  then show "k < n" "h = ByAcceptor \<and> (acceptor p = Listen k \<or> acceptor p = Backoff k)
    \<or> h = InSlot k \<and> worker_sockets p ! k \<noteq> None \<or> h = ByWorker k \<and> engaged (workers p ! k) \<noteq> None" by blast+
qed

lemma borrows_slot:
  assumes "pool_inv n p" "k < n"
  shows "acceptor p = Listen k \<Longrightarrow> k \<in> borrows p ByAcceptor"
    "worker_sockets p ! k \<noteq> None \<Longrightarrow> k \<in> borrows p (InSlot k)"
    "engaged (workers p ! k) \<noteq> None \<Longrightarrow> k \<in> borrows p (ByWorker k)"
proof -
  have "length (worker_sockets p) = n" "length (workers p) = n" using assms(1) by (simp_all add: pool_inv_def)
  moreover have "sk_buffers s = k" if "worker_sockets p ! k = Some s \<or> engaged (workers p ! k) = Some s" for s
    using that pool_slot [OF assms] unfolding slot_ok_def by blast
  ultimately show "acceptor p = Listen k \<Longrightarrow> k \<in> borrows p ByAcceptor"
    "worker_sockets p ! k \<noteq> None \<Longrightarrow> k \<in> borrows p (InSlot k)"
    "engaged (workers p ! k) \<noteq> None \<Longrightarrow> k \<in> borrows p (ByWorker k)"
    using assms(2) by auto
qed

text \<open>
  C4: the worker buffers are never aliased. However the acceptor and the workers are scheduled, the buffers of a slot
  are borrowed by at most one live socket, wherever that socket is; a socket is only put into an empty slot;
  and a slot is marked busy exactly while its buffers are borrowed, with one exception: while the acceptor backs off after a
  failure the flag of its slot is already clear, and the acceptor's socket still borrows the buffers. No slot leaks.
\<close>

theorem worker_buffers_exclusive:
  assumes "pool_reachable n p"
  shows "(k \<in> borrows p h \<and> k \<in> borrows p h' \<longrightarrow> h = h' \<and> k < n)
    \<and> (acceptor p = Listen k \<longrightarrow> worker_sockets p ! k = None)
    \<and> (k < n \<longrightarrow> (worker_busy p ! k \<longleftrightarrow> acceptor p \<noteq> Backoff k \<and> (\<exists>h. k \<in> borrows p h)))"
proof (intro conjI impI)
  note inv = pool_reachable_inv [OF assms]
  assume "k \<in> borrows p h \<and> k \<in> borrows p h'"
  then show "h = h'" "k < n"
    using borrows_inv [OF inv, of k h] borrows_inv [OF inv, of k h'] pool_slot [OF inv, of k] engaged_None
    unfolding slot_ok_def by metis+
next
  note inv = pool_reachable_inv [OF assms]
  assume l: "acceptor p = Listen k"
  then show "worker_sockets p ! k = None" using pool_slot [OF inv, of k] inv by (auto simp: pool_inv_def slot_ok_def)
next
  note inv = pool_reachable_inv [OF assms]
  assume k: "k < n"
  have "worker_busy p ! k \<longleftrightarrow> (\<exists>h. k \<in> borrows p h)" if "acceptor p \<noteq> Backoff k"
    using k that pool_slot [OF inv, of k] borrows_slot [OF inv, of k] borrows_inv(2) [OF inv, of k]
    unfolding slot_ok_def by blast
  moreover have "\<not> worker_busy p ! k" if "acceptor p = Backoff k"
    using k that pool_slot [OF inv, of k] unfolding slot_ok_def by simp
  ultimately show "worker_busy p ! k \<longleftrightarrow> acceptor p \<noteq> Backoff k \<and> (\<exists>h. k \<in> borrows p h)"
    by blast
qed

definition example_pool :: "nat pool" where
  "example_pool = worker_step True 0 (accept_step (SocketAccepted 7) (accept_step SocketFailed (pool_init 4)))"

lemma example_pool_reachable: "pool_reachable 4 example_pool"
  unfolding example_pool_def
  by (intro pool_next [OF _ pool_worker] pool_next [OF _ pool_accept] pool_start) code_simp

theorem worker_buffers_exclusive_witness:
  "0 \<in> borrows example_pool (ByWorker 0) \<and> 0 \<notin> borrows example_pool ByAcceptor \<and> worker_busy example_pool ! 0"
proof -
  have e: "engaged (workers example_pool ! 0) = Some \<lparr>sk_buffers = 0, sk_conn = 7\<rparr>" "0 < length (workers example_pool)"
    "acceptor example_pool = Reserve 0" by code_simp+
  then have b: "0 \<in> borrows example_pool (ByWorker 0)" by simp
  note ex = worker_buffers_exclusive [OF example_pool_reachable, of 0 "ByWorker 0" ByAcceptor]
  have "worker_busy example_pool ! 0" using ex b e(3) by (metis accept_pc.distinct(5) zero_less_numeral)
  then show ?thesis using ex b by blast
qed

text \<open>
  C20: no connection is forgotten. A socket that lies in a slot is taken by its worker within two of the worker's own
  steps, whatever came before, since its wake-up cannot be lost; and a worker that is done frees its slot at its next
  step, since the lock of its busy flag is never held by another task.
\<close>

theorem handed_socket_served:
  assumes "pool_reachable n p" "k < n"
  shows "(worker_sockets p ! k = Some s \<longrightarrow> (\<exists>m \<le> 2. workers ((worker_step ok k ^^ m) p) ! k = Handshaking s))
    \<and> (workers p ! k = Releasing s \<longrightarrow> \<not> worker_busy (worker_step ok k p) ! k \<and> workers (worker_step ok k p) ! k = Check)"
proof (intro conjI impI)
  note inv = pool_reachable_inv [OF assms(1)] and slot = pool_slot [OF pool_reachable_inv [OF assms(1)] assms(2)]
  have len: "length (workers p) = n" "length (worker_busy p) = n" using inv by (simp_all add: pool_inv_def)
  have take: "workers (worker_step ok k q) ! k = Handshaking s"
    if "worker_sockets q ! k = Some s" "workers q ! k = Check" "length (workers q) = n" for q
    using that assms(2) by (simp add: worker_step_def wait_for_worker_socket_def socket_take_def)
  {
    assume s: "worker_sockets p ! k = Some s"
    then consider "workers p ! k = Check" | "workers p ! k = Waiting" "worker_signals p ! k"
      using slot by (auto simp: slot_ok_def)
    then show "\<exists>m \<le> 2. workers ((worker_step ok k ^^ m) p) ! k = Handshaking s"
    proof cases
      case 1
      then show ?thesis using take [OF s 1 len(1)] by (intro exI [of _ 1]) simp
    next
      case 2
      let ?q = "worker_step ok k p"
      have "worker_sockets ?q ! k = Some s" "workers ?q ! k = Check" "length (workers ?q) = n"
        using 2 s len assms(2) by (simp_all add: worker_step_def wait_for_worker_socket_def)
      then show ?thesis using take [of ?q] by (intro exI [of _ 2]) (simp add: numeral_2_eq_2)
    qed
  next
    assume r: "workers p ! k = Releasing s"
    then have "acceptor p \<noteq> Backoff k" using slot by (auto simp: slot_ok_def)
    then show "\<not> worker_busy (worker_step ok k p) ! k" "workers (worker_step ok k p) ! k = Check"
      using r len assms(2) by (simp_all add: worker_step_def release_worker_slot_def)
  }
qed

theorem handed_socket_served_witness:
  "\<exists>m \<le> 2. workers ((worker_step True 0 ^^ m)
     (accept_step (SocketAccepted 7) (accept_step SocketFailed (worker_step True 0 (pool_init 4 :: nat pool))))) ! 0
     = Handshaking \<lparr>sk_buffers = 0, sk_conn = 7\<rparr>"
proof -
  let ?p = "accept_step (SocketAccepted 7) (accept_step SocketFailed (worker_step True 0 (pool_init 4 :: nat pool)))"
  have "pool_reachable 4 ?p"
    by (intro pool_next [OF _ pool_accept] pool_next [OF _ pool_worker] pool_start) (simp add: pool_init_def)
  moreover have "worker_sockets ?p ! 0 = Some \<lparr>sk_buffers = 0, sk_conn = 7\<rparr>" by code_simp
  ultimately show ?thesis using handed_socket_served [of 4 ?p 0] by simp
qed

end
