(* ===== verification/Plain_Workers.thy ===== *)
theory Plain_Workers
  imports Worker_Pool "HOL-Library.Multiset"
begin

text \<open>
  The build of the firmware without TLS, \<^verbatim>\<open>examples/esp32c3_mqtt_server/src/main.rs\<close> and
  \<^verbatim>\<open>src/transport.rs\<close>. Each plain worker allocates the buffers of its socket on the heap and gives the socket
  references to them that the compiler no longer tracks, so that memory safety rests on the order in which the loop
  body drops its variables. The heap is the list of its live blocks, the allocator is a parameter. A free of a
  block that is not live, or of one that a socket still refers to, is a fault.
\<close>

section \<open>The transport of the firmware\<close>

text \<open>It borrows the socket instead of owning it.\<close>

definition fw_tcp_read :: "('s, 'e) tcp_socket \<Rightarrow> nat \<Rightarrow> 's \<Rightarrow> ('e tcp_transport_error + bytes) \<times> 's" where
  "fw_tcp_read sock n s = (case sock_read sock n s of (Inl e, s') \<Rightarrow> (Inl (Socket e), s') | (Inr bs, s') \<Rightarrow> (Inr bs, s'))"

definition fw_tcp_write :: "('s, 'e) tcp_socket \<Rightarrow> bytes \<Rightarrow> 's \<Rightarrow> ('e tcp_transport_error + unit) \<times> 's" where
  "fw_tcp_write sock buf s = write_all (sock_write sock) Socket TcpWriteZero buf 0 s"

definition fw_tcp_transport :: "('s, 'e) tcp_socket \<Rightarrow> ('s, 'e tcp_transport_error) transport" where
  "fw_tcp_transport sock =
     \<lparr>tr_read = fw_tcp_read sock, tr_write = fw_tcp_write sock, tr_close = sock_close sock\<rparr>"

text \<open>What is proved of the adapter of the broker crate holds of this one.\<close>

lemma fw_tcp_transport_eq: "fw_tcp_transport sock = tcp_transport sock"
  by (simp add: fw_tcp_transport_def tcp_transport_def fun_eq_iff fw_tcp_read_def tcp_read_def fw_tcp_write_def tcp_write_def
      split: prod.split sum.split)

section \<open>Socket buffers on the heap\<close>

type_synonym heap = "nat list"

record owned_buffers =
  ob_rx :: nat
  ob_tx :: nat

datatype fault = AllocFailed | InvalidFree | FreedUnderSocket

definition alloc_box :: "(heap \<Rightarrow> nat option) \<Rightarrow> heap \<Rightarrow> fault + nat \<times> heap" where
  "alloc_box alloc h = (case alloc h of None \<Rightarrow> Inl AllocFailed | Some a \<Rightarrow> Inr (a, a # h))"

definition free_box :: "nat \<Rightarrow> heap \<Rightarrow> fault + heap" where
  "free_box a h = (if a \<in> set h then Inr (remove1 a h) else Inl InvalidFree)"

definition non_null :: "nat \<Rightarrow> nat option" where
  "non_null a = (if a = 0 then None else Some a)"

text \<open>
  The macro \<open>vec!\<close> does not return when the allocator fails, so that the result \<open>None\<close> is only the test for a null
  pointer. When that test fails for the first block the second is still owned and dropped, when it fails for the second neither is.
\<close>

definition owned_new :: "(heap \<Rightarrow> nat option) \<Rightarrow> heap \<Rightarrow> fault + owned_buffers option \<times> heap" where
  "owned_new alloc h =
     and_then (alloc_box alloc h) (\<lambda>(rx, h1).
     and_then (alloc_box alloc h1) (\<lambda>(tx, h2).
       case non_null rx of
         None \<Rightarrow> and_then (free_box tx h2) (\<lambda>h3. Inr (None, h3))
       | Some rx' \<Rightarrow>
           (case non_null tx of
              None \<Rightarrow> Inr (None, h2)
            | Some tx' \<Rightarrow> Inr (Some \<lparr>ob_rx = rx', ob_tx = tx'\<rparr>, h2))))"

definition owned_drop :: "owned_buffers list \<Rightarrow> owned_buffers \<Rightarrow> heap \<Rightarrow> fault + heap" where
  "owned_drop socks b h =
     (if b \<in> set socks then Inl FreedUnderSocket
      else and_then (free_box (ob_rx b) h) (free_box (ob_tx b)))"

section \<open>The workers\<close>

text \<open>
  A worker awaits the timer after a failed allocation, a connection, or the events of the connection loop. \<open>socks\<close>
  lists the live sockets by the buffers they refer to.
\<close>

datatype plain_pc = PwStart | PwRetry | PwAccepting owned_buffers | PwServing owned_buffers

record plain_mem =
  pm_heap :: heap
  pm_socks :: "owned_buffers list"

definition plain_loop_head :: "(heap \<Rightarrow> nat option) \<Rightarrow> plain_mem \<Rightarrow> fault + plain_pc \<times> plain_mem" where
  "plain_loop_head alloc m =
     and_then (owned_new alloc (pm_heap m)) (\<lambda>(bufs, h).
       case bufs of
         None \<Rightarrow> Inr (PwRetry, m\<lparr>pm_heap := h\<rparr>)
       | Some b \<Rightarrow> Inr (PwAccepting b, m\<lparr>pm_heap := h, pm_socks := b # pm_socks m\<rparr>))"

text \<open>Variables are dropped in the reverse order of their declaration: the socket, then its buffers.\<close>

definition plain_loop_end :: "(heap \<Rightarrow> nat option) \<Rightarrow> owned_buffers \<Rightarrow> plain_mem \<Rightarrow> fault + plain_pc \<times> plain_mem" where
  "plain_loop_end alloc b m =
     (let socks = remove1 b (pm_socks m)
      in and_then (owned_drop socks b (pm_heap m)) (\<lambda>h.
           plain_loop_head alloc (m\<lparr>pm_heap := h, pm_socks := socks\<rparr>)))"

text \<open>\<open>ok\<close>: whether accepting a connection succeeds.\<close>

definition plain_worker ::
  "(heap \<Rightarrow> nat option) \<Rightarrow> bool \<Rightarrow> plain_pc \<Rightarrow> plain_mem \<Rightarrow> fault + plain_pc \<times> plain_mem" where
  "plain_worker alloc ok pc m =
     (case pc of
        PwStart \<Rightarrow> plain_loop_head alloc m
      | PwRetry \<Rightarrow> plain_loop_head alloc m
      | PwAccepting b \<Rightarrow> if ok then Inr (PwServing b, m) else plain_loop_end alloc b m
      | PwServing b \<Rightarrow> plain_loop_end alloc b m)"

record plain_system =
  py_workers :: "plain_pc list"
  py_mem :: plain_mem

definition plain_runtime :: plain_system where
  "plain_runtime = \<lparr>py_workers = replicate MAX_PLAIN_CONNECTIONS PwStart, py_mem = \<lparr>pm_heap = [], pm_socks = []\<rparr>\<rparr>"

inductive plain_reachable :: "(heap \<Rightarrow> nat option) \<Rightarrow> plain_system \<Rightarrow> bool" for alloc where
  plain_boot: "plain_reachable alloc plain_runtime"
| plain_next: "plain_reachable alloc y \<Longrightarrow> k < length (py_workers y) \<Longrightarrow>
    plain_worker alloc ok (py_workers y ! k) (py_mem y) = Inr (pc, m) \<Longrightarrow>
    plain_reachable alloc (y\<lparr>py_workers := (py_workers y)[k := pc], py_mem := m\<rparr>)"

section \<open>Ownership\<close>

definition alloc_fresh :: "(heap \<Rightarrow> nat option) \<Rightarrow> bool" where
  "alloc_fresh alloc \<longleftrightarrow> (\<forall>h a. alloc h = Some a \<longrightarrow> a \<noteq> 0 \<and> a \<notin> set h)"

primrec pw_bufs :: "plain_pc \<Rightarrow> owned_buffers list" where
  "pw_bufs PwStart = []"
| "pw_bufs PwRetry = []"
| "pw_bufs (PwAccepting b) = [b]"
| "pw_bufs (PwServing b) = [b]"

definition blocks :: "owned_buffers list \<Rightarrow> nat multiset" where
  "blocks bs = mset (map ob_rx bs) + mset (map ob_tx bs)"

definition all_bufs :: "plain_system \<Rightarrow> owned_buffers list" where
  "all_bufs y = concat (map pw_bufs (py_workers y))"

text \<open>With \<open>bs\<close> the buffers that the workers hold: each has a socket, and they are what the heap holds.\<close>

definition mem_ok :: "owned_buffers multiset \<Rightarrow> plain_mem \<Rightarrow> bool" where
  "mem_ok bs m \<longleftrightarrow>
     mset (pm_socks m) = bs \<and> mset (pm_heap m) = image_mset ob_rx bs + image_mset ob_tx bs \<and> distinct (pm_heap m)"

lemma all_bufs_update:
  assumes "k < length (py_workers y)"
  shows "mset (concat (map pw_bufs ((py_workers y)[k := pc]))) + mset (pw_bufs (py_workers y ! k))
    = mset (all_bufs y) + mset (pw_bufs pc)"
proof -
  have "py_workers y = take k (py_workers y) @ py_workers y ! k # drop (Suc k) (py_workers y)"
    using assms by (rule id_take_nth_drop)
  then have "mset (all_bufs y) = mset (concat (map pw_bufs (take k (py_workers y)))) + mset (pw_bufs (py_workers y ! k))
      + mset (concat (map pw_bufs (drop (Suc k) (py_workers y))))"
    unfolding all_bufs_def by (metis concat.simps(2) concat_append list.simps(9) map_append mset_append add.assoc)
  then show ?thesis using assms by (simp add: upd_conv_take_nth_drop)
qed

lemma mem_ok_buffers:
  assumes "mem_ok (add_mset b bs) m"
  shows "b \<notin># bs" "ob_rx b \<noteq> ob_tx b" "ob_rx b \<in> set (pm_heap m)" "ob_tx b \<in> set (pm_heap m)"
proof -
  have h: "mset (pm_heap m) = add_mset (ob_rx b) (add_mset (ob_tx b) (image_mset ob_rx bs + image_mset ob_tx bs))"
    using assms by (simp add: mem_ok_def)
  have "distinct (pm_heap m)"
    using assms by (simp add: mem_ok_def)
  then have "count (mset (pm_heap m)) a \<le> 1" for a
    by (simp add: distinct_count_atmost_1)
  from this [of "ob_rx b"] have "ob_rx b \<noteq> ob_tx b \<and> count (image_mset ob_rx bs) (ob_rx b) = 0"
    unfolding h by (simp split: if_splits)
  then have "ob_rx b \<noteq> ob_tx b" "ob_rx b \<notin># image_mset ob_rx bs"
    by (blast, metis not_in_iff)
  then show "ob_rx b \<noteq> ob_tx b" "b \<notin># bs" by auto
  show "ob_rx b \<in> set (pm_heap m)" "ob_tx b \<in> set (pm_heap m)"
    unfolding set_mset_mset [symmetric] h by simp_all
qed

lemma plain_loop_head_ok:
  assumes "alloc_fresh alloc" "mem_ok bs m"
  shows "plain_loop_head alloc m = Inl AllocFailed
    \<or> (\<exists>b m'. plain_loop_head alloc m = Inr (PwAccepting b, m') \<and> mem_ok (add_mset b bs) m')"
proof (cases "alloc (pm_heap m)")
  case None
  then show ?thesis by (simp add: plain_loop_head_def owned_new_def alloc_box_def and_then_def)
next
  case (Some a)
  show ?thesis
  proof (cases "alloc (a # pm_heap m)")
    case None
    then show ?thesis using Some by (simp add: plain_loop_head_def owned_new_def alloc_box_def and_then_def)
  next
    case some2: (Some c)
    have "a \<noteq> 0" "a \<notin> set (pm_heap m)" "c \<noteq> 0" "c \<notin> set (a # pm_heap m)"
      using assms(1) Some some2 unfolding alloc_fresh_def by blast+
    then show ?thesis using Some some2 assms(2)
      by (simp add: plain_loop_head_def owned_new_def alloc_box_def and_then_def non_null_def mem_ok_def)
  qed
qed

lemma plain_loop_end_ok:
  assumes "alloc_fresh alloc" "mem_ok (add_mset b bs) m"
  shows "plain_loop_end alloc b m = Inl AllocFailed
    \<or> (\<exists>b' m'. plain_loop_end alloc b m = Inr (PwAccepting b', m') \<and> mem_ok (add_mset b' bs) m')"
proof -
  let ?m = "m\<lparr>pm_heap := remove1 (ob_tx b) (remove1 (ob_rx b) (pm_heap m)), pm_socks := remove1 b (pm_socks m)\<rparr>"
  note b = mem_ok_buffers [OF assms(2)]
  have "mset (remove1 b (pm_socks m)) = bs"
    using assms(2) by (simp add: mem_ok_def)
  then have "b \<notin> set (remove1 b (pm_socks m))"
    using b(1) by (metis set_mset_mset)
  moreover have "ob_tx b \<in> set (remove1 (ob_rx b) (pm_heap m))"
    using b(2,4) by (simp add: in_set_remove1)
  ultimately have "plain_loop_end alloc b m = plain_loop_head alloc ?m"
    using b(3) by (simp add: plain_loop_end_def owned_drop_def free_box_def and_then_def)
  moreover have "mem_ok bs ?m"
    using assms(2) by (simp add: mem_ok_def)
  ultimately show ?thesis using plain_loop_head_ok [OF assms(1)] by simp
qed

lemma plain_worker_ok:
  assumes "alloc_fresh alloc" "mem_ok (mset (pw_bufs pc) + bs) m" "pc \<noteq> PwRetry"
  shows "plain_worker alloc ok pc m = Inl AllocFailed
    \<or> (\<exists>pc' m'. plain_worker alloc ok pc m = Inr (pc', m') \<and> mem_ok (mset (pw_bufs pc') + bs) m' \<and> pc' \<noteq> PwRetry)"
proof (cases pc)
  case PwStart
  then show ?thesis using plain_loop_head_ok [OF assms(1), of bs m] assms(2) by (auto simp: plain_worker_def)
next
  case (PwAccepting b)
  then show ?thesis using plain_loop_end_ok [OF assms(1), of b bs m] assms(2)
    by (cases ok) (auto simp: plain_worker_def)
next
  case (PwServing b)
  then show ?thesis using plain_loop_end_ok [OF assms(1), of b bs m] assms(2) by (auto simp: plain_worker_def)
qed (use assms(3) in simp)

definition plain_inv :: "plain_system \<Rightarrow> bool" where
  "plain_inv y \<longleftrightarrow> mem_ok (mset (all_bufs y)) (py_mem y) \<and> PwRetry \<notin> set (py_workers y)
     \<and> length (py_workers y) = MAX_PLAIN_CONNECTIONS"

lemma plain_step_ok:
  assumes "alloc_fresh alloc" "plain_inv y" "k < length (py_workers y)"
  shows "plain_worker alloc ok (py_workers y ! k) (py_mem y) = Inl AllocFailed
    \<or> (\<exists>pc m. plain_worker alloc ok (py_workers y ! k) (py_mem y) = Inr (pc, m)
         \<and> plain_inv (y\<lparr>py_workers := (py_workers y)[k := pc], py_mem := m\<rparr>))"
proof -
  let ?pc = "py_workers y ! k"
  define bs where "bs = mset (all_bufs y) - mset (pw_bufs ?pc)"
  have "pw_bufs ?pc \<in> set (map pw_bufs (py_workers y))"
    using assms(3) by simp
  then have "mset (pw_bufs ?pc) \<subseteq># mset (all_bufs y)"
    unfolding all_bufs_def by (metis concat.simps(2) concat_append mset_append mset_subset_eq_add_right
        mset_subset_eq_add_left split_list subset_mset.order_trans)
  then have bs: "mset (all_bufs y) = mset (pw_bufs ?pc) + bs"
    by (simp add: bs_def)
  have upd: "mset (all_bufs (y\<lparr>py_workers := (py_workers y)[k := pc], py_mem := m\<rparr>)) = mset (pw_bufs pc) + bs" for pc m
    using all_bufs_update [OF assms(3), of pc] bs by (simp add: all_bufs_def)
  have "?pc \<noteq> PwRetry"
    using assms(2,3) unfolding plain_inv_def by (metis nth_mem)
  then consider "plain_worker alloc ok ?pc (py_mem y) = Inl AllocFailed"
    | pc m where "plain_worker alloc ok ?pc (py_mem y) = Inr (pc, m)" "mem_ok (mset (pw_bufs pc) + bs) m" "pc \<noteq> PwRetry"
    using plain_worker_ok [OF assms(1), of ?pc bs "py_mem y" ok] assms(2) bs by (auto simp: plain_inv_def)
  then show ?thesis
  proof cases
    case (2 pc m)
    then have "plain_inv (y\<lparr>py_workers := (py_workers y)[k := pc], py_mem := m\<rparr>)"
      using assms(2) set_update_subset_insert [of "py_workers y" k pc] unfolding plain_inv_def upd by auto
    with 2(1) show ?thesis by blast
  qed simp
qed

lemma plain_reachable_inv:
  assumes "plain_reachable alloc y" "alloc_fresh alloc"
  shows "plain_inv y"
  using assms(1)
proof induction
  case plain_boot
  show ?case by (simp add: plain_inv_def plain_runtime_def all_bufs_def mem_ok_def MAX_PLAIN_CONNECTIONS_def)
next
  case (plain_next y k ok pc m)
  then show ?case using plain_step_ok [OF assms(2) plain_next.IH plain_next.hyps(2), of ok] by auto
qed

text \<open>
  C21: However the plain workers interleave, the buffers of live sockets are distinct live blocks of the heap, one pair for each
  worker that has a socket, and the heap holds nothing else, so that no iteration of a loop leaks. No step frees a block
  that is not live or that a socket still refers to: the only fault is an allocation that fails, and that one ends the
  program, since no worker ever gets to the branch that waits and tries again.
\<close>

theorem plain_buffers_owned:
  assumes "alloc_fresh alloc" "plain_reachable alloc y"
  shows "distinct (pm_heap (py_mem y)) \<and> mset (pm_heap (py_mem y)) = blocks (all_bufs y)
    \<and> mset (pm_socks (py_mem y)) = mset (all_bufs y) \<and> PwRetry \<notin> set (py_workers y)
    \<and> (\<forall>k ok f. k < MAX_PLAIN_CONNECTIONS \<longrightarrow>
         plain_worker alloc ok (py_workers y ! k) (py_mem y) = Inl f \<longrightarrow> f = AllocFailed)"
proof -
  have inv: "plain_inv y" by (rule plain_reachable_inv [OF assms(2,1)])
  then have "plain_worker alloc ok (py_workers y ! k) (py_mem y) = Inl f \<longrightarrow> f = AllocFailed"
    if "k < MAX_PLAIN_CONNECTIONS" for k ok f
    using plain_step_ok [OF assms(1) inv, of k ok] that by (auto simp: plain_inv_def)
  with inv show ?thesis by (simp add: plain_inv_def mem_ok_def blocks_def mset_map)
qed

definition bump_alloc :: "heap \<Rightarrow> nat option" where
  "bump_alloc h = (if length h < 100 then Some (sum_list h + 7) else None)"

lemma bump_alloc_fresh: "alloc_fresh bump_alloc"
  by (auto simp: alloc_fresh_def bump_alloc_def dest: member_le_sum_list)

text \<open>The first worker accepts, the second starts, and the first ends its connection.\<close>

definition example_plain :: plain_system where
  "example_plain =
     \<lparr>py_workers = [PwAccepting \<lparr>ob_rx = 91, ob_tx = 182\<rparr>, PwAccepting \<lparr>ob_rx = 28, ob_tx = 56\<rparr>] @ replicate 8 PwStart,
      py_mem = \<lparr>pm_heap = [182, 91, 56, 28], pm_socks = [\<lparr>ob_rx = 91, ob_tx = 182\<rparr>, \<lparr>ob_rx = 28, ob_tx = 56\<rparr>]\<rparr>\<rparr>"

lemmas plain_run_defs = plain_worker_def plain_loop_end_def plain_loop_head_def owned_new_def owned_drop_def alloc_box_def
  free_box_def and_then_def non_null_def bump_alloc_def

lemma example_plain_reachable: "plain_reachable bump_alloc example_plain"
proof -
  let ?b = "\<lparr>ob_rx = 7, ob_tx = 14\<rparr>" and ?c = "\<lparr>ob_rx = 28, ob_tx = 56\<rparr>"
  have 0: "plain_runtime = \<lparr>py_workers = PwStart # PwStart # replicate 8 PwStart, py_mem = \<lparr>pm_heap = [], pm_socks = []\<rparr>\<rparr>"
    by (simp add: plain_runtime_def MAX_PLAIN_CONNECTIONS_def numeral_eq_Suc)
  have 1: "plain_reachable bump_alloc \<lparr>py_workers = PwAccepting ?b # PwStart # replicate 8 PwStart,
      py_mem = \<lparr>pm_heap = [14, 7], pm_socks = [?b]\<rparr>\<rparr>"
    using plain_next [OF plain_boot, where k = 0 and alloc = bump_alloc and ok = True] unfolding 0
    by (simp add: plain_run_defs)
  have 2: "plain_reachable bump_alloc \<lparr>py_workers = PwServing ?b # PwStart # replicate 8 PwStart,
      py_mem = \<lparr>pm_heap = [14, 7], pm_socks = [?b]\<rparr>\<rparr>"
    using plain_next [OF 1, where k = 0 and ok = True] by (simp add: plain_run_defs)
  have 3: "plain_reachable bump_alloc \<lparr>py_workers = PwServing ?b # PwAccepting ?c # replicate 8 PwStart,
      py_mem = \<lparr>pm_heap = [56, 28, 14, 7], pm_socks = [?c, ?b]\<rparr>\<rparr>"
    using plain_next [OF 2, where k = 1 and ok = True] by (simp add: plain_run_defs)
  show ?thesis
    using plain_next [OF 3, where k = 0 and ok = True] by (simp add: plain_run_defs example_plain_def)
qed

theorem plain_buffers_owned_witness:
  "mset (pm_heap (py_mem example_plain)) = blocks (all_bufs example_plain) \<and> distinct (pm_heap (py_mem example_plain))
   \<and> length (all_bufs example_plain) = 2"
  using plain_buffers_owned [OF bump_alloc_fresh example_plain_reachable]
  by (simp add: example_plain_def all_bufs_def)

end
