(* ===== verification/Spin_Mutex.thy ===== *)
theory Spin_Mutex
  imports Prelude
begin

text \<open>
  The spinning \<open>Mutex\<close> of the vendored crate \<open>spin\<close>,
  \<^verbatim>\<open>examples/esp32c3_mqtt_server/vendor/spin-0.5.2/src/mutex.rs\<close>. Threads interleave at the granularity of
  single atomic operations, and a thread's access to the protected data is not atomic: it reads in one step and writes in
  another. Each lock is one atomic cell, on which all threads agree about the order of the
  operations; the acquire and release orderings then order the data accesses the same way. The program counters of the
  threads are a list.
\<close>

section \<open>Atomic cells\<close>

text \<open>
  \<open>compare_exchange\<close> on the contents of a cell: the previous value, and whether it was exchanged. The weak form may
  fail spuriously, by \<open>spurious\<close>.
\<close>

definition compare_exchange :: "'a \<Rightarrow> 'a \<Rightarrow> 'a \<Rightarrow> ('a + 'a) \<times> 'a" where
  "compare_exchange current new v = (if v = current then (Inr v, new) else (Inl v, v))"

definition compare_exchange_weak :: "bool \<Rightarrow> 'a \<Rightarrow> 'a \<Rightarrow> 'a \<Rightarrow> ('a + 'a) \<times> 'a" where
  "compare_exchange_weak spurious current new v = (if spurious then (Inl v, v) else compare_exchange current new v)"

lemmas exchange_defs = compare_exchange_def compare_exchange_weak_def

section \<open>Mutex\<close>

text \<open>
  Where a thread is: outside, about to try in \<open>obtain_lock\<close>, in its inner loop, or with a guard, where it may have
  read the data.
\<close>

datatype 'a mutex_pc = MOut | MTry | MSpin | MGuard "'a option"

record 'a mutex =
  mx_lock :: bool
  mx_data :: 'a
  mx_threads :: "'a mutex_pc list"

definition mutex_new :: "'a \<Rightarrow> nat \<Rightarrow> 'a mutex" where
  "mutex_new user_data n = \<lparr>mx_lock = False, mx_data = user_data, mx_threads = replicate n MOut\<rparr>"

definition mx_goto :: "nat \<Rightarrow> 'a mutex_pc \<Rightarrow> 'a mutex \<Rightarrow> 'a mutex" where
  "mx_goto i pc m = m\<lparr>mx_threads := (mx_threads m)[i := pc]\<rparr>"

definition obtain_lock :: "bool \<Rightarrow> nat \<Rightarrow> 'a mutex \<Rightarrow> 'a mutex" where
  "obtain_lock spurious i m =
     (case mx_threads m ! i of
        MTry \<Rightarrow>
          (case compare_exchange_weak spurious False True (mx_lock m) of
             (Inr _, l) \<Rightarrow> mx_goto i (MGuard None) (m\<lparr>mx_lock := l\<rparr>)
           | (Inl _, l) \<Rightarrow> mx_goto i MSpin (m\<lparr>mx_lock := l\<rparr>))
      | MSpin \<Rightarrow> if mx_lock m then m else mx_goto i MTry m
      | _ \<Rightarrow> m)"

definition mutex_try_lock :: "nat \<Rightarrow> 'a mutex \<Rightarrow> 'a mutex" where
  "mutex_try_lock i m =
     (case compare_exchange False True (mx_lock m) of
        (Inr _, l) \<Rightarrow> mx_goto i (MGuard None) (m\<lparr>mx_lock := l\<rparr>)
      | (Inl _, l) \<Rightarrow> mx_goto i MOut (m\<lparr>mx_lock := l\<rparr>))"

definition guard_drop :: "nat \<Rightarrow> 'a mutex \<Rightarrow> 'a mutex" where
  "guard_drop i m = mx_goto i MOut (m\<lparr>mx_lock := False\<rparr>)"

definition force_unlock :: "'a mutex \<Rightarrow> 'a mutex" where
  "force_unlock m = m\<lparr>mx_lock := False\<rparr>"

text \<open>
  The guard's \<open>deref\<close> and \<open>deref_mut\<close> for a thread that replaces the data by \<open>f\<close> of what it read. The
  second component counts the completed updates. A thread that forgets its guard may release it with
  \<open>force_unlock\<close>.
\<close>

inductive mutex_step :: "('a \<Rightarrow> 'a) \<Rightarrow> 'a mutex \<times> nat \<Rightarrow> 'a mutex \<times> nat \<Rightarrow> bool" for f where
  mutex_lock: "i < length (mx_threads m) \<Longrightarrow> mx_threads m ! i = MOut \<Longrightarrow> mutex_step f (m, c) (mx_goto i MTry m, c)"
| mutex_obtain: "i < length (mx_threads m) \<Longrightarrow> mx_threads m ! i \<in> {MTry, MSpin} \<Longrightarrow>
    mutex_step f (m, c) (obtain_lock spurious i m, c)"
| mutex_try: "i < length (mx_threads m) \<Longrightarrow> mx_threads m ! i = MOut \<Longrightarrow> mutex_step f (m, c) (mutex_try_lock i m, c)"
| mutex_read: "i < length (mx_threads m) \<Longrightarrow> mx_threads m ! i = MGuard None \<Longrightarrow>
    mutex_step f (m, c) (mx_goto i (MGuard (Some (mx_data m))) m, c)"
| mutex_write: "i < length (mx_threads m) \<Longrightarrow> mx_threads m ! i = MGuard (Some v) \<Longrightarrow>
    mutex_step f (m, c) (mx_goto i (MGuard None) (m\<lparr>mx_data := f v\<rparr>), Suc c)"
| mutex_unlock: "i < length (mx_threads m) \<Longrightarrow> mx_threads m ! i = MGuard v \<Longrightarrow> mutex_step f (m, c) (guard_drop i m, c)"
| mutex_force: "i < length (mx_threads m) \<Longrightarrow> mx_threads m ! i = MGuard v \<Longrightarrow>
    mutex_step f (m, c) (mx_goto i MOut (force_unlock m), c)"

definition has_guard :: "'a mutex \<Rightarrow> nat \<Rightarrow> bool" where
  "has_guard m i \<longleftrightarrow> i < length (mx_threads m) \<and> (\<exists>v. mx_threads m ! i = MGuard v)"

definition mutex_inv :: "('a \<Rightarrow> 'a) \<Rightarrow> 'a \<Rightarrow> 'a mutex \<times> nat \<Rightarrow> bool" where
  "mutex_inv f d mc \<longleftrightarrow>
     (\<forall>i j. has_guard (fst mc) i \<longrightarrow> has_guard (fst mc) j \<longrightarrow> i = j)
     \<and> (mx_lock (fst mc) \<longleftrightarrow> (\<exists>i. has_guard (fst mc) i))
     \<and> (\<forall>i v. i < length (mx_threads (fst mc)) \<longrightarrow> mx_threads (fst mc) ! i = MGuard (Some v) \<longrightarrow> v = mx_data (fst mc))
     \<and> mx_data (fst mc) = (f ^^ snd mc) d"

lemma mx_goto_simps [simp]:
  "mx_lock (mx_goto i pc m) = mx_lock m"
  "mx_data (mx_goto i pc m) = mx_data m"
  "mx_threads (mx_goto i pc m) = (mx_threads m)[i := pc]"
  by (simp_all add: mx_goto_def)

lemma has_guard_goto:
  "i < length (mx_threads m) \<Longrightarrow>
   has_guard (mx_goto i pc m) j \<longleftrightarrow> (if j = i then \<exists>v. pc = MGuard v else has_guard m j)"
  by (auto simp: has_guard_def nth_list_update)

lemma has_guard_update [simp]:
  "has_guard (m\<lparr>mx_lock := l\<rparr>) = has_guard m" "has_guard (m\<lparr>mx_data := x\<rparr>) = has_guard m"
  by (simp_all add: has_guard_def fun_eq_iff)

lemma lock_same [simp]: "mx_lock m = l \<Longrightarrow> m\<lparr>mx_lock := l\<rparr> = m"
  by auto

lemma mutex_inv_init: "mutex_inv f d (mutex_new d n, 0)"
  by (auto simp: mutex_inv_def mutex_new_def has_guard_def)

text \<open>A step that leaves the lock alone, and moves a thread between places without a guard.\<close>

lemma mutex_inv_outside:
  assumes "mutex_inv f d (m, c)" "i < length (mx_threads m)" "\<not> has_guard m i" "\<forall>v. pc \<noteq> MGuard v"
  shows "mutex_inv f d (mx_goto i pc m, c)"
  using assms by (auto simp: mutex_inv_def has_guard_goto nth_list_update)

lemma mutex_inv_enter:
  assumes "mutex_inv f d (m, c)" "i < length (mx_threads m)" "\<not> mx_lock m"
  shows "mutex_inv f d (mx_goto i (MGuard None) (m\<lparr>mx_lock := True\<rparr>), c)"
  using assms by (auto simp: mutex_inv_def has_guard_goto nth_list_update)

lemma mutex_inv_leave:
  assumes "mutex_inv f d (m, c)" "has_guard m i"
  shows "mutex_inv f d (guard_drop i m, c)"
proof -
  have "i < length (mx_threads m)"
    using assms(2) by (simp add: has_guard_def)
  with assms show ?thesis
    by (auto simp: mutex_inv_def guard_drop_def has_guard_goto nth_list_update)
qed

lemma mutex_step_inv:
  assumes "mutex_step f mc mc'" "mutex_inv f d mc"
  shows "mutex_inv f d mc'"
  using assms
proof (induction rule: mutex_step.induct)
  case (mutex_lock i m c)
  then show ?case
    by (intro mutex_inv_outside) (simp_all add: has_guard_def)
next
  case (mutex_obtain i m c spurious)
  then have outside: "\<not> has_guard m i"
    by (auto simp: has_guard_def)
  from mutex_obtain outside show ?case
    by (auto simp: obtain_lock_def exchange_defs intro!: mutex_inv_outside mutex_inv_enter)
next
  case (mutex_try i m c)
  then show ?case
    by (auto simp: mutex_try_lock_def exchange_defs has_guard_def intro!: mutex_inv_outside mutex_inv_enter)
next
  case (mutex_read i m c)
  then show ?case
    by (auto simp: mutex_inv_def has_guard_goto nth_list_update has_guard_def)
next
  case (mutex_write i m v c)
  then show ?case
    by (auto simp: mutex_inv_def has_guard_goto nth_list_update) (auto simp: has_guard_def)
next
  case (mutex_unlock i m v c)
  then show ?case
    by (intro mutex_inv_leave) (simp_all add: has_guard_def)
next
  case (mutex_force i m v c)
  then show ?case
    using mutex_inv_leave [of f d m c i] by (simp add: has_guard_def guard_drop_def force_unlock_def)
qed

lemma mutex_reachable_inv:
  assumes "(mutex_step f)\<^sup>*\<^sup>* (mutex_new d n, 0) mc"
  shows "mutex_inv f d mc"
  using assms by (induction rule: rtranclp_induct) (auto intro: mutex_inv_init mutex_step_inv)

text \<open>
  C16: at every point of every interleaving of threads that lock, try to lock, read, write and unlock, at most one
  thread has a guard, the lock is set exactly while one has, and no update is lost: the data is what the completed
  read-then-write updates make of the initial value one after the other. While no thread has a guard, a thread in
  \<open>obtain_lock\<close> gets it with its next compare-exchange that does not fail spuriously.
\<close>

theorem mutex_excludes:
  assumes "(mutex_step f)\<^sup>*\<^sup>* (mutex_new d n, 0) (m, c)"
  shows "(has_guard m i \<and> has_guard m j \<longrightarrow> i = j)
         \<and> (mx_lock m \<longleftrightarrow> (\<exists>k. has_guard m k))
         \<and> mx_data m = (f ^^ c) d
         \<and> ((\<nexists>k. has_guard m k) \<and> i < length (mx_threads m) \<and> mx_threads m ! i = MTry
              \<longrightarrow> has_guard (obtain_lock False i m) i)"
proof -
  have inv: "mutex_inv f d (m, c)"
    using assms by (rule mutex_reachable_inv)
  have "has_guard (obtain_lock False i m) i"
    if "\<nexists>k. has_guard m k" "i < length (mx_threads m)" "mx_threads m ! i = MTry"
    using that inv by (auto simp: mutex_inv_def obtain_lock_def exchange_defs has_guard_goto)
  with inv show ?thesis
    by (simp add: mutex_inv_def)
qed

text \<open>Two threads: one takes the lock with \<open>try_lock\<close> and increments, while the other starts to lock.\<close>

definition mutex_example :: "nat mutex" where
  "mutex_example = \<lparr>mx_lock = True, mx_data = 6, mx_threads = [MGuard None, MSpin]\<rparr>"

lemma mutex_example_reachable: "(mutex_step Suc)\<^sup>*\<^sup>* (mutex_new 5 2, 0) (mutex_example, 1)"
proof -
  let ?s = "\<lambda>l d a b. \<lparr>mx_lock = l, mx_data = d, mx_threads = [a, b]\<rparr> :: nat mutex"
  have start: "mutex_new 5 2 = ?s False 5 MOut MOut"
    by (simp add: mutex_new_def numeral_2_eq_2)
  have "mutex_step Suc (?s False 5 MOut MOut, 0) (?s True 5 (MGuard None) MOut, 0)"
    using mutex_try [of 0 "?s False 5 MOut MOut"] by (simp add: mutex_try_lock_def exchange_defs mx_goto_def)
  moreover have "mutex_step Suc (?s True 5 (MGuard None) MOut, 0) (?s True 5 (MGuard (Some 5)) MOut, 0)"
    using mutex_read [of 0 "?s True 5 (MGuard None) MOut"] by (simp add: mx_goto_def)
  moreover have "mutex_step Suc (?s True 5 (MGuard (Some 5)) MOut, 0) (?s True 5 (MGuard (Some 5)) MTry, 0)"
    using mutex_lock [of 1 "?s True 5 (MGuard (Some 5)) MOut"] by (simp add: mx_goto_def)
  moreover have "mutex_step Suc (?s True 5 (MGuard (Some 5)) MTry, 0) (?s True 5 (MGuard (Some 5)) MSpin, 0)"
    using mutex_obtain [of 1 "?s True 5 (MGuard (Some 5)) MTry" Suc 0 False]
    by (simp add: mx_goto_def obtain_lock_def exchange_defs)
  moreover have "mutex_step Suc (?s True 5 (MGuard (Some 5)) MSpin, 0) (mutex_example, 1)"
    using mutex_write [of 0 "?s True 5 (MGuard (Some 5)) MSpin" 5 Suc 0]
    by (simp add: mx_goto_def mutex_example_def)
  ultimately show ?thesis
    unfolding start by (meson rtranclp.rtrancl_into_rtrancl rtranclp.rtrancl_refl)
qed

theorem mutex_excludes_witness:
  "(mutex_step Suc)\<^sup>*\<^sup>* (mutex_new 5 2, 0) (mutex_example, 1)
   \<and> has_guard mutex_example 0 \<and> \<not> has_guard mutex_example 1 \<and> mx_data mutex_example = (Suc ^^ 1) 5"
proof -
  have reach: "(mutex_step Suc)\<^sup>*\<^sup>* (mutex_new 5 2, 0) (mutex_example, 1)"
    by (rule mutex_example_reachable)
  have "has_guard mutex_example 0"
    by (simp add: has_guard_def mutex_example_def)
  with reach mutex_excludes [OF reach, of 0 1] show ?thesis
    by auto
qed

end
