(* ===== verification/Spin_Once.thy ===== *)
theory Spin_Once
  imports Spin_Mutex
begin

text \<open>
  The one-time initialisation cell \<open>Once\<close> of the vendored crate \<open>spin\<close>,
  \<^verbatim>\<open>examples/esp32c3_mqtt_server/vendor/spin-0.5.2/src/once.rs\<close>, for threads interleaving at its atomic
  operations: each runs \<open>call_once\<close>, \<open>try\<close> or \<open>wait\<close>, and its builder may panic. No interleaving runs two
  builders, returns two values, or reaches one of the branches the code declares unreachable.
\<close>

definition INCOMPLETE :: nat where "INCOMPLETE = 0"
definition RUNNING :: nat where "RUNNING = 1"
definition COMPLETE :: nat where "COMPLETE = 2"
definition PANICKED :: nat where "PANICKED = 3"

lemmas once_states = INCOMPLETE_def RUNNING_def COMPLETE_def PANICKED_def

text \<open>
  Where a thread is: before its call, before the compare-exchange, in its builder with the \<open>Finish\<close> guard armed,
  after the builder, in the loop of \<open>call_once\<close> with the status it holds, in the loop of \<open>wait\<close>; returned from
  \<open>call_once\<close>, or from \<open>try\<close> and \<open>wait\<close>, panicked, or in a branch that must not be reached.
\<close>

datatype 'a once_pc =
    OIdle | OCas | OBuild | OStore | OLoop nat | OWait
  | OGot 'a | OTried "'a option" | OPanic | OUnreachable

record 'a once =
  on_state :: nat
  on_data :: "'a option"
  on_threads :: "'a once_pc list"

definition once_new :: "nat \<Rightarrow> 'a once" where
  "once_new n = \<lparr>on_state = INCOMPLETE, on_data = None, on_threads = replicate n OIdle\<rparr>"

definition on_goto :: "nat \<Rightarrow> 'a once_pc \<Rightarrow> 'a once \<Rightarrow> 'a once" where
  "on_goto i pc s = s\<lparr>on_threads := (on_threads s)[i := pc]\<rparr>"

definition force_get :: "'a once \<Rightarrow> ('a \<Rightarrow> 'a once_pc) \<Rightarrow> 'a once_pc" where
  "force_get s ret = (case on_data s of None \<Rightarrow> OUnreachable | Some p \<Rightarrow> ret p)"

definition finish_drop :: "bool \<Rightarrow> 'a once \<Rightarrow> 'a once" where
  "finish_drop panicked s = (if panicked then s\<lparr>on_state := PANICKED\<rparr> else s)"

text \<open>The next atomic step of thread \<open>i\<close> in \<open>call_once\<close>; \<open>built\<close> is what its builder returns, \<open>None\<close> a panic.\<close>

definition call_once :: "'a option \<Rightarrow> nat \<Rightarrow> 'a once \<Rightarrow> 'a once" where
  "call_once built i s =
     (case on_threads s ! i of
        OIdle \<Rightarrow> on_goto i (if on_state s = INCOMPLETE then OCas else OLoop (on_state s)) s
      | OCas \<Rightarrow>
          (case compare_exchange INCOMPLETE RUNNING (on_state s) of
             (previous, st) \<Rightarrow>
               let status = (case previous of Inl p \<Rightarrow> p | Inr p \<Rightarrow> p)
               in on_goto i (if status = INCOMPLETE then OBuild else OLoop status) (s\<lparr>on_state := st\<rparr>))
      | OBuild \<Rightarrow>
          (case built of
             None \<Rightarrow> on_goto i OPanic (finish_drop True s)
           | Some v \<Rightarrow> on_goto i OStore (s\<lparr>on_data := Some v\<rparr>))
      | OStore \<Rightarrow> on_goto i (force_get s OGot) (finish_drop False (s\<lparr>on_state := COMPLETE\<rparr>))
      | OLoop status \<Rightarrow>
          on_goto i
            (if status = INCOMPLETE then OUnreachable
             else if status = RUNNING then OLoop (on_state s)
             else if status = PANICKED then OPanic
             else if status = COMPLETE then force_get s OGot
             else OUnreachable) s
      | _ \<Rightarrow> s)"

definition once_try :: "nat \<Rightarrow> 'a once \<Rightarrow> 'a once" where
  "once_try i s =
     on_goto i (if on_state s = COMPLETE then force_get s (\<lambda>p. OTried (Some p)) else OTried None) s"

definition once_wait :: "nat \<Rightarrow> 'a once \<Rightarrow> 'a once" where
  "once_wait i s =
     on_goto i
       (if on_state s = INCOMPLETE then OTried None
        else if on_state s = RUNNING then OWait
        else if on_state s = COMPLETE then force_get s (\<lambda>p. OTried (Some p))
        else if on_state s = PANICKED then OPanic
        else OUnreachable) s"

text \<open>The interleavings, with the number of builders started so far.\<close>

inductive once_step :: "'a once \<times> nat \<Rightarrow> 'a once \<times> nat \<Rightarrow> bool" where
  once_call: "i < length (on_threads s) \<Longrightarrow> on_threads s ! i \<in> {OIdle, OCas, OBuild, OStore} \<union> range OLoop \<Longrightarrow>
    s' = call_once built i s \<Longrightarrow>
    once_step (s, c) (s', if on_threads s ! i = OCas \<and> on_threads s' ! i = OBuild then Suc c else c)"
| once_try: "i < length (on_threads s) \<Longrightarrow> on_threads s ! i = OIdle \<Longrightarrow> once_step (s, c) (once_try i s, c)"
| once_wait: "i < length (on_threads s) \<Longrightarrow> on_threads s ! i \<in> {OIdle, OWait} \<Longrightarrow> once_step (s, c) (once_wait i s, c)"

section \<open>The invariant\<close>

fun once_pc_ok :: "nat \<Rightarrow> 'a option \<Rightarrow> 'a once_pc \<Rightarrow> bool" where
  "once_pc_ok st d OBuild \<longleftrightarrow> st = RUNNING"
| "once_pc_ok st d OStore \<longleftrightarrow> st = RUNNING \<and> d \<noteq> None"
| "once_pc_ok st d (OLoop s) \<longleftrightarrow> st \<noteq> INCOMPLETE \<and> (s = RUNNING \<or> s = st)"
| "once_pc_ok st d (OGot v) \<longleftrightarrow> st = COMPLETE \<and> d = Some v"
| "once_pc_ok st d (OTried (Some v)) \<longleftrightarrow> st = COMPLETE \<and> d = Some v"
| "once_pc_ok st d OPanic \<longleftrightarrow> st = PANICKED"
| "once_pc_ok st d OUnreachable \<longleftrightarrow> False"
| "once_pc_ok st d _ \<longleftrightarrow> True"

lemma once_states_distinct [simp]:
  "INCOMPLETE \<noteq> RUNNING" "INCOMPLETE \<noteq> COMPLETE" "INCOMPLETE \<noteq> PANICKED"
  "RUNNING \<noteq> INCOMPLETE" "RUNNING \<noteq> COMPLETE" "RUNNING \<noteq> PANICKED"
  "COMPLETE \<noteq> INCOMPLETE" "COMPLETE \<noteq> RUNNING" "COMPLETE \<noteq> PANICKED"
  "PANICKED \<noteq> INCOMPLETE" "PANICKED \<noteq> RUNNING" "PANICKED \<noteq> COMPLETE"
  by (simp_all add: once_states)

definition building :: "'a once_pc \<Rightarrow> bool" where
  "building pc \<longleftrightarrow> pc = OBuild \<or> pc = OStore"

definition once_inv :: "'a once \<times> nat \<Rightarrow> bool" where
  "once_inv sc \<longleftrightarrow>
     (\<forall>i < length (on_threads (fst sc)). once_pc_ok (on_state (fst sc)) (on_data (fst sc)) (on_threads (fst sc) ! i))
     \<and> (\<forall>i j. i < length (on_threads (fst sc)) \<longrightarrow> j < length (on_threads (fst sc)) \<longrightarrow>
          building (on_threads (fst sc) ! i) \<longrightarrow> building (on_threads (fst sc) ! j) \<longrightarrow> i = j)
     \<and> on_state (fst sc) \<in> {INCOMPLETE, RUNNING, COMPLETE, PANICKED}
     \<and> (on_state (fst sc) = COMPLETE \<longrightarrow> on_data (fst sc) \<noteq> None)
     \<and> snd sc = (if on_state (fst sc) = INCOMPLETE then 0 else 1)"

lemma on_goto_simps [simp]:
  "on_state (on_goto i pc s) = on_state s"
  "on_data (on_goto i pc s) = on_data s"
  "on_threads (on_goto i pc s) = (on_threads s)[i := pc]"
  by (simp_all add: on_goto_def)

lemma on_same [simp]:
  "on_state s = st \<Longrightarrow> s\<lparr>on_state := st, on_data := d\<rparr> = s\<lparr>on_data := d\<rparr>"
  "on_data s = d \<Longrightarrow> s\<lparr>on_state := st, on_data := d\<rparr> = s\<lparr>on_state := st\<rparr>"
  "on_state s = st \<Longrightarrow> s\<lparr>on_state := st\<rparr> = s"
  by auto

lemma once_inv_init: "once_inv (once_new n, 0)"
  by (auto simp: once_inv_def once_new_def building_def)

text \<open>A step of one thread that changes neither the state nor the data.\<close>

lemma once_inv_goto:
  assumes "once_inv (s, c)" "once_pc_ok (on_state s) (on_data s) pc" "building pc \<longrightarrow> building (on_threads s ! i)"
  shows "once_inv (on_goto i pc s, c)"
proof (cases "i < length (on_threads s)")
  case True
  with assms show ?thesis
    unfolding once_inv_def by (auto simp: nth_list_update)
next
  case False
  with assms(1) show ?thesis
    by (simp add: on_goto_def list_update_beyond)
qed

lemma once_inv_pc: "once_inv (s, c) \<Longrightarrow> i < length (on_threads s) \<Longrightarrow> once_pc_ok (on_state s) (on_data s) (on_threads s ! i)"
  by (simp add: once_inv_def)

text \<open>
  Until the cell is settled, no other thread depends on its state or data: the one thread that holds the initialisation
  may change both.
\<close>

lemma once_pc_ok_settle:
  assumes "once_pc_ok st d pc" "st = INCOMPLETE \<or> st = RUNNING" "\<not> building pc" "st' \<noteq> INCOMPLETE"
  shows "once_pc_ok st' d' pc"
proof (cases "(st, d, pc)" rule: once_pc_ok.cases)
qed (use assms in \<open>auto simp: building_def\<close>)

lemma once_inv_settle:
  assumes inv: "once_inv (s, c)" and i: "i < length (on_threads s)"
    and open_state: "on_state s = INCOMPLETE \<or> on_state s = RUNNING \<and> building (on_threads s ! i)"
    and st': "st' \<in> {RUNNING, COMPLETE, PANICKED}" and pc: "once_pc_ok st' d' pc" and d': "st' = COMPLETE \<longrightarrow> d' \<noteq> None"
  shows "once_inv (on_goto i pc (s\<lparr>on_state := st', on_data := d'\<rparr>), 1)"
proof -
  have idle: "\<not> building (on_threads s ! j)" if "j < length (on_threads s)" "j \<noteq> i" for j
  proof
    assume b: "building (on_threads s ! j)"
    with once_inv_pc [OF inv that(1)] have "on_state s = RUNNING"
      by (auto simp: building_def)
    with open_state b inv that i show False
      by (auto simp: once_inv_def)
  qed
  have "once_pc_ok st' d' (on_threads s ! j)" if "j < length (on_threads s)" "j \<noteq> i" for j
    using once_pc_ok_settle [OF once_inv_pc [OF inv that(1)] _ idle [OF that]] open_state st' by auto
  with idle pc st' d' i show ?thesis
    unfolding once_inv_def by (auto simp: nth_list_update)
qed

lemma once_inv_count:
  "once_inv (s, c) \<Longrightarrow> on_state s = RUNNING \<Longrightarrow> c = 1"
  "once_inv (s, c) \<Longrightarrow> on_state s = INCOMPLETE \<Longrightarrow> c = 0"
  by (simp_all add: once_inv_def)

lemma force_get_ok:
  "once_inv (s, c) \<Longrightarrow> on_state s = COMPLETE \<Longrightarrow> ret = OGot \<or> ret = (\<lambda>p. OTried (Some p)) \<Longrightarrow>
   once_pc_ok (on_state s) (on_data s) (force_get s ret) \<and> \<not> building (force_get s ret)"
  by (auto simp: once_inv_def force_get_def building_def split: option.split)

lemma call_once_inv:
  assumes inv: "once_inv (s, c)" and i: "i < length (on_threads s)"
  shows "once_inv (call_once built i s,
           if on_threads s ! i = OCas \<and> on_threads (call_once built i s) ! i = OBuild then Suc c else c)"
proof (cases "on_threads s ! i")
  case OIdle
  then show ?thesis
    by (auto simp: call_once_def building_def intro!: once_inv_goto inv)
next
  case OCas
  show ?thesis
  proof (cases "on_state s = INCOMPLETE")
    case True
    with OCas i once_inv_count(2) [OF inv]
      once_inv_settle [OF inv i, of RUNNING "on_data s" OBuild]
    show ?thesis
      by (simp add: call_once_def compare_exchange_def)
  next
    case False
    with OCas i show ?thesis
      by (auto simp: call_once_def compare_exchange_def building_def intro!: once_inv_goto inv)
  qed
next
  case OBuild
  then have "on_state s = RUNNING"
    using once_inv_pc [OF inv i] by simp
  with OBuild once_inv_count(1) [OF inv] show ?thesis
    using once_inv_settle [OF inv i, of PANICKED "on_data s" OPanic]
      once_inv_settle [OF inv i, of RUNNING built OStore]
    by (auto simp: call_once_def finish_drop_def building_def split: option.split)
next
  case OStore
  then obtain v where "on_state s = RUNNING" "on_data s = Some v"
    using once_inv_pc [OF inv i] by auto
  with OStore once_inv_count(1) [OF inv] show ?thesis
    using once_inv_settle [OF inv i, of COMPLETE "Some v" "OGot v"]
    by (simp add: call_once_def finish_drop_def force_get_def building_def)
next
  case (OLoop status)
  then have "on_state s \<noteq> INCOMPLETE" "status = RUNNING \<or> status = on_state s"
    using once_inv_pc [OF inv i] by auto
  moreover have "on_state s \<in> {INCOMPLETE, RUNNING, COMPLETE, PANICKED}"
    using inv by (simp add: once_inv_def)
  ultimately consider "status = RUNNING" "on_state s \<noteq> INCOMPLETE" | "status = COMPLETE" "on_state s = COMPLETE"
    | "status = PANICKED" "on_state s = PANICKED"
    by blast
  then show ?thesis
  proof cases
    case 2
    with OLoop force_get_ok [OF inv, of OGot] show ?thesis
      by (simp add: call_once_def) (rule once_inv_goto [OF inv]; simp)
  qed (use OLoop in \<open>simp_all add: call_once_def building_def once_inv_goto [OF inv]\<close>)
qed (simp_all add: call_once_def inv)

lemma once_step_inv:
  assumes "once_step sc sc'" "once_inv sc"
  shows "once_inv sc'"
  using assms
proof (induction rule: once_step.induct)
  case (once_call i s s' built c)
  then show ?case
    using call_once_inv by blast
next
  case (once_try i s c)
  then show ?case
    using force_get_ok [of s c "\<lambda>p. OTried (Some p)"] once_inv_goto [of s c]
    by (simp add: once_try_def building_def)
next
  case (once_wait i s c)
  moreover from this have "on_state s \<in> {INCOMPLETE, RUNNING, COMPLETE, PANICKED}"
    by (simp add: once_inv_def)
  ultimately show ?case
    using force_get_ok [of s c "\<lambda>p. OTried (Some p)"] once_inv_goto [of s c]
    by (auto simp: once_wait_def building_def)
qed

lemma once_reachable_inv:
  assumes "once_step\<^sup>*\<^sup>* (once_new n, 0) sc"
  shows "once_inv sc"
  using assms by (induction rule: rtranclp_induct) (auto intro: once_inv_init once_step_inv)

text \<open>
  C17: however \<open>n\<close> threads interleave in \<open>call_once\<close>, \<open>try\<close> and \<open>wait\<close>, and whether or not the builder
  panics: at most one builder is ever started, no branch marked unreachable is reached, every thread that returns a value
  returns the one stored, a thread panics out of the cell only when the builder did, and once the cell is complete a thread
  still in the loop of \<open>call_once\<close> returns within two of its own steps.
\<close>

theorem once_initialises_once:
  assumes "once_step\<^sup>*\<^sup>* (once_new n, 0) (s, c)" "i < length (on_threads s)"
  shows "c \<le> 1 \<and> on_threads s ! i \<noteq> OUnreachable
         \<and> (on_threads s ! i = OGot v \<or> on_threads s ! i = OTried (Some v) \<longrightarrow> on_data s = Some v)
         \<and> (on_threads s ! i = OPanic \<longrightarrow> on_state s = PANICKED)
         \<and> (on_state s = COMPLETE \<and> on_threads s ! i = OLoop st \<longrightarrow>
              (\<exists>w. on_threads (call_once b' i (call_once b i s)) ! i = OGot w \<and> on_data s = Some w))"
proof -
  have inv: "once_inv (s, c)"
    using assms(1) by (rule once_reachable_inv)
  have pc: "once_pc_ok (on_state s) (on_data s) (on_threads s ! i)"
    using inv assms(2) by (rule once_inv_pc)
  have "\<exists>w. on_threads (call_once b' i (call_once b i s)) ! i = OGot w \<and> on_data s = Some w"
    if "on_state s = COMPLETE" "on_threads s ! i = OLoop st"
    using that pc inv assms(2) by (auto simp: call_once_def force_get_def once_inv_def)
  moreover have "c \<le> 1"
    using inv by (simp add: once_inv_def)
  ultimately show ?thesis
    using pc by auto
qed

text \<open>Two threads race to the compare-exchange; the second one loses and waits for the first.\<close>

definition once_example :: "nat once" where
  "once_example = \<lparr>on_state = COMPLETE, on_data = Some 7, on_threads = [OGot 7, OLoop RUNNING]\<rparr>"

lemma once_example_reachable: "once_step\<^sup>*\<^sup>* (once_new 2, 0) (once_example, 1)"
proof -
  let ?s = "\<lambda>st d a b. \<lparr>on_state = st, on_data = d, on_threads = [a, b]\<rparr> :: nat once"
  note call = once_call [OF _ _ refl]
  have start: "once_new 2 = ?s INCOMPLETE None OIdle OIdle"
    by (simp add: once_new_def numeral_2_eq_2)
  have "once_step (?s INCOMPLETE None OIdle OIdle, 0) (?s INCOMPLETE None OCas OIdle, 0)"
    using call [of 0 "?s INCOMPLETE None OIdle OIdle"] by (simp add: call_once_def on_goto_def)
  moreover have "once_step (?s INCOMPLETE None OCas OIdle, 0) (?s INCOMPLETE None OCas OCas, 0)"
    using call [of 1 "?s INCOMPLETE None OCas OIdle"] by (simp add: call_once_def on_goto_def)
  moreover have "once_step (?s INCOMPLETE None OCas OCas, 0) (?s RUNNING None OBuild OCas, 1)"
    using call [of 0 "?s INCOMPLETE None OCas OCas" 0] by (simp add: call_once_def on_goto_def compare_exchange_def)
  moreover have "once_step (?s RUNNING None OBuild OCas, 1) (?s RUNNING None OBuild (OLoop RUNNING), 1)"
    using call [of 1 "?s RUNNING None OBuild OCas"] by (simp add: call_once_def on_goto_def compare_exchange_def)
  moreover have "once_step (?s RUNNING None OBuild (OLoop RUNNING), 1) (?s RUNNING (Some 7) OStore (OLoop RUNNING), 1)"
    using call [of 0 "?s RUNNING None OBuild (OLoop RUNNING)" 1 "Some 7"] by (simp add: call_once_def on_goto_def)
  moreover have "once_step (?s RUNNING (Some 7) OStore (OLoop RUNNING), 1) (once_example, 1)"
    using call [of 0 "?s RUNNING (Some 7) OStore (OLoop RUNNING)"]
    by (simp add: call_once_def on_goto_def finish_drop_def force_get_def once_example_def)
  ultimately show ?thesis
    unfolding start by (meson rtranclp.rtrancl_into_rtrancl rtranclp.rtrancl_refl)
qed

theorem once_initialises_once_witness:
  "once_step\<^sup>*\<^sup>* (once_new 2, 0) (once_example, 1) \<and> on_threads once_example ! 1 = OLoop RUNNING
   \<and> on_threads (call_once None 1 (call_once None 1 once_example)) ! 1 = OGot 7"
proof -
  have i: "1 < length (on_threads once_example)"
    by (simp add: once_example_def)
  show ?thesis
    using once_initialises_once [OF once_example_reachable i, of 7 RUNNING None None] once_example_reachable
    by (auto simp: once_example_def)
qed

end
