(* ===== verification/Spin_Rwlock.thy ===== *)
theory Spin_Rwlock
  imports Spin_Mutex
begin

unbundle bit_operations_syntax

text \<open>
  The readers-writer lock with upgradeable guards of the vendored crate \<open>spin\<close>,
  \<^verbatim>\<open>examples/esp32c3_mqtt_server/vendor/spin-0.5.2/src/rw_lock.rs\<close>. The lock is one word of the 32-bit target:
  bit 0 is the writer's, bit 1 the upgradeable guard's, and the rest counts readers, including those that have added
  themselves and are about to take it back because the lock was taken. Threads interleave at the atomic operations. The
  invariant ties the bits of the word to the guards the threads have.
\<close>

section \<open>The word\<close>

definition READER :: u32 where "READER = push_bit 2 1"
definition UPGRADED :: u32 where "UPGRADED = push_bit 1 1"
definition WRITER :: u32 where "WRITER = 1"

lemma rw_bits [simp]: "READER = 4" "UPGRADED = 2" "WRITER = 1"
  by (simp_all add: READER_def UPGRADED_def WRITER_def push_bit_eq_mult)

lemma rw_mask [simp]: "(1 OR 2 :: u32) = 3"
  by simp

lemma unat_and_3: "unat (v AND 3 :: u32) = unat v mod 4"
proof -
  have "unat v AND mask 2 = unat v mod 4"
    by (simp only: take_bit_eq_mask [symmetric] take_bit_eq_mod) simp
  then show ?thesis
    by (simp add: unsigned_and_eq mask_eq_exp_minus_1)
qed

lemma unat_and_1: "unat (v AND 1 :: u32) = unat v mod 2"
  by (simp add: and_one_eq unat_mod)

lemma unat_and_not: "unat (v AND NOT k :: u32) = unat v - unat (v AND k)"
proof -
  have "(v AND NOT k) + (v AND k) = (v AND NOT k) OR (v AND k)"
    by (rule disjunctive_add_eq_or) (simp add: bit_eq_iff bit_simps)
  also have "\<dots> = v"
    by (rule bit_eqI) (auto simp: bit_simps)
  finally have "v AND NOT k = v - (v AND k)"
    by (simp add: eq_diff_eq)
  moreover have "v AND k \<le> v"
    by (rule word_and_le2)
  ultimately show ?thesis
    by (simp add: unat_sub)
qed

lemma unat_and_not_3: "unat (v AND - 4 :: u32) = 4 * (unat v div 4)"
  using unat_and_not [of v 3] by (simp add: unat_and_3 minus_mod_eq_mult_div)

lemma unat_and_not_1: "unat (v AND - 2 :: u32) = 2 * (unat v div 2)"
  using unat_and_not [of v 1] by (simp add: unat_and_1 minus_mod_eq_mult_div)

lemma nat_or_2: "(x :: nat) OR 2 = 4 * (x div 4) + 2 + x mod 2"
proof -
  have "x OR 2 = of_bool (odd x) + 2 * (x div 2 OR 1)"
    by (subst or_rec) simp
  also have "x div 2 OR 1 = x div 2 + of_bool (even (x div 2))"
    by (rule or_one_eq)
  finally show ?thesis
    by (cases "odd x"; cases "odd (x div 2)"; simp) presburger+
qed

lemma unat_or_2: "unat (v OR 2 :: u32) = 4 * (unat v div 4) + 2 + unat v mod 2"
  by (simp add: unsigned_or_eq nat_or_2)

section \<open>The lock\<close>

text \<open>
  What a thread has: nothing, a reader count it must take back, a read guard, an upgradeable or a write guard, the
  same two with the reader count reserved by \<open>downgrade\<close>, or a failed debug assertion. \<open>RwStuck\<close> is a thread that forgot
  its write guard and whose \<open>force_write_unlock\<close> panicked in a debug build: the lock stays taken.
\<close>

datatype rw_pc = RwOut | RwUndo | RwRead | RwUpg | RwUpgDown | RwWrite | RwWriteDown | RwAssert | RwStuck

record rwlock =
  rw_lock :: u32
  rw_threads :: "rw_pc list"

definition rwlock_new :: "nat \<Rightarrow> rwlock" where
  "rwlock_new n = \<lparr>rw_lock = 0, rw_threads = replicate n RwOut\<rparr>"

definition rw_set :: "nat \<Rightarrow> u32 \<Rightarrow> rw_pc \<Rightarrow> rwlock \<Rightarrow> rwlock" where
  "rw_set i v pc m = m\<lparr>rw_lock := v, rw_threads := (rw_threads m)[i := pc]\<rparr>"

definition debug_assert :: "bool \<Rightarrow> nat \<Rightarrow> rwlock \<Rightarrow> rwlock \<Rightarrow> rwlock" where
  "debug_assert b i m m' = (if b then m' else rw_set i (rw_lock m) RwAssert m)"

definition try_read :: "nat \<Rightarrow> rwlock \<Rightarrow> rwlock" where
  "try_read i m =
     (let v = rw_lock m
      in rw_set i (v + READER) (if v AND (WRITER OR UPGRADED) \<noteq> 0 then RwUndo else RwRead) m)"

definition try_read_undo :: "nat \<Rightarrow> rwlock \<Rightarrow> rwlock" where
  "try_read_undo i m = rw_set i (rw_lock m - READER) RwOut m"

definition read_guard_drop :: "nat \<Rightarrow> rwlock \<Rightarrow> rwlock" where
  "read_guard_drop i m =
     debug_assert (rw_lock m AND NOT (WRITER OR UPGRADED) > 0) i m (rw_set i (rw_lock m - READER) RwOut m)"

definition force_read_decrement :: "nat \<Rightarrow> rwlock \<Rightarrow> rwlock" where
  "force_read_decrement i m =
     debug_assert (rw_lock m AND NOT WRITER > 0) i m (rw_set i (rw_lock m - READER) RwOut m)"

definition force_write_unlock :: "nat \<Rightarrow> rwlock \<Rightarrow> rwlock" where
  "force_write_unlock i m =
     (if rw_lock m AND NOT (WRITER OR UPGRADED) = 0 then rw_set i (rw_lock m AND NOT (WRITER OR UPGRADED)) RwOut m
      else rw_set i (rw_lock m) RwStuck m)"

definition rw_compare_exchange :: "bool \<Rightarrow> bool \<Rightarrow> u32 \<Rightarrow> u32 \<Rightarrow> u32 \<Rightarrow> (u32 + u32) \<times> u32" where
  "rw_compare_exchange spurious strong current new v =
     (if strong then compare_exchange current new v else compare_exchange_weak spurious current new v)"

definition try_write_internal :: "bool \<Rightarrow> bool \<Rightarrow> nat \<Rightarrow> rwlock \<Rightarrow> rwlock" where
  "try_write_internal spurious strong i m =
     (case rw_compare_exchange spurious strong 0 WRITER (rw_lock m) of
        (Inr _, v) \<Rightarrow> rw_set i v RwWrite m
      | (Inl _, v) \<Rightarrow> rw_set i v RwOut m)"

definition try_upgradeable_read :: "nat \<Rightarrow> rwlock \<Rightarrow> rwlock" where
  "try_upgradeable_read i m =
     (let v = rw_lock m
      in rw_set i (v OR UPGRADED) (if v AND (WRITER OR UPGRADED) = 0 then RwUpg else RwOut) m)"

definition try_upgrade_internal :: "bool \<Rightarrow> bool \<Rightarrow> nat \<Rightarrow> rwlock \<Rightarrow> rwlock" where
  "try_upgrade_internal spurious strong i m =
     (case rw_compare_exchange spurious strong UPGRADED WRITER (rw_lock m) of
        (Inr _, v) \<Rightarrow> rw_set i v RwWrite m
      | (Inl _, v) \<Rightarrow> rw_set i v RwUpg m)"

definition upgradeable_downgrade :: "nat \<Rightarrow> rwlock \<Rightarrow> rwlock" where
  "upgradeable_downgrade i m = rw_set i (rw_lock m + READER) RwUpgDown m"

definition write_downgrade :: "nat \<Rightarrow> rwlock \<Rightarrow> rwlock" where
  "write_downgrade i m = rw_set i (rw_lock m + READER) RwWriteDown m"

text \<open>The drop of the upgradeable and of the write guard; after a downgrade the thread keeps its read guard.\<close>

definition upgradeable_guard_drop :: "nat \<Rightarrow> rwlock \<Rightarrow> rwlock" where
  "upgradeable_guard_drop i m =
     debug_assert (rw_lock m AND (WRITER OR UPGRADED) = UPGRADED) i m
       (rw_set i (rw_lock m - UPGRADED) (if rw_threads m ! i = RwUpgDown then RwRead else RwOut) m)"

definition write_guard_drop :: "nat \<Rightarrow> rwlock \<Rightarrow> rwlock" where
  "write_guard_drop i m =
     debug_assert (rw_lock m AND WRITER = WRITER) i m
       (rw_set i (rw_lock m AND NOT (WRITER OR UPGRADED))
          (if rw_threads m ! i = RwWriteDown then RwRead else RwOut) m)"

text \<open>
  The interleavings. \<open>read\<close>, \<open>write\<close>, \<open>upgradeable_read\<close> and \<open>upgrade\<close> repeat the step that failed. A thread
  that forgets its read guard may release it with \<open>force_read_decrement\<close>, and one that forgets its write guard with
  \<open>force_write_unlock\<close>.
\<close>

inductive rw_step :: "rwlock \<Rightarrow> rwlock \<Rightarrow> bool" where
  rw_try_read: "i < length (rw_threads m) \<Longrightarrow> rw_threads m ! i = RwOut \<Longrightarrow> rw_step m (try_read i m)"
| rw_undo: "i < length (rw_threads m) \<Longrightarrow> rw_threads m ! i = RwUndo \<Longrightarrow> rw_step m (try_read_undo i m)"
| rw_read_drop: "i < length (rw_threads m) \<Longrightarrow> rw_threads m ! i = RwRead \<Longrightarrow> rw_step m (read_guard_drop i m)"
| rw_force_read: "i < length (rw_threads m) \<Longrightarrow> rw_threads m ! i = RwRead \<Longrightarrow> rw_step m (force_read_decrement i m)"
| rw_try_write: "i < length (rw_threads m) \<Longrightarrow> rw_threads m ! i = RwOut \<Longrightarrow>
    rw_step m (try_write_internal spurious strong i m)"
| rw_try_upgradeable: "i < length (rw_threads m) \<Longrightarrow> rw_threads m ! i = RwOut \<Longrightarrow> rw_step m (try_upgradeable_read i m)"
| rw_upgrade: "i < length (rw_threads m) \<Longrightarrow> rw_threads m ! i = RwUpg \<Longrightarrow>
    rw_step m (try_upgrade_internal spurious strong i m)"
| rw_upg_downgrade: "i < length (rw_threads m) \<Longrightarrow> rw_threads m ! i = RwUpg \<Longrightarrow> rw_step m (upgradeable_downgrade i m)"
| rw_write_downgrade: "i < length (rw_threads m) \<Longrightarrow> rw_threads m ! i = RwWrite \<Longrightarrow> rw_step m (write_downgrade i m)"
| rw_upg_drop: "i < length (rw_threads m) \<Longrightarrow> rw_threads m ! i \<in> {RwUpg, RwUpgDown} \<Longrightarrow>
    rw_step m (upgradeable_guard_drop i m)"
| rw_write_drop: "i < length (rw_threads m) \<Longrightarrow> rw_threads m ! i \<in> {RwWrite, RwWriteDown} \<Longrightarrow>
    rw_step m (write_guard_drop i m)"
| rw_force_write: "i < length (rw_threads m) \<Longrightarrow> rw_threads m ! i = RwWrite \<Longrightarrow> rw_step m (force_write_unlock i m)"

section \<open>The invariant\<close>

text \<open>How many threads are of a kind.\<close>

definition tally :: "('a \<Rightarrow> bool) \<Rightarrow> 'a list \<Rightarrow> nat" where
  "tally P xs = length (filter P xs)"

lemma tally_update:
  "i < length xs \<Longrightarrow> tally P (xs[i := x]) + of_bool (P (xs ! i)) = tally P xs + of_bool (P x)"
proof (induction xs arbitrary: i)
  case (Cons y xs)
  then show ?case
    using Cons.IH [of "i - 1"] by (cases i) (auto simp: tally_def)
qed simp

lemma tally_pos: "i < length xs \<Longrightarrow> P (xs ! i) \<Longrightarrow> 0 < tally P xs"
  using nth_mem [of i xs] by (auto simp: tally_def filter_empty_conv)

lemma tally_two:
  assumes "i < length xs" "j < length xs" "i \<noteq> j" "P (xs ! i)" "P (xs ! j)"
  shows "2 \<le> tally P xs"
proof -
  have "card {i, j} \<le> card {k. k < length xs \<and> P (xs ! k)}"
    using assms by (intro card_mono) auto
  with assms(3) show ?thesis
    by (simp add: tally_def length_filter_conv_card)
qed

lemma tally_split:
  assumes "i < length xs"
  obtains k where "tally P xs = k + of_bool (P (xs ! i))" "\<And>x. tally P (xs[i := x]) = k + of_bool (P x)"
proof
  have "of_bool (P (xs ! i)) \<le> tally P xs"
    using tally_pos [OF assms, of P] by auto
  then show "tally P xs = tally P xs - of_bool (P (xs ! i)) + of_bool (P (xs ! i))"
    by simp
  show "tally P (xs[i := x]) = tally P xs - of_bool (P (xs ! i)) + of_bool (P x)" for x
    using tally_update [OF assms, of P x] \<open>of_bool (P (xs ! i)) \<le> tally P xs\<close> by simp
qed

lemma tally_disjoint_le: "(\<And>x. P x \<Longrightarrow> \<not> Q x) \<Longrightarrow> tally P xs + tally Q xs \<le> length xs"
  by (induction xs) (auto simp: tally_def)

lemma tally_replicate [simp]: "tally P (replicate n x) = (if P x then n else 0)"
  by (simp add: tally_def)

text \<open>Threads counted in the word apart from those with a read guard, and the three kinds of guards.\<close>

definition counted :: "rw_pc \<Rightarrow> bool" where
  "counted pc \<longleftrightarrow> pc \<in> {RwUndo, RwUpgDown, RwWriteDown}"

definition upgradeable :: "rw_pc \<Rightarrow> bool" where
  "upgradeable pc \<longleftrightarrow> pc \<in> {RwUpg, RwUpgDown}"

definition writing :: "rw_pc \<Rightarrow> bool" where
  "writing pc \<longleftrightarrow> pc \<in> {RwWrite, RwWriteDown, RwStuck}"

definition reading :: "rw_pc \<Rightarrow> bool" where
  "reading pc \<longleftrightarrow> pc = RwRead"

lemmas rw_kinds = counted_def upgradeable_def writing_def reading_def

text \<open>
  The word against the counts: the upper bits count the readers, bit 0 is set exactly while there is a writer, and
  without one bit 1 is set exactly while there is an upgradeable guard. With a writer bit 1 may have been left set by an
  attempt to get an upgradeable guard.
\<close>

definition word_ok :: "nat \<Rightarrow> nat \<Rightarrow> nat \<Rightarrow> nat \<Rightarrow> nat \<Rightarrow> bool" where
  "word_ok x c u w r \<longleftrightarrow>
     w = 0 \<and> u = 0 \<and> x = 4 * (c + r) \<or> w = 0 \<and> u = 1 \<and> x = 4 * (c + r) + 2
     \<or> w = 1 \<and> u = 0 \<and> r = 0 \<and> (x = 4 * c + 1 \<or> x = 4 * c + 3)"

lemma word_ok_add: "word_ok x c u w r \<Longrightarrow> word_ok (x + 4) (Suc c) u w r"
  unfolding word_ok_def by (elim disjE conjE; presburger)

lemma word_ok_add_reader: "word_ok x c u w r \<Longrightarrow> x mod 4 = 0 \<Longrightarrow> word_ok (x + 4) c u w (Suc r)"
  unfolding word_ok_def by (elim disjE conjE; presburger)

lemma word_ok_sub: "word_ok x (Suc c) u w r \<Longrightarrow> 4 \<le> x \<and> word_ok (x - 4) c u w r"
  unfolding word_ok_def by (elim disjE conjE; presburger)

lemma word_ok_sub_reader: "word_ok x c u w (Suc r) \<Longrightarrow> 4 \<le> x \<and> word_ok (x - 4) c u w r"
  unfolding word_ok_def by (elim disjE conjE; presburger)

lemma word_ok_write: "word_ok 0 c u w r \<Longrightarrow> word_ok 1 c u (Suc w) r"
  unfolding word_ok_def by (elim disjE conjE; presburger)

lemma word_ok_upgrade: "word_ok 2 c (Suc u) w r \<Longrightarrow> word_ok 1 c u (Suc w) r"
  unfolding word_ok_def by (elim disjE conjE; presburger)

lemma word_ok_or_taken: "word_ok x c u w r \<Longrightarrow> x mod 4 \<noteq> 0 \<Longrightarrow> word_ok (4 * (x div 4) + 2 + x mod 2) c u w r"
  unfolding word_ok_def by (elim disjE conjE; presburger)

lemma word_ok_or_free: "word_ok x c u w r \<Longrightarrow> x mod 4 = 0 \<Longrightarrow> word_ok (4 * (x div 4) + 2 + x mod 2) c (Suc u) w r"
  unfolding word_ok_def by (elim disjE conjE; presburger)

lemma word_ok_upg_drop:
  "word_ok x c (Suc u) w r \<Longrightarrow> x mod 4 = 2 \<and> 2 \<le> x \<and> word_ok (x - 2) c u w r"
  "word_ok x (Suc c) (Suc u) w r \<Longrightarrow> x mod 4 = 2 \<and> 2 \<le> x \<and> word_ok (x - 2) c u w (Suc r)"
  unfolding word_ok_def by (elim disjE conjE; presburger)+

lemma word_ok_write_drop:
  "word_ok x c u (Suc w) r \<Longrightarrow> x mod 2 = 1 \<and> word_ok (4 * (x div 4)) c u w r"
  "word_ok x (Suc c) u (Suc w) r \<Longrightarrow> x mod 2 = 1 \<and> word_ok (4 * (x div 4)) c u w (Suc r)"
  unfolding word_ok_def by (elim disjE conjE; presburger)+

lemma word_ok_bound: "word_ok x c u w r \<Longrightarrow> Suc (c + r) < 2 ^ 30 \<Longrightarrow> x + 4 < 2 ^ 32"
  unfolding word_ok_def by auto

definition rw_inv :: "rwlock \<Rightarrow> bool" where
  "rw_inv m \<longleftrightarrow>
     length (rw_threads m) < 2 ^ 30 \<and> RwAssert \<notin> set (rw_threads m)
     \<and> word_ok (unat (rw_lock m)) (tally counted (rw_threads m)) (tally upgradeable (rw_threads m))
          (tally writing (rw_threads m)) (tally reading (rw_threads m))"

lemma rw_set_simps [simp]:
  "rw_lock (rw_set i v pc m) = v" "rw_threads (rw_set i v pc m) = (rw_threads m)[i := pc]"
  by (simp_all add: rw_set_def)

lemma rw_inv_init: "n < 2 ^ 30 \<Longrightarrow> rw_inv (rwlock_new n)"
  by (simp add: rw_inv_def rwlock_new_def rw_kinds word_ok_def)

lemma rw_inv_set:
  assumes inv: "rw_inv m" and i: "i < length (rw_threads m)" and pc: "pc \<noteq> RwAssert"
    and word: "\<And>c u w r.
       word_ok (unat (rw_lock m)) (c + of_bool (counted (rw_threads m ! i))) (u + of_bool (upgradeable (rw_threads m ! i)))
         (w + of_bool (writing (rw_threads m ! i))) (r + of_bool (reading (rw_threads m ! i))) \<Longrightarrow>
       c + of_bool (counted pc) + (r + of_bool (reading pc)) < 2 ^ 30 \<Longrightarrow>
       word_ok (unat v) (c + of_bool (counted pc)) (u + of_bool (upgradeable pc))
         (w + of_bool (writing pc)) (r + of_bool (reading pc))"
  shows "rw_inv (rw_set i v pc m)"
proof -
  obtain c where c: "tally counted (rw_threads m) = c + of_bool (counted (rw_threads m ! i))"
      "\<And>pc. tally counted ((rw_threads m)[i := pc]) = c + of_bool (counted pc)"
    using tally_split [OF i] by blast
  obtain u where u: "tally upgradeable (rw_threads m) = u + of_bool (upgradeable (rw_threads m ! i))"
      "\<And>pc. tally upgradeable ((rw_threads m)[i := pc]) = u + of_bool (upgradeable pc)"
    using tally_split [OF i] by blast
  obtain w where w: "tally writing (rw_threads m) = w + of_bool (writing (rw_threads m ! i))"
      "\<And>pc. tally writing ((rw_threads m)[i := pc]) = w + of_bool (writing pc)"
    using tally_split [OF i] by blast
  obtain r where r: "tally reading (rw_threads m) = r + of_bool (reading (rw_threads m ! i))"
      "\<And>pc. tally reading ((rw_threads m)[i := pc]) = r + of_bool (reading pc)"
    using tally_split [OF i] by blast
  have "tally counted ((rw_threads m)[i := pc]) + tally reading ((rw_threads m)[i := pc]) \<le> length (rw_threads m)"
    using tally_disjoint_le [of counted reading "(rw_threads m)[i := pc]"] by (auto simp: rw_kinds)
  then have "c + of_bool (counted pc) + (r + of_bool (reading pc)) < 2 ^ 30"
    using inv by (simp add: rw_inv_def c(2) r(2))
  moreover have "RwAssert \<notin> set ((rw_threads m)[i := pc])"
    using inv pc set_update_subset_insert [of "rw_threads m" i pc] by (auto simp: rw_inv_def)
  ultimately show ?thesis
    using inv word [of c u w r] by (simp add: rw_inv_def c u w r)
qed

lemma unat_add_4: "unat (v :: u32) + 4 < 2 ^ 32 \<Longrightarrow> unat (v + 4) = unat v + 4"
  by (simp add: unat_word_ariths)

lemma unat_sub_le: "unat k \<le> unat (v :: u32) \<Longrightarrow> unat (v - k) = unat v - unat k"
  by (simp add: unat_sub word_le_nat_alt)

lemma and_3_zero: "(v AND 3 :: u32) = 0 \<longleftrightarrow> unat v mod 4 = 0"
  by (metis unat_and_3 unat_eq_0)

lemma and_3_two: "(v AND 3 :: u32) = 2 \<longleftrightarrow> unat v mod 4 = 2"
  using unat_and_3 [of v] by (simp add: word_unat_eq_iff)

lemma and_1_one: "(v AND 1 :: u32) = 1 \<longleftrightarrow> unat v mod 2 = 1"
  using unat_and_1 [of v] by (simp add: word_unat_eq_iff)

lemma and_not_3_pos: "0 < (v AND - 4 :: u32) \<longleftrightarrow> 4 \<le> unat v"
  by (simp add: word_less_nat_alt unat_and_not_3) arith

lemma and_not_1_pos: "0 < (v AND - 2 :: u32) \<longleftrightarrow> 2 \<le> unat v"
  by (simp add: word_less_nat_alt unat_and_not_1) arith

lemmas rw_word_simps = unat_sub_le and_3_zero and_3_two and_1_one and_not_3_pos and_not_1_pos unat_and_not_3 unat_or_2

lemma word_ok_unat_add:
  assumes "word_ok (unat (v :: u32)) c u w r" "c + r < 1073741823"
  shows "word_ok (unat (v + 4)) (Suc c) u w r" "4 dvd unat v \<Longrightarrow> word_ok (unat (v + 4)) c u w (Suc r)"
proof -
  have "unat (v + 4) = unat v + 4"
    using word_ok_bound [OF assms(1)] assms(2) by (simp add: unat_add_4)
  with assms(1) show "word_ok (unat (v + 4)) (Suc c) u w r" "4 dvd unat v \<Longrightarrow> word_ok (unat (v + 4)) c u w (Suc r)"
    by (simp_all only: word_ok_add word_ok_add_reader dvd_eq_mod_eq_0)
qed

text \<open>Every step keeps the invariant; in particular no debug assertion fails.\<close>

lemma rw_inv_try_read:
  assumes "rw_inv m" "i < length (rw_threads m)" "rw_threads m ! i = RwOut"
  shows "rw_inv (try_read i m)"
  unfolding try_read_def Let_def
  by (rule rw_inv_set [OF assms(1,2)])
     (auto simp: assms(3) rw_kinds rw_word_simps word_ok_unat_add)

lemma rw_inv_undo:
  assumes "rw_inv m" "i < length (rw_threads m)" "rw_threads m ! i = RwUndo"
  shows "rw_inv (try_read_undo i m)"
  unfolding try_read_undo_def
  by (rule rw_inv_set [OF assms(1,2)]) (use word_ok_sub in \<open>auto simp: assms(3) rw_kinds rw_word_simps\<close>)

lemma rw_inv_word:
  assumes "rw_inv m" "i < length (rw_threads m)"
  shows "\<exists>c u w r.
    word_ok (unat (rw_lock m)) (c + of_bool (counted (rw_threads m ! i))) (u + of_bool (upgradeable (rw_threads m ! i)))
       (w + of_bool (writing (rw_threads m ! i))) (r + of_bool (reading (rw_threads m ! i)))"
  using assms tally_split [OF assms(2)] unfolding rw_inv_def by metis

lemma rw_inv_read_drop:
  assumes "rw_inv m" "i < length (rw_threads m)" "rw_threads m ! i = RwRead"
  shows "rw_inv (read_guard_drop i m)" "rw_inv (force_read_decrement i m)"
proof -
  have "rw_inv (rw_set i (rw_lock m - READER) RwOut m)"
    by (rule rw_inv_set [OF assms(1,2)]) (use word_ok_sub_reader in \<open>auto simp: assms(3) rw_kinds rw_word_simps\<close>)
  moreover have "4 \<le> unat (rw_lock m)"
    using rw_inv_word [OF assms(1,2)] word_ok_sub_reader by (auto simp: assms(3) rw_kinds)
  ultimately show "rw_inv (read_guard_drop i m)" "rw_inv (force_read_decrement i m)"
    by (simp_all add: read_guard_drop_def force_read_decrement_def debug_assert_def rw_word_simps)
qed

lemma rw_same: "rw_threads m ! i = pc \<Longrightarrow> rw_set i (rw_lock m) pc m = m"
  by (auto simp: rw_set_def)

lemma rw_inv_try_write:
  assumes "rw_inv m" "i < length (rw_threads m)" "rw_threads m ! i = RwOut"
  shows "rw_inv (try_write_internal spurious strong i m)"
proof -
  have "rw_inv (rw_set i WRITER RwWrite m)" if "rw_lock m = 0"
    by (rule rw_inv_set [OF assms(1,2)]) (use word_ok_write that in \<open>auto simp: assms(3) rw_kinds\<close>)
  with assms show ?thesis
    by (simp add: try_write_internal_def rw_compare_exchange_def exchange_defs rw_same)
qed

lemma rw_inv_try_upgradeable:
  assumes "rw_inv m" "i < length (rw_threads m)" "rw_threads m ! i = RwOut"
  shows "rw_inv (try_upgradeable_read i m)"
  unfolding try_upgradeable_read_def Let_def
  by (rule rw_inv_set [OF assms(1,2)])
     (use word_ok_or_free word_ok_or_taken in \<open>auto simp: assms(3) rw_kinds rw_word_simps\<close>)

lemma rw_inv_upgrade:
  assumes "rw_inv m" "i < length (rw_threads m)" "rw_threads m ! i = RwUpg"
  shows "rw_inv (try_upgrade_internal spurious strong i m)"
proof -
  have "rw_inv (rw_set i WRITER RwWrite m)" if "rw_lock m = 2"
    by (rule rw_inv_set [OF assms(1,2)]) (use word_ok_upgrade that in \<open>auto simp: assms(3) rw_kinds\<close>)
  with assms show ?thesis
    by (simp add: try_upgrade_internal_def rw_compare_exchange_def exchange_defs rw_same)
qed

lemma rw_inv_downgrade:
  assumes "rw_inv m" "i < length (rw_threads m)"
  shows "rw_threads m ! i = RwUpg \<Longrightarrow> rw_inv (upgradeable_downgrade i m)"
    "rw_threads m ! i = RwWrite \<Longrightarrow> rw_inv (write_downgrade i m)"
  unfolding upgradeable_downgrade_def write_downgrade_def
  by (rule rw_inv_set [OF assms], auto simp: rw_kinds rw_word_simps word_ok_unat_add)+

lemma rw_inv_upg_drop:
  assumes "rw_inv m" "i < length (rw_threads m)" "rw_threads m ! i \<in> {RwUpg, RwUpgDown}"
  shows "rw_inv (upgradeable_guard_drop i m)"
proof -
  let ?pc = "if rw_threads m ! i = RwUpgDown then RwRead else RwOut"
  have "rw_inv (rw_set i (rw_lock m - UPGRADED) ?pc m)"
    by (rule rw_inv_set [OF assms(1,2)])
       (use assms(3) word_ok_upg_drop in \<open>auto simp: rw_kinds rw_word_simps\<close>)
  moreover have "unat (rw_lock m) mod 4 = 2"
    using rw_inv_word [OF assms(1,2)] assms(3) word_ok_upg_drop by (auto simp: rw_kinds)
  ultimately show ?thesis
    by (simp add: upgradeable_guard_drop_def debug_assert_def rw_word_simps)
qed

lemma rw_inv_write_drop:
  assumes "rw_inv m" "i < length (rw_threads m)" "rw_threads m ! i \<in> {RwWrite, RwWriteDown}"
  shows "rw_inv (write_guard_drop i m)"
proof -
  let ?pc = "if rw_threads m ! i = RwWriteDown then RwRead else RwOut"
  have "rw_inv (rw_set i (rw_lock m AND NOT (WRITER OR UPGRADED)) ?pc m)"
    by (rule rw_inv_set [OF assms(1,2)])
       (use assms(3) word_ok_write_drop in \<open>auto simp: rw_kinds rw_word_simps\<close>)
  moreover have "unat (rw_lock m) mod 2 = 1"
    using rw_inv_word [OF assms(1,2)] assms(3) word_ok_write_drop by (auto simp: rw_kinds)
  ultimately show ?thesis
    by (simp add: write_guard_drop_def debug_assert_def rw_word_simps)
qed

lemma rw_inv_force_write:
  assumes "rw_inv m" "i < length (rw_threads m)" "rw_threads m ! i = RwWrite"
  shows "rw_inv (force_write_unlock i m)"
proof -
  have "rw_inv (rw_set i (rw_lock m AND NOT (WRITER OR UPGRADED)) RwOut m)"
    by (rule rw_inv_set [OF assms(1,2)]) (use assms(3) word_ok_write_drop in \<open>auto simp: rw_kinds rw_word_simps\<close>)
  moreover have "rw_inv (rw_set i (rw_lock m) RwStuck m)"
    by (rule rw_inv_set [OF assms(1,2)]) (use assms(3) in \<open>auto simp: rw_kinds\<close>)
  ultimately show ?thesis
    unfolding force_write_unlock_def by (simp only: if_split simp_thms)
qed

text \<open>A forced release panics exactly while a thread whose read failed is still counted.\<close>

lemma force_write_stuck:
  assumes "rw_inv m" "i < length (rw_threads m)" "rw_threads m ! i = RwWrite"
  shows "rw_threads (force_write_unlock i m) ! i = RwStuck \<longleftrightarrow> (\<exists>k < length (rw_threads m). rw_threads m ! k = RwUndo)"
proof -
  let ?ts = "rw_threads m"
  have ok: "word_ok (unat (rw_lock m)) (tally counted ?ts) (tally upgradeable ?ts) (tally writing ?ts) (tally reading ?ts)"
    using assms(1) by (simp add: rw_inv_def)
  have "0 < tally writing ?ts"
    using tally_pos [OF assms(2), of writing] assms(3) by (simp add: writing_def)
  with ok have w: "tally writing ?ts = 1" "tally upgradeable ?ts = 0" "unat (rw_lock m) div 4 = tally counted ?ts"
    by (auto simp: word_ok_def)
  have "rw_lock m AND NOT (WRITER OR UPGRADED) = 0 \<longleftrightarrow> tally counted ?ts = 0"
    using w(3) by (simp add: unat_eq_0 [symmetric] unat_and_not_3)
  moreover have "counted (?ts ! k) \<longleftrightarrow> ?ts ! k = RwUndo" if "k < length ?ts" for k
  proof -
    have "\<not> upgradeable (?ts ! k)"
      using tally_pos [OF that, of upgradeable] w(2) by auto
    moreover have "?ts ! k \<noteq> RwWriteDown"
      using tally_two [OF that assms(2), of writing] assms(3) w(1) by (cases "k = i") (auto simp: writing_def)
    ultimately show ?thesis by (auto simp: rw_kinds)
  qed
  then have "tally counted ?ts = 0 \<longleftrightarrow> \<not> (\<exists>k < length ?ts. ?ts ! k = RwUndo)"
    by (simp add: tally_def filter_empty_conv all_set_conv_all_nth)
  ultimately show ?thesis
    using assms(2) by (simp add: force_write_unlock_def)
qed

lemma rw_step_inv: "rw_step m m' \<Longrightarrow> rw_inv m \<Longrightarrow> rw_inv m'"
  by (induction rule: rw_step.induct)
     (simp_all add: rw_inv_try_read rw_inv_undo rw_inv_read_drop rw_inv_try_write rw_inv_try_upgradeable
       rw_inv_upgrade rw_inv_downgrade rw_inv_upg_drop rw_inv_write_drop rw_inv_force_write)

lemma rw_reachable_inv:
  assumes "rw_step\<^sup>*\<^sup>* (rwlock_new n) m" "n < 2 ^ 30"
  shows "rw_inv m"
  using assms by (induction rule: rtranclp_induct) (auto intro: rw_inv_init rw_step_inv)

text \<open>
  C7: at every point of every interleaving of fewer than \<open>2 ^ 30\<close> threads over all operations, the forced releases of a
  forgotten guard included, a writer excludes every other guard and an upgradeable guard excludes writers and other
  upgradeable guards, also while guards are upgraded and downgraded and while failed readers still have to take their
  count back. The debug assertions of the guards and of \<open>force_read_decrement\<close> never fail. That of
  \<open>force_write_unlock\<close>, called by the thread that holds the lock, fails exactly when another thread's failed attempt to
  read is still counted. Once every thread is out the word is zero again, whatever attempts failed before, so the next
  writer gets the lock.
\<close>

theorem rwlock_excludes:
  assumes "n < 2 ^ 30" "rw_step\<^sup>*\<^sup>* (rwlock_new n) m"
    and "i < length (rw_threads m)" "j < length (rw_threads m)" "i \<noteq> j"
  shows "(writing (rw_threads m ! i) \<longrightarrow>
            \<not> writing (rw_threads m ! j) \<and> \<not> reading (rw_threads m ! j) \<and> \<not> upgradeable (rw_threads m ! j))
         \<and> (upgradeable (rw_threads m ! i) \<longrightarrow> \<not> upgradeable (rw_threads m ! j))
         \<and> rw_threads m ! i \<noteq> RwAssert
         \<and> (rw_threads m ! i = RwWrite \<longrightarrow>
              (rw_threads (force_write_unlock i m) ! i = RwStuck \<longleftrightarrow> (\<exists>k < length (rw_threads m). rw_threads m ! k = RwUndo)))
         \<and> ((\<forall>k < length (rw_threads m). rw_threads m ! k = RwOut) \<longrightarrow>
              rw_lock m = 0 \<and> writing (rw_threads (try_write_internal False strong i m) ! i))"
proof -
  let ?ts = "rw_threads m"
  have inv: "rw_inv m"
    using assms(1,2) by (rule rw_reachable_inv [rotated])
  then have ok: "word_ok (unat (rw_lock m)) (tally counted ?ts) (tally upgradeable ?ts) (tally writing ?ts) (tally reading ?ts)"
    by (simp add: rw_inv_def)
  note two = tally_two [OF assms(3-5)] and pos = tally_pos [OF assms(3)] tally_pos [OF assms(4)]
  have writer: "\<not> writing (?ts ! j) \<and> \<not> reading (?ts ! j) \<and> \<not> upgradeable (?ts ! j)" if "writing (?ts ! i)"
    using that ok two [of writing] pos [of writing] pos(2) [of reading] pos(2) [of upgradeable]
    by (auto simp: word_ok_def)
  have upg: "\<not> upgradeable (?ts ! j)" if "upgradeable (?ts ! i)"
    using that ok two [of upgradeable] by (auto simp: word_ok_def)
  have "rw_lock m = 0" if "\<forall>k < length ?ts. ?ts ! k = RwOut"
  proof -
    from that have "?ts = replicate (length ?ts) RwOut"
      by (metis in_set_conv_nth replicate_length_same)
    then have "tally P ?ts = 0" if "\<not> P RwOut" for P
      using that by (metis tally_replicate)
    with ok show ?thesis
      by (simp add: word_ok_def rw_kinds unat_eq_0)
  qed
  with assms(3) writer upg inv force_write_stuck [OF inv assms(3)] show ?thesis
    by (auto simp: rw_inv_def in_set_conv_nth try_write_internal_def rw_compare_exchange_def exchange_defs writing_def)
qed

text \<open>A writer, while another thread has tried to read and has not yet taken its count back.\<close>

definition rwlock_example :: rwlock where
  "rwlock_example = \<lparr>rw_lock = 5, rw_threads = [RwWrite, RwUndo]\<rparr>"

lemma rwlock_example_reachable: "rw_step\<^sup>*\<^sup>* (rwlock_new 2) rwlock_example"
proof -
  let ?s = "\<lambda>v a b. \<lparr>rw_lock = v, rw_threads = [a, b]\<rparr>"
  have start: "rwlock_new 2 = ?s 0 RwOut RwOut"
    by (simp add: rwlock_new_def numeral_2_eq_2)
  have "rw_step (?s 0 RwOut RwOut) (?s 1 RwWrite RwOut)"
    using rw_try_write [of 0 "?s 0 RwOut RwOut" False True]
    by (simp add: try_write_internal_def rw_compare_exchange_def exchange_defs rw_set_def)
  moreover have "rw_step (?s 1 RwWrite RwOut) rwlock_example"
    using rw_try_read [of 1 "?s 1 RwWrite RwOut"] by (simp add: try_read_def rw_set_def rwlock_example_def)
  ultimately show ?thesis
    unfolding start by (meson rtranclp.rtrancl_into_rtrancl rtranclp.rtrancl_refl)
qed

theorem rwlock_excludes_witness:
  "rw_step\<^sup>*\<^sup>* (rwlock_new 2) rwlock_example \<and> writing (rw_threads rwlock_example ! 0)
   \<and> \<not> reading (rw_threads rwlock_example ! 1)"
proof -
  have "writing (rw_threads rwlock_example ! 0)"
    by (simp add: rwlock_example_def writing_def)
  moreover have "(2 :: nat) < 2 ^ 30" "0 < length (rw_threads rwlock_example)" "1 < length (rw_threads rwlock_example)"
    "(0 :: nat) \<noteq> 1"
    by (simp_all add: rwlock_example_def)
  ultimately show ?thesis
    using rwlock_excludes [OF _ rwlock_example_reachable, of 0 1] rwlock_example_reachable by blast
qed

text \<open>
  The debug assertion of \<open>force_write_unlock\<close> is not justified by the lock's own protocol: a thread that tries to
  read while the lock is held for writing counts itself for a moment, and a release in that moment by the thread that
  holds the lock fails the assertion.
\<close>

lemma force_write_unlock_asserts: "\<exists>m. rw_step\<^sup>*\<^sup>* (rwlock_new 2) m \<and> rw_threads m ! 0 = RwStuck"
proof -
  have "rw_step rwlock_example (force_write_unlock 0 rwlock_example)"
    by (rule rw_force_write) (simp_all add: rwlock_example_def)
  moreover have "rw_threads (force_write_unlock 0 rwlock_example) ! 0 = RwStuck"
    by (simp add: rwlock_example_def force_write_unlock_def)
  ultimately show ?thesis
    using rwlock_example_reachable by (meson rtranclp.rtrancl_into_rtrancl)
qed

end
