(* ===== verification/Key_Schedule.thy ===== *)
theory Key_Schedule
  imports Bytes
begin

text \<open>
  The TLS 1.3 key schedule, \<^verbatim>\<open>tools/tls-spike/src/main.rs\<close>: the program that recomputes the handshake
  keys of RFC 8448 from a pre-shared key. HMAC-SHA-256, SHA-256 and X25519 are crates and so are parameters; all that is
  used of them is the length of what they return. A panic is \<open>None\<close>.
\<close>

section \<open>Hexadecimal\<close>

definition is_ascii_hexdigit :: "char \<Rightarrow> bool" where
  "is_ascii_hexdigit c \<longleftrightarrow>
     (let n = (of_char c :: nat) in 48 \<le> n \<and> n \<le> 57 \<or> 65 \<le> n \<and> n \<le> 70 \<or> 97 \<le> n \<and> n \<le> 102)"

text \<open>\<open>u8::from_str_radix\<close> with radix 16, on a pair of hexadecimal digits.\<close>

definition hex_digit_value :: "char \<Rightarrow> nat" where
  "hex_digit_value c =
     (let n = (of_char c :: nat) in if n \<le> 57 then n - 48 else if n \<le> 70 then n - 55 else n - 87)"

fun hex_pairs :: "string \<Rightarrow> bytes" where
  "hex_pairs (a # b # cs) = word_of_nat (16 * hex_digit_value a + hex_digit_value b) # hex_pairs cs"
| "hex_pairs _ = []"

definition parse_hex_blob :: "string \<Rightarrow> bytes option" where
  "parse_hex_blob s =
     (let cleaned = filter is_ascii_hexdigit s
      in if length cleaned mod 2 = 0 then Some (hex_pairs cleaned) else None)"

definition lower_digit :: "nat \<Rightarrow> char" where
  "lower_digit n = (if n < 10 then char_of (48 + n) else char_of (87 + n))"

definition encode_lower :: "bytes \<Rightarrow> string" where
  "encode_lower bs = concat (map (\<lambda>b. [lower_digit (unat b div 16), lower_digit (unat b mod 16)]) bs)"

section \<open>HKDF\<close>

type_synonym hmac = "bytes \<Rightarrow> bytes \<Rightarrow> bytes"

definition hkdf_extract :: "hmac \<Rightarrow> bytes \<Rightarrow> bytes \<Rightarrow> bytes" where
  "hkdf_extract hmac salt ikm = hmac (if salt = [] then replicate 32 0 else salt) ikm"

definition hkdf_info :: "string \<Rightarrow> bytes \<Rightarrow> u16 \<Rightarrow> bytes" where
  "hkdf_info label ctx n =
     (let full_label = str_bytes (''tls13 '' @ label)
      in u16_to_be_bytes n @ [word_of_nat (length full_label)] @ full_label @ [word_of_nat (length ctx)] @ ctx)"

function hkdf_blocks :: "hmac \<Rightarrow> bytes \<Rightarrow> bytes \<Rightarrow> nat \<Rightarrow> bytes \<Rightarrow> u8 \<Rightarrow> bytes \<Rightarrow> bytes option" where
  "hkdf_blocks hmac secret info n prev counter out =
     (if length out < n
      then (let prev' = hmac secret (prev @ info @ [counter])
            in case checked_add counter 1 of
                 None \<Rightarrow> None
               | Some counter' \<Rightarrow> hkdf_blocks hmac secret info n prev' counter' (out @ prev'))
      else Some (take n out))"
  by pat_completeness auto

termination
  by (relation "measure (\<lambda>(_, _, _, _, _, counter, _). 256 - unat counter)")
     (auto simp: checked_add_def unat_word_ariths split: if_splits)

declare hkdf_blocks.simps [simp del]

definition hkdf_expand_label :: "hmac \<Rightarrow> bytes \<Rightarrow> string \<Rightarrow> bytes \<Rightarrow> u16 \<Rightarrow> bytes option" where
  "hkdf_expand_label hmac secret label ctx n =
     (if length (''tls13 '' @ label) \<le> 255 \<and> length ctx \<le> 255
      then hkdf_blocks hmac secret (hkdf_info label ctx n) (unat n) [] 1 []
      else None)"

definition derive_secret :: "hmac \<Rightarrow> (bytes \<Rightarrow> bytes) \<Rightarrow> bytes \<Rightarrow> string \<Rightarrow> bytes \<Rightarrow> bytes option" where
  "derive_secret hmac sha256 secret label messages =
     (case hkdf_expand_label hmac secret label (sha256 messages) 32 of
        None \<Rightarrow> None
      | Some v \<Rightarrow> if length v = 32 then Some v else None)"

section \<open>The schedule\<close>

definition psk_binder :: "hmac \<Rightarrow> (bytes \<Rightarrow> bytes) \<Rightarrow> bytes \<Rightarrow> bytes \<Rightarrow> bytes option" where
  "psk_binder hmac sha256 psk prefix =
     (let early_secret = hkdf_extract hmac [] psk
      in case derive_secret hmac sha256 early_secret ''res binder'' [] of
           None \<Rightarrow> None
         | Some binder_key \<Rightarrow>
             (let binder_hash = sha256 prefix
              in case hkdf_expand_label hmac binder_key ''finished'' [] 32 of
                   None \<Rightarrow> None
                 | Some finished_key \<Rightarrow> Some (hmac finished_key binder_hash)))"

record server_keys =
  handshake_secret :: bytes
  client_traffic :: bytes
  server_traffic :: bytes
  master_secret :: bytes
  server_hs_key :: bytes
  server_hs_iv :: bytes
  server_finished_key :: bytes

definition server_schedule ::
  "hmac \<Rightarrow> (bytes \<Rightarrow> bytes) \<Rightarrow> bytes \<Rightarrow> bytes \<Rightarrow> bytes \<Rightarrow> bytes \<Rightarrow> server_keys option" where
  "server_schedule hmac sha256 psk ecdhe_shared client_hello server_hello =
     (let early_secret = hkdf_extract hmac [] psk
      in case derive_secret hmac sha256 early_secret ''derived'' [] of None \<Rightarrow> None | Some derived_for_handshake \<Rightarrow>
      let hs = hkdf_extract hmac derived_for_handshake ecdhe_shared;
          th = sha256 (client_hello @ server_hello)
      in case hkdf_expand_label hmac hs ''c hs traffic'' th 32 of None \<Rightarrow> None | Some chts \<Rightarrow>
      case hkdf_expand_label hmac hs ''s hs traffic'' th 32 of None \<Rightarrow> None | Some shts \<Rightarrow>
      case derive_secret hmac sha256 hs ''derived'' [] of None \<Rightarrow> None | Some derived_for_master \<Rightarrow>
      let master = hkdf_extract hmac derived_for_master (replicate 32 0)
      in case hkdf_expand_label hmac shts ''key'' [] 16 of None \<Rightarrow> None | Some key \<Rightarrow>
      case hkdf_expand_label hmac shts ''iv'' [] 12 of None \<Rightarrow> None | Some iv \<Rightarrow>
      case hkdf_expand_label hmac shts ''finished'' [] 32 of None \<Rightarrow> None | Some fin \<Rightarrow>
      Some \<lparr>handshake_secret = hs, client_traffic = chts, server_traffic = shts, master_secret = master,
        server_hs_key = key, server_hs_iv = iv, server_finished_key = fin\<rparr>)"

section \<open>Hexadecimal text\<close>

lemma lower_digit_hex:
  assumes "n < 16"
  shows "is_ascii_hexdigit (lower_digit n)" "hex_digit_value (lower_digit n) = n"
  using assms by (auto simp: is_ascii_hexdigit_def hex_digit_value_def lower_digit_def Let_def)

lemma encode_lower_Cons:
  "encode_lower (b # bs) = lower_digit (unat b div 16) # lower_digit (unat b mod 16) # encode_lower bs"
  by (simp add: encode_lower_def)

lemma byte_nibbles: "unat (b :: byte) div 16 < 16" "word_of_nat (16 * (unat b div 16) + unat b mod 16) = b"
proof -
  have "unat b < 2 ^ LENGTH(8)"
    by (rule unsigned_less)
  then show "unat b div 16 < 16"
    by simp
qed simp

lemma encode_lower_hex: "list_all is_ascii_hexdigit (encode_lower bs)" "length (encode_lower bs) = 2 * length bs"
  "hex_pairs (encode_lower bs) = bs"
  by (induction bs) (simp_all add: encode_lower_def lower_digit_hex byte_nibbles)

lemma filter_all: "list_all P xs \<Longrightarrow> filter P xs = xs"
  by (induction xs) simp_all

section \<open>Block by block\<close>

text \<open>The definition of RFC 5869: \<open>T 0\<close> is empty, and \<open>T (i + 1)\<close> is the HMAC of \<open>T i\<close>, the info and the number \<open>i + 1\<close>.\<close>

primrec hkdf_T :: "hmac \<Rightarrow> bytes \<Rightarrow> bytes \<Rightarrow> nat \<Rightarrow> bytes" where
  "hkdf_T hmac secret info 0 = []"
| "hkdf_T hmac secret info (Suc i) = hmac secret (hkdf_T hmac secret info i @ info @ [word_of_nat (Suc i)])"

definition hkdf_okm :: "hmac \<Rightarrow> bytes \<Rightarrow> bytes \<Rightarrow> nat \<Rightarrow> bytes" where
  "hkdf_okm hmac secret info k = concat (map (\<lambda>i. hkdf_T hmac secret info (Suc i)) [0..<k])"

lemma hkdf_okm_Suc: "hkdf_okm hmac secret info (Suc k) = hkdf_okm hmac secret info k @ hkdf_T hmac secret info (Suc k)"
  by (simp add: hkdf_okm_def)

lemma length_hkdf_okm:
  assumes "\<And>k m. length (hmac k m) = 32"
  shows "length (hkdf_okm hmac secret info k) = 32 * k"
  by (induction k) (simp_all add: hkdf_okm_Suc assms, simp add: hkdf_okm_def)

lemma hkdf_okm_prefix:
  assumes "\<And>k m. length (hmac k m) = 32" "j \<le> k"
  shows "take (32 * j) (hkdf_okm hmac secret info k) = hkdf_okm hmac secret info j"
  using assms(2)
proof (induction rule: dec_induct)
  case base
  then show ?case
    by (simp add: length_hkdf_okm [OF assms(1)])
next
  case (step k)
  then show ?case
    by (simp add: hkdf_okm_Suc length_hkdf_okm [OF assms(1)])
qed

text \<open>
  The loop, entered with \<open>i\<close> blocks done. Its counter is a byte that is stepped after every block, so it overflows after
  block 255, even when that block was the last one needed.
\<close>

lemma hkdf_blocks_okm:
  assumes len: "\<And>k m. length (hmac k m) = 32" and "i < 255"
  shows "hkdf_blocks hmac secret info n (hkdf_T hmac secret info i) (word_of_nat (Suc i)) (hkdf_okm hmac secret info i)
    = (if n \<le> 254 * 32 then Some (take n (hkdf_okm hmac secret info (max i 254))) else None)"
  using assms(2)
proof (induction "255 - i" arbitrary: i)
  case (Suc d)
  let ?okm = "hkdf_okm hmac secret info" and ?T = "hkdf_T hmac secret info"
  have out: "length (?okm i) = 32 * i"
    by (rule length_hkdf_okm [OF len])
  have counter: "unat (word_of_nat (Suc i) :: u8) = Suc i"
    using Suc.prems by (simp add: unsigned_of_nat take_bit_nat_eq_self del: of_nat_Suc)
  show ?case
  proof (cases "32 * i < n")
    case False
    have "take n (?okm 254) = take n (?okm i)"
      using False Suc.prems arg_cong [OF hkdf_okm_prefix [OF len, where j = i and k = 254], of "take n"]
      by (simp add: min_def)
    with False Suc.prems show ?thesis
      by (subst hkdf_blocks.simps) (simp add: out max_def)
  next
    case True
    show ?thesis
    proof (cases "i = 254")
      case last: True
      with True show ?thesis
        by (subst hkdf_blocks.simps) (simp add: length_hkdf_okm [OF len] checked_add_def)
    next
      case False
      have next_counter: "checked_add (word_of_nat (Suc i) :: u8) 1 = Some (word_of_nat (Suc (Suc i)))"
        using counter False Suc.prems by (simp add: checked_add_def)
      have "hkdf_blocks hmac secret info n (?T i) (word_of_nat (Suc i)) (?okm i)
          = hkdf_blocks hmac secret info n (?T (Suc i)) (word_of_nat (Suc (Suc i))) (?okm (Suc i))"
        using True by (subst hkdf_blocks.simps) (simp add: out next_counter hkdf_okm_Suc Let_def del: of_nat_Suc)
      also have "\<dots> = (if n \<le> 254 * 32 then Some (take n (?okm (max (Suc i) 254))) else None)"
        using Suc.hyps(2) False Suc.prems by (intro Suc.hyps(1)) simp_all
      finally show ?thesis
        using False Suc.prems by (simp add: max_def)
    qed
  qed
qed simp

lemma hkdf_expand_okm:
  assumes "\<And>k m. length (hmac k m) = 32"
  shows "hkdf_expand_label hmac secret label ctx n =
    (if length label \<le> 249 \<and> length ctx \<le> 255 \<and> unat n \<le> 254 * 32
     then Some (take (unat n) (hkdf_okm hmac secret (hkdf_info label ctx n) 254)) else None)"
  using hkdf_blocks_okm [of hmac 0 secret "hkdf_info label ctx n" "unat n"] assms
  by (simp add: hkdf_expand_label_def hkdf_okm_def)

lemma hkdf_expand_small:
  assumes "\<And>k m. length (hmac k m) = 32" "length label \<le> 249" "length ctx \<le> 255" "unat n \<le> 254 * 32"
  obtains v where "hkdf_expand_label hmac secret label ctx n = Some v" "length v = unat n"
  using assms by (auto simp: hkdf_expand_okm length_hkdf_okm)

lemma derive_secret_total:
  assumes "\<And>k m. length (hmac k m) = 32" "\<And>m. length (sha256 m) = 32" "length label \<le> 249"
  obtains v where "derive_secret hmac sha256 secret label messages = Some v" "length v = 32"
  using that assms by (auto simp: derive_secret_def hkdf_expand_okm length_hkdf_okm)

text \<open>The length fields make the info unambiguous.\<close>

lemma hkdf_info_inj:
  assumes "hkdf_info label ctx n = hkdf_info label' ctx' n'"
    and "length label \<le> 249" "length label' \<le> 249" "length ctx \<le> 255" "length ctx' \<le> 255"
  shows "label = label' \<and> ctx = ctx' \<and> n = n'"
proof -
  let ?full = "\<lambda>l. str_bytes (''tls13 '' @ l)"
  have "n = n'" and rest: "word_of_nat (length (?full label)) # ?full label @ word_of_nat (length ctx) # ctx
      = (word_of_nat (length (?full label')) # ?full label' @ word_of_nat (length ctx') # ctx' :: bytes)"
    using assms(1) by (simp_all add: hkdf_info_def Let_def append_eq_append_conv u16_to_be_inj del: length_str_bytes)
  then have "length (?full label) = length (?full label')"
    using assms(2,3) byte_of_nat_inj [of "6 + length label" "6 + length label'"] by simp
  with rest have "?full label = ?full label'" "ctx = ctx'"
    by simp_all
  with \<open>n = n'\<close> show ?thesis
    by (simp add: str_bytes_eq_iff)
qed

section \<open>Properties\<close>

text \<open>
  C31: key expansion. With any HMAC of 32 bytes, \<open>hkdf_expand_label\<close> returns exactly the first \<open>n\<close> bytes of the
  blocks of RFC 5869 over the info of RFC 8446 when label, context and length are within bounds and panics otherwise; the
  bound on the length is 254 blocks, one less than the RFC allows. Different labels, contexts or lengths are expanded over
  different infos, so that no two keys of the schedule are derived from the same input.
\<close>

theorem hkdf_expand_exact:
  assumes "\<And>k m. length (hmac k m) = 32"
  shows "hkdf_expand_label hmac secret label ctx n =
      (if length label \<le> 249 \<and> length ctx \<le> 255 \<and> unat n \<le> 254 * 32
       then Some (take (unat n) (hkdf_okm hmac secret (hkdf_info label ctx n) 254)) else None)
    \<and> (hkdf_expand_label hmac secret label ctx n \<noteq> None \<and> hkdf_expand_label hmac secret label' ctx' n' \<noteq> None
         \<and> hkdf_info label ctx n = hkdf_info label' ctx' n' \<longrightarrow> label = label' \<and> ctx = ctx' \<and> n = n')"
  using hkdf_expand_okm [OF assms] hkdf_info_inj [of label ctx n label' ctx' n'] by (auto split: if_splits)

theorem hkdf_expand_exact_witness:
  "hkdf_expand_label (\<lambda>k m. replicate 32 7) [] ''iv'' [] 12 = Some (replicate 12 7)
   \<and> hkdf_expand_label (\<lambda>k m. replicate 32 7) [] ''iv'' [] 8129 = None"
proof -
  have len: "length (replicate 32 (7 :: byte)) = 32"
    by simp
  have okm: "hkdf_okm (\<lambda>k m. replicate 32 7) [] info 254 = replicate 8128 (7 :: byte)" for info
  proof (rule replicate_eqI)
    show "length (hkdf_okm (\<lambda>k m. replicate 32 7) [] info 254) = 8128"
      by (simp add: length_hkdf_okm)
    show "y = 7" if "y \<in> set (hkdf_okm (\<lambda>k m. replicate 32 7) [] info 254)" for y
      using that by (auto simp: hkdf_okm_def)
  qed
  show ?thesis
    using hkdf_expand_exact [of "\<lambda>k m. replicate 32 7" "[]" "''iv''" "[]" 12, OF len]
      hkdf_expand_exact [of "\<lambda>k m. replicate 32 7" "[]" "''iv''" "[]" 8129, OF len]
    by (simp add: okm)
qed

text \<open>
  The key schedule never panics, and all its keys have the lengths TLS 1.3 with AES-128-GCM needs, whatever the
  pre-shared key, the shared secret and the handshake messages.
\<close>

theorem key_schedule_total:
  assumes "\<And>k m. length (hmac k m) = 32" "\<And>m. length (sha256 m) = 32"
  shows "\<exists>b ks. psk_binder hmac sha256 psk prefix = Some b \<and> length b = 32
    \<and> server_schedule hmac sha256 psk ecdhe client_hello server_hello = Some ks
    \<and> length (handshake_secret ks) = 32 \<and> length (client_traffic ks) = 32 \<and> length (server_traffic ks) = 32
    \<and> length (master_secret ks) = 32 \<and> length (server_hs_key ks) = 16 \<and> length (server_hs_iv ks) = 12
    \<and> length (server_finished_key ks) = 32"
  using assms
  by (simp add: psk_binder_def server_schedule_def derive_secret_def hkdf_expand_okm length_hkdf_okm hkdf_extract_def Let_def)

theorem key_schedule_total_witness:
  "\<exists>b ks. psk_binder (\<lambda>k m. replicate 32 7) (\<lambda>m. replicate 32 9) [1] [2] = Some b
    \<and> server_schedule (\<lambda>k m. replicate 32 7) (\<lambda>m. replicate 32 9) [1] [2] [3] [4] = Some ks
    \<and> length (server_hs_key ks) = 16"
  using key_schedule_total [of "\<lambda>k m. replicate 32 7" "\<lambda>m. replicate 32 9" "[1]" "[2]" "[2]" "[3]" "[4]"] by auto

text \<open>
  Hexadecimal text. \<open>parse_hex_blob\<close> reads back what \<open>encode_lower\<close> prints, with anything that is not a
  hexadecimal digit in between.
\<close>

theorem hex_blob_roundtrip:
  "filter is_ascii_hexdigit s = encode_lower bs \<Longrightarrow> parse_hex_blob s = Some bs"
  by (simp add: parse_hex_blob_def encode_lower_hex)

end
