(* ===== verification/Host_Client.thy ===== *)
theory Host_Client
  imports Frame Key_Schedule
begin

text \<open>
  The test client, \<^verbatim>\<open>tools/host_tls_mqtt_client/tls_mqtt_client.c\<close>: it connects to the broker with a
  pre-shared key, sends a CONNECT it has built itself, checks the CONNACK and disconnects. A C string is the list of its
  characters before the terminating zero. A buffer that is filled through a pointer is a list of its size with the
  offset reached; \<open>None\<close> is the return value \<open>-1\<close>. The library mbedTLS is a parameter.
\<close>

unbundle bit_operations_syntax

section \<open>Options\<close>

record client_options =
  opt_server_addr :: string
  opt_server_port :: string
  opt_psk_identity :: string
  opt_psk_hex :: string
  opt_client_id :: string
  opt_username :: string
  opt_password :: string
  opt_keep_alive :: u32
  opt_hold_ms :: u32
  opt_read_timeout_ms :: u32

definition default_options :: client_options where
  "default_options =
     \<lparr>opt_server_addr = ''192.168.0.7'', opt_server_port = ''8883'', opt_psk_identity = ''gatomqtt-psk'',
      opt_psk_hex = ''9A3FC152D86B17A4E3297C10B54D8E6213F7A93C58DE71248BC64A9105EF367D'',
      opt_client_id = ''tls-mqtt-client'', opt_username = ''house'', opt_password = ''secret'',
      opt_keep_alive = 30, opt_hold_ms = 3000, opt_read_timeout_ms = 5000\<rparr>"

definition starts_with :: "string \<Rightarrow> string \<Rightarrow> bool" where
  "starts_with v prefix = (take (length prefix) v = prefix)"

text \<open>
  The standard library's \<open>strtoul\<close> in base 10: white space, a sign, digits. It stops at the first other character and
  returns the rest; the value saturates at \<open>ULONG_MAX\<close>, a parameter, and a minus sign negates it modulo
  \<open>ULONG_MAX + 1\<close>. Without digits the rest is the whole text.
\<close>

definition isdigit :: "char \<Rightarrow> bool" where
  "isdigit c \<longleftrightarrow> 48 \<le> (of_char c :: nat) \<and> (of_char c :: nat) \<le> 57"

definition isspace :: "char \<Rightarrow> bool" where
  "isspace c \<longleftrightarrow> (of_char c :: nat) = 32 \<or> 9 \<le> (of_char c :: nat) \<and> (of_char c :: nat) \<le> 13"

definition decimal :: "string \<Rightarrow> nat" where
  "decimal ds = fold (\<lambda>c n. 10 * n + (of_char c - 48)) ds 0"

definition strtoul :: "nat \<Rightarrow> string \<Rightarrow> nat \<times> string" where
  "strtoul ulong_max text =
     (let t = dropWhile isspace text;
          neg = (t \<noteq> [] \<and> hd t = CHR ''-'');
          u = (if t \<noteq> [] \<and> (hd t = CHR ''-'' \<or> hd t = CHR ''+'') then tl t else t);
          ds = takeWhile isdigit u
      in if ds = [] then (0, text)
         else (if decimal ds > ulong_max then ulong_max
               else if neg then (ulong_max + 1 - decimal ds) mod (ulong_max + 1) else decimal ds,
               dropWhile isdigit u))"

definition parse_u32 :: "nat \<Rightarrow> string \<Rightarrow> u32 option" where
  "parse_u32 ulong_max text =
     (let (v, rest) = strtoul ulong_max text
      in if text = [] \<or> rest \<noteq> [] \<or> v > 0xffffffff then None else Some (word_of_nat v))"

datatype parse_result = Help | BadArgs | Parsed client_options

definition parse_arg :: "nat \<Rightarrow> string \<Rightarrow> client_options \<Rightarrow> client_options option" where
  "parse_arg ulong_max arg opt =
     (if starts_with arg ''server_addr='' then Some (opt\<lparr>opt_server_addr := drop 12 arg\<rparr>)
      else if starts_with arg ''server_port='' then Some (opt\<lparr>opt_server_port := drop 12 arg\<rparr>)
      else if starts_with arg ''psk_identity='' then Some (opt\<lparr>opt_psk_identity := drop 13 arg\<rparr>)
      else if starts_with arg ''psk='' then Some (opt\<lparr>opt_psk_hex := drop 4 arg\<rparr>)
      else if starts_with arg ''client_id='' then Some (opt\<lparr>opt_client_id := drop 10 arg\<rparr>)
      else if starts_with arg ''username='' then Some (opt\<lparr>opt_username := drop 9 arg\<rparr>)
      else if starts_with arg ''password='' then Some (opt\<lparr>opt_password := drop 9 arg\<rparr>)
      else if starts_with arg ''keep_alive='' then
        map_option (\<lambda>n. opt\<lparr>opt_keep_alive := n\<rparr>) (parse_u32 ulong_max (drop 11 arg))
      else if starts_with arg ''hold_ms='' then
        map_option (\<lambda>n. opt\<lparr>opt_hold_ms := n\<rparr>) (parse_u32 ulong_max (drop 8 arg))
      else if starts_with arg ''read_timeout_ms='' then
        map_option (\<lambda>n. opt\<lparr>opt_read_timeout_ms := n\<rparr>) (parse_u32 ulong_max (drop 16 arg))
      else None)"

fun parse_arg_loop :: "nat \<Rightarrow> string list \<Rightarrow> client_options \<Rightarrow> parse_result" where
  "parse_arg_loop ulong_max [] opt = Parsed opt"
| "parse_arg_loop ulong_max (arg # args) opt =
     (if arg = ''--help'' \<or> arg = ''-h'' then Help
      else case parse_arg ulong_max arg opt of
             None \<Rightarrow> BadArgs
           | Some opt' \<Rightarrow> parse_arg_loop ulong_max args opt')"

definition parse_args :: "nat \<Rightarrow> string list \<Rightarrow> parse_result" where
  "parse_args ulong_max args = parse_arg_loop ulong_max args default_options"

section \<open>The key\<close>

definition c_hex_nibble :: "char \<Rightarrow> int" where
  "c_hex_nibble ch =
     (let c = of_char ch
      in if of_char CHR ''0'' \<le> c \<and> c \<le> of_char CHR ''9'' then c - of_char CHR ''0''
         else if of_char CHR ''a'' \<le> c \<and> c \<le> of_char CHR ''f'' then 10 + (c - of_char CHR ''a'')
         else if of_char CHR ''A'' \<le> c \<and> c \<le> of_char CHR ''F'' then 10 + (c - of_char CHR ''A'')
         else - 1)"

fun decode_hex_loop :: "string \<Rightarrow> bytes option" where
  "decode_hex_loop (a # b # cs) =
     (let hi = c_hex_nibble a; lo = c_hex_nibble b
      in if hi < 0 \<or> lo < 0 then None
         else map_option (Cons (word_of_int (push_bit 4 hi OR lo))) (decode_hex_loop cs))"
| "decode_hex_loop _ = Some []"

definition decode_hex :: "string \<Rightarrow> nat \<Rightarrow> bytes option" where
  "decode_hex hex out_size =
     (if length hex mod 2 \<noteq> 0 then None
      else if length hex div 2 > out_size then None
      else decode_hex_loop hex)"

section \<open>The CONNECT packet\<close>

definition write_u16 :: "u16 \<Rightarrow> bytes" where
  "write_u16 v = [ucast (drop_bit 8 v AND 0xff), ucast (v AND 0xff)]"

definition append_utf8 :: "string \<Rightarrow> bytes \<times> nat \<Rightarrow> (bytes \<times> nat) option" where
  "append_utf8 v st =
     (let (buf, offset) = st; len = length v
      in if len > 0xffff \<or> offset + 2 + len > length buf then None
         else Some (put_at (offset + 2) (str_bytes v) (put_at offset (write_u16 (word_of_nat len)) buf), offset + 2 + len))"

definition append_optional :: "string \<Rightarrow> bytes \<times> nat \<Rightarrow> (bytes \<times> nat) option" where
  "append_optional v st = (if v \<noteq> [] then append_utf8 v st else Some st)"

definition connect_flags :: "client_options \<Rightarrow> byte" where
  "connect_flags opt =
     0x02 OR (if opt_username opt \<noteq> [] then 0x80 else 0) OR (if opt_password opt \<noteq> [] then 0x40 else 0)"

definition build_connect_packet :: "client_options \<Rightarrow> bytes \<Rightarrow> (bytes \<times> nat) option" where
  "build_connect_packet opt buf0 =
     (if length buf0 < 2 then None
      else case append_utf8 ''MQTT'' (buf0, 2) of None \<Rightarrow> None | Some (buf1, off1) \<Rightarrow>
      if off1 + 4 > length buf0 then None
      else case append_utf8 (opt_client_id opt)
          (put_at (off1 + 2) (write_u16 (ucast (opt_keep_alive opt))) (put_at off1 [0x04, connect_flags opt] buf1), off1 + 4)
        of None \<Rightarrow> None | Some st2 \<Rightarrow>
      case append_optional (opt_username opt) st2 of None \<Rightarrow> None | Some st3 \<Rightarrow>
      case append_optional (opt_password opt) st3 of None \<Rightarrow> None | Some (buf4, off4) \<Rightarrow>
      if off4 - 2 > 127 then None
      else Some (put_at 0 [0x10, word_of_nat (off4 - 2)] buf4, off4))"

section \<open>mbedTLS\<close>

text \<open>
  What the client uses of the library. \<open>ssl_setup\<close> stands for the calls from seeding the generator to connecting the
  socket, which are made one after the other until one fails. \<open>ssl_read n\<close> also returns the bytes it has put into the
  buffer.
\<close>

record 's mbedtls =
  ssl_setup :: "client_options \<Rightarrow> bytes \<Rightarrow> 's \<Rightarrow> int \<times> 's"
  ssl_handshake :: "'s \<Rightarrow> int \<times> 's"
  ssl_write :: "bytes \<Rightarrow> 's \<Rightarrow> int \<times> 's"
  ssl_read :: "nat \<Rightarrow> 's \<Rightarrow> int \<times> bytes \<times> 's"
  ssl_close_notify :: "'s \<Rightarrow> int \<times> 's"
  SSL_WANT_READ :: int
  SSL_WANT_WRITE :: int
  SSL_CONN_EOF :: int

definition ssl_wants :: "'s mbedtls \<Rightarrow> int \<Rightarrow> bool" where
  "ssl_wants m ret \<longleftrightarrow> ret = SSL_WANT_READ m \<or> ret = SSL_WANT_WRITE m"

text \<open>The three loops go on for as long as the library wants to be called again; \<open>None\<close>: for ever.\<close>

partial_function (option) ssl_retry :: "'s mbedtls \<Rightarrow> ('s \<Rightarrow> int \<times> 's) \<Rightarrow> 's \<Rightarrow> (int \<times> 's) option" where
  "ssl_retry m call s = (case call s of (ret, s') \<Rightarrow> if ssl_wants m ret then ssl_retry m call s' else Some (ret, s'))"

partial_function (option) ssl_write_all :: "'s mbedtls \<Rightarrow> bytes \<Rightarrow> nat \<Rightarrow> 's \<Rightarrow> (int \<times> 's) option" where
  "ssl_write_all m buf offset s =
     (if offset < length buf
      then (case ssl_write m (drop offset buf) s of
              (ret, s') \<Rightarrow>
                if ret > 0 then ssl_write_all m buf (offset + nat ret) s'
                else if ssl_wants m ret then ssl_write_all m buf offset s'
                else Some (ret, s'))
      else Some (0, s))"

partial_function (option) ssl_read_exact :: "'s mbedtls \<Rightarrow> nat \<Rightarrow> bytes \<Rightarrow> 's \<Rightarrow> (int \<times> bytes \<times> 's) option" where
  "ssl_read_exact m len got s =
     (if length got < len
      then (case ssl_read m (len - length got) s of
              (ret, bs, s') \<Rightarrow>
                if ret > 0 then ssl_read_exact m len (got @ bs) s'
                else if ssl_wants m ret then ssl_read_exact m len got s'
                else Some (if ret = 0 then SSL_CONN_EOF m else ret, got, s'))
      else Some (0, got, s))"

section \<open>The session\<close>

text \<open>From the handshake to the end; the result is the exit code.\<close>

definition client_session :: "'s mbedtls \<Rightarrow> bytes \<Rightarrow> 's \<Rightarrow> (int \<times> 's) option" where
  "client_session m packet s0 =
     (case ssl_retry m (ssl_handshake m) s0 of None \<Rightarrow> None | Some (ret, s1) \<Rightarrow>
      if ret \<noteq> 0 then Some (1, s1)
      else case ssl_write_all m packet 0 s1 of None \<Rightarrow> None | Some (ret, s2) \<Rightarrow>
      if ret \<noteq> 0 then Some (1, s2)
      else case ssl_read_exact m 4 [] s2 of None \<Rightarrow> None | Some (ret, connack, s3) \<Rightarrow>
      if ret \<noteq> 0 then Some (1, s3)
      else if connack ! 0 \<noteq> 0x20 \<or> connack ! 1 \<noteq> 0x02 then Some (1, s3)
      else if connack ! 3 \<noteq> 0 then Some (1, s3)
      else case ssl_write_all m [0xe0, 0x00] 0 s3 of None \<Rightarrow> None | Some (ret, s4) \<Rightarrow>
      if ret \<noteq> 0 then Some (1, s4)
      else case ssl_retry m (ssl_close_notify m) s4 of None \<Rightarrow> None | Some (_, s5) \<Rightarrow> Some (0, s5))"

definition client_main :: "nat \<Rightarrow> 's mbedtls \<Rightarrow> string list \<Rightarrow> bytes \<Rightarrow> 's \<Rightarrow> (int \<times> 's) option" where
  "client_main ulong_max m args connect_buf s =
     (case parse_args ulong_max args of
        Parsed opt \<Rightarrow>
          (case decode_hex (opt_psk_hex opt) 64 of
             None \<Rightarrow> Some (3, s)
           | Some psk \<Rightarrow>
               (case build_connect_packet opt connect_buf of
                  None \<Rightarrow> Some (4, s)
                | Some (buf, connect_len) \<Rightarrow>
                    (case ssl_setup m opt psk s of
                       (ret, s') \<Rightarrow> if ret \<noteq> 0 then Some (1, s') else client_session m (take connect_len buf) s')))
      | _ \<Rightarrow> Some (2, s))"

section \<open>What the packet contains\<close>

definition utf8_field :: "string \<Rightarrow> bytes" where
  "utf8_field v = u16_to_be_bytes (word_of_nat (length v)) @ str_bytes v"

definition optional_field :: "string \<Rightarrow> bytes" where
  "optional_field v = (if v \<noteq> [] then utf8_field v else [])"

definition connect_body :: "client_options \<Rightarrow> bytes" where
  "connect_body opt =
     utf8_field ''MQTT'' @ [0x04, connect_flags opt] @ u16_to_be_bytes (ucast (opt_keep_alive opt))
     @ utf8_field (opt_client_id opt) @ optional_field (opt_username opt) @ optional_field (opt_password opt)"

lemma write_u16_be: "write_u16 v = u16_to_be_bytes v"
proof -
  have "(0xff :: u16) = mask 8"
    by (simp add: mask_eq_exp_minus_1)
  then have "write_u16 v = [ucast (drop_bit 8 v AND mask 8), ucast (v AND mask 8)]"
    by (simp only: write_u16_def)
  then show ?thesis
    by (auto simp: u16_to_be_bytes_def bit_simps intro!: bit_word_eqI)
qed

lemma length_utf8_field [simp]: "length (utf8_field v) = 2 + length v"
  by (simp add: utf8_field_def)

lemma length_optional_field: "length (optional_field v) = (if v = [] then 0 else 2 + length v)"
  by (simp add: optional_field_def)

text \<open>A buffer of size \<open>n\<close> filled with \<open>pre\<close> up to the offset.\<close>

definition filled :: "nat \<Rightarrow> bytes \<Rightarrow> bytes \<times> nat \<Rightarrow> bool" where
  "filled n pre st \<longleftrightarrow> length (fst st) = n \<and> snd st = length pre \<and> length pre \<le> n \<and> take (length pre) (fst st) = pre"

lemma filled_put:
  assumes "filled n pre st" "length pre + length bs \<le> n"
  shows "filled n (pre @ bs) (put_at (snd st) bs (fst st), snd st + length bs)"
  using assms take_put_at [of "length pre" "fst st" bs] by (simp add: filled_def)

lemma filled_append:
  assumes "filled n pre st" "length v \<le> 0xffff \<and> length pre + 2 + length v \<le> n"
  obtains st' where "append_utf8 v st = Some st'" "filled n (pre @ utf8_field v) st'"
proof -
  let ?st1 = "(put_at (snd st) (write_u16 (word_of_nat (length v))) (fst st), snd st + 2)"
  have "filled n (pre @ u16_to_be_bytes (word_of_nat (length v))) ?st1"
    using filled_put [OF assms(1), of "u16_to_be_bytes (word_of_nat (length v))"] assms(2) by (simp add: write_u16_be)
  from filled_put [OF this, of "str_bytes v"] assms(2)
  have "filled n (pre @ utf8_field v) (put_at (snd st + 2) (str_bytes v) (fst ?st1), snd st + 2 + length v)"
    by (simp add: utf8_field_def)
  moreover have "append_utf8 v st = Some (put_at (snd st + 2) (str_bytes v) (fst ?st1), snd st + 2 + length v)"
    using assms by (simp add: append_utf8_def filled_def case_prod_unfold Let_def)
  ultimately show ?thesis
    using that by blast
qed

lemma append_utf8_None:
  "filled n pre st \<Longrightarrow> \<not> (length v \<le> 0xffff \<and> length pre + 2 + length v \<le> n) \<Longrightarrow> append_utf8 v st = None"
  by (auto simp: append_utf8_def filled_def case_prod_unfold Let_def)

text \<open>A result that is either the buffer filled with \<open>pre\<close>, or a failure because \<open>pre\<close> is too long.\<close>

definition outcome :: "nat \<Rightarrow> bytes \<Rightarrow> (bytes \<times> nat) option \<Rightarrow> bool" where
  "outcome n pre r \<longleftrightarrow> (case r of None \<Rightarrow> length pre > n \<or> length pre > 129 | Some st \<Rightarrow> filled n pre st)"

lemma outcome_bind:
  assumes "outcome n pre r" "\<And>st. filled n pre st \<Longrightarrow> outcome n (pre @ bs) (f st)"
  shows "outcome n (pre @ bs) (case r of None \<Rightarrow> None | Some st \<Rightarrow> f st)"
proof (cases r)
  case None
  with assms(1) show ?thesis
    by (auto simp: outcome_def)
next
  case (Some st)
  with assms show ?thesis
    by (simp add: outcome_def)
qed

lemma append_outcome:
  assumes "filled n pre st"
  shows "outcome n (pre @ utf8_field v) (append_utf8 v st)"
proof (cases "length v \<le> 0xffff \<and> length pre + 2 + length v \<le> n")
  case True
  then obtain st' where "append_utf8 v st = Some st'" "filled n (pre @ utf8_field v) st'"
    by (rule filled_append [OF assms])
  then show ?thesis
    by (simp add: outcome_def)
next
  case False
  then show ?thesis
    using append_utf8_None [OF assms False] by (auto simp: outcome_def)
qed

lemma append_optional_outcome:
  assumes "filled n pre st"
  shows "outcome n (pre @ optional_field v) (append_optional v st)"
  using append_outcome [OF assms, of v] assms by (auto simp: append_optional_def optional_field_def outcome_def)

lemma fixed_fields_outcome:
  assumes "filled n pre st" "length bs = 4"
    and "\<And>st'. filled n (pre @ bs) st' \<Longrightarrow> outcome n (pre @ bs @ bs') (f st')"
  shows "outcome n (pre @ bs @ bs') (if snd st + 4 > n then None
      else f (put_at (snd st + 2) (drop 2 bs) (put_at (snd st) (take 2 bs) (fst st)), snd st + 4))"
proof (cases "snd st + 4 > n")
  case True
  with assms show ?thesis
    by (simp add: outcome_def filled_def)
next
  case False
  with assms have "filled n (pre @ take 2 bs) (put_at (snd st) (take 2 bs) (fst st), snd st + 2)"
    using filled_put [OF assms(1), of "take 2 bs"] by (simp add: filled_def)
  from filled_put [OF this, of "drop 2 bs"] False assms
  have "filled n (pre @ bs) (put_at (snd st + 2) (drop 2 bs) (put_at (snd st) (take 2 bs) (fst st)), snd st + 4)"
    by (simp add: filled_def)
  with assms(3) False show ?thesis
    by simp
qed

text \<open>The packet is built exactly when its body has at most 127 bytes and the buffer has room for it.\<close>

definition connect_packet :: "client_options \<Rightarrow> bytes" where
  "connect_packet opt = 0x10 # word_of_nat (length (connect_body opt)) # connect_body opt"

lemma fields_outcome:
  assumes "filled n pre st"
  shows "outcome n (pre @ utf8_field cid @ optional_field usr @ optional_field pw)
    (case append_utf8 cid st of None \<Rightarrow> None | Some st2 \<Rightarrow>
     case append_optional usr st2 of None \<Rightarrow> None | Some st3 \<Rightarrow> append_optional pw st3)"
proof -
  have "outcome n (((pre @ utf8_field cid) @ optional_field usr) @ optional_field pw)
      (case append_optional usr st2 of None \<Rightarrow> None | Some st3 \<Rightarrow> append_optional pw st3)"
    if "filled n (pre @ utf8_field cid) st2" for st2
    by (rule outcome_bind [OF append_optional_outcome [OF that]]) (rule append_optional_outcome)
  then have "outcome n ((pre @ utf8_field cid) @ (optional_field usr @ optional_field pw))
      (case append_utf8 cid st of None \<Rightarrow> None | Some st2 \<Rightarrow>
       case append_optional usr st2 of None \<Rightarrow> None | Some st3 \<Rightarrow> append_optional pw st3)"
    by (intro outcome_bind [OF append_outcome [OF assms]]) simp
  then show ?thesis
    by simp
qed

lemma build_connect_spec:
  "case build_connect_packet opt buf of
     None \<Rightarrow> length (connect_body opt) > 127 \<or> 2 + length (connect_body opt) > length buf
   | Some (buf', n) \<Rightarrow> length (connect_body opt) \<le> 127 \<and> 2 + length (connect_body opt) \<le> length buf
       \<and> take n buf' = connect_packet opt"
proof (cases "length buf < 2")
  case False
  let ?n = "length buf" and ?fixed = "[0x04, connect_flags opt] @ u16_to_be_bytes (ucast (opt_keep_alive opt))"
  let ?fields = "\<lambda>st. case append_utf8 (opt_client_id opt) st of None \<Rightarrow> None | Some st2 \<Rightarrow>
        case append_optional (opt_username opt) st2 of None \<Rightarrow> None | Some st3 \<Rightarrow> append_optional (opt_password opt) st3"
  define r where "r = (case append_utf8 ''MQTT'' (buf, 2) of None \<Rightarrow> None | Some st1 \<Rightarrow>
      if snd st1 + 4 > ?n then None
      else ?fields (put_at (snd st1 + 2) (drop 2 ?fixed) (put_at (snd st1) (take 2 ?fixed) (fst st1)), snd st1 + 4))"
  have "filled ?n (take 2 buf) (buf, 2)"
    using False by (simp add: filled_def)
  then have "outcome ?n ((take 2 buf @ utf8_field ''MQTT'') @ (?fixed @ utf8_field (opt_client_id opt)
      @ optional_field (opt_username opt) @ optional_field (opt_password opt))) r"
    unfolding r_def
  proof (intro outcome_bind [OF append_outcome] fixed_fields_outcome)
    fix q st'
    assume "filled ?n (q @ ?fixed) st'"
    from fields_outcome [OF this] show "outcome ?n (q @ ?fixed @ utf8_field (opt_client_id opt)
        @ optional_field (opt_username opt) @ optional_field (opt_password opt)) (?fields st')"
      by simp
  qed simp_all
  then have "outcome ?n (take 2 buf @ connect_body opt) r"
    by (simp add: connect_body_def)
  moreover have "build_connect_packet opt buf = (case r of None \<Rightarrow> None | Some (buf4, off4) \<Rightarrow>
      if off4 - 2 > 127 then None else Some (put_at 0 [0x10, word_of_nat (off4 - 2)] buf4, off4))"
    using False by (auto simp: build_connect_packet_def r_def write_u16_be split: option.splits prod.splits)
  moreover have "take k (drop 2 aa) = b" if "take (Suc (Suc k)) aa = take 2 buf @ b" for k aa b
  proof -
    have "take k (drop 2 aa) = drop 2 (take (Suc (Suc k)) aa)"
      by (simp add: drop_take)
    with that False show ?thesis
      by simp
  qed
  ultimately show ?thesis
    using False
    by (auto simp: outcome_def filled_def put_at_def connect_packet_def take_Cons' numeral_2_eq_2
        split: option.splits prod.splits)
qed (simp add: build_connect_packet_def)

section \<open>Numbers\<close>

lemma strtoul_digits:
  assumes "list_all isdigit ds" "ds \<noteq> []"
  shows "strtoul ulong_max ds = (min (decimal ds) ulong_max, [])"
proof -
  obtain d ds' where ds: "ds = d # ds'" "isdigit d"
    using assms by (cases ds) auto
  then have "\<not> isspace d" "d \<noteq> CHR ''-''" "d \<noteq> CHR ''+''"
    by (auto simp: isdigit_def isspace_def)
  with ds have "dropWhile isspace ds = ds" "hd ds \<noteq> CHR ''-''" "hd ds \<noteq> CHR ''+''"
    by simp_all
  moreover have "\<forall>x \<in> set ds. isdigit x"
    using assms(1) by (simp add: list_all_iff)
  moreover from this have tw: "takeWhile isdigit ds = ds"
    by simp
  ultimately show ?thesis
    using assms(2) by (simp add: strtoul_def Let_def min_def tw del: takeWhile_eq_all_conv)
qed

text \<open>
  Where \<open>unsigned long\<close> is wider than 32 bits a decimal number is accepted exactly when it fits. Where it has 32 bits the
  test for overflow cannot succeed: every number that does not fit is accepted as the greatest one.
\<close>

lemma parse_u32_digits:
  assumes "list_all isdigit ds" "ds \<noteq> []"
  shows "0xffffffff < ulong_max \<Longrightarrow>
      parse_u32 ulong_max ds = (if decimal ds \<le> 0xffffffff then Some (word_of_nat (decimal ds)) else None)"
    and "parse_u32 0xffffffff ds = Some (word_of_nat (min (decimal ds) 0xffffffff))"
  using assms by (auto simp: parse_u32_def strtoul_digits Let_def min_def)

section \<open>Hexadecimal keys\<close>

lemma c_hex_nibble_digit:
  "0 \<le> c_hex_nibble c \<longleftrightarrow> is_ascii_hexdigit c"
  "is_ascii_hexdigit c \<Longrightarrow> c_hex_nibble c = int (hex_digit_value c) \<and> hex_digit_value c < 16"
proof -
  have "(of_char c :: int) = int (of_char c)"
    by (simp only: of_nat_of_char)
  then show "0 \<le> c_hex_nibble c \<longleftrightarrow> is_ascii_hexdigit c"
    "is_ascii_hexdigit c \<Longrightarrow> c_hex_nibble c = int (hex_digit_value c) \<and> hex_digit_value c < 16"
    by (auto simp: c_hex_nibble_def is_ascii_hexdigit_def hex_digit_value_def Let_def)
qed

lemma nibbles_or:
  assumes "0 \<le> lo" "lo < 16"
  shows "push_bit 4 hi OR lo = 16 * hi + (lo :: int)"
proof -
  have "take_bit 4 lo = lo"
    using assms by (simp add: take_bit_int_eq_self_iff)
  then have "\<not> bit lo n" if "4 \<le> n" for n
    using that by (metis bit_take_bit_iff not_less)
  then have "push_bit 4 hi AND lo = 0"
    by (intro bit_eqI) (auto simp: bit_simps)
  then show ?thesis
    by (simp add: disjunctive_add_eq_or [symmetric] push_bit_eq_mult mult.commute)
qed

lemma decode_hex_loop_pairs:
  assumes "even (length hex)"
  shows "decode_hex_loop hex = (if list_all is_ascii_hexdigit hex then Some (hex_pairs hex) else None)"
  using assms
proof (induction hex rule: decode_hex_loop.induct)
  case (1 a b cs)
  show ?case
  proof (cases "is_ascii_hexdigit a \<and> is_ascii_hexdigit b")
    case True
    let ?v = "16 * hex_digit_value a + hex_digit_value b"
    have "push_bit 4 (c_hex_nibble a) OR c_hex_nibble b = int ?v"
      using True c_hex_nibble_digit(2) [of a] c_hex_nibble_digit(2) [of b] by (simp add: nibbles_or)
    moreover have "\<not> c_hex_nibble a < 0" "\<not> c_hex_nibble b < 0"
      using True c_hex_nibble_digit(1) [of a] c_hex_nibble_digit(1) [of b] by linarith+
    ultimately show ?thesis
      using True 1 by (simp add: Let_def)
  next
    case False
    then have "c_hex_nibble a < 0 \<or> c_hex_nibble b < 0"
      using c_hex_nibble_digit(1) [of a] c_hex_nibble_digit(1) [of b] by linarith
    with False show ?thesis
      by (auto simp: Let_def)
  qed
qed simp_all

lemma decode_hex_iff:
  "decode_hex hex n =
     (if even (length hex) \<and> length hex div 2 \<le> n \<and> list_all is_ascii_hexdigit hex then parse_hex_blob hex else None)"
  by (auto simp: decode_hex_def decode_hex_loop_pairs parse_hex_blob_def filter_all even_iff_mod_2_eq_zero)

section \<open>Partial correctness of the loops\<close>

text \<open>
  What is documented of the library: a non-negative result of \<open>mbedtls_ssl_write\<close> is the number of bytes taken from the
  front of the buffer, one of \<open>mbedtls_ssl_read\<close> the number of bytes delivered, and nothing else is sent or received
  as application data. A write of at least one byte may result in zero: \<open>ssl_write_all\<close> then ends and returns this zero,
  which its callers take for success. \<open>ssl_progress\<close> says that a library never does so.
\<close>

definition ssl_log :: "'s mbedtls \<Rightarrow> ('s \<Rightarrow> bytes) \<Rightarrow> ('s \<Rightarrow> bytes) \<Rightarrow> bool" where
  "ssl_log m sent got \<longleftrightarrow>
     (\<forall>bs s ret s'. ssl_write m bs s = (ret, s') \<longrightarrow> got s' = got s \<and> nat ret \<le> length bs
        \<and> sent s' = sent s @ take (nat ret) bs)
     \<and> (\<forall>n s ret bs s'. ssl_read m n s = (ret, bs, s') \<longrightarrow> sent s' = sent s \<and> length bs = nat ret \<and> nat ret \<le> n
        \<and> got s' = got s @ bs)
     \<and> (\<forall>s ret s'. ssl_handshake m s = (ret, s') \<or> ssl_close_notify m s = (ret, s') \<longrightarrow> sent s' = sent s \<and> got s' = got s)
     \<and> (\<forall>opt psk s ret s'. ssl_setup m opt psk s = (ret, s') \<longrightarrow> sent s' = sent s \<and> got s' = got s)"

definition ssl_progress :: "'s mbedtls \<Rightarrow> bool" where
  "ssl_progress m \<longleftrightarrow> (\<forall>bs s. bs \<noteq> [] \<longrightarrow> fst (ssl_write m bs s) \<noteq> 0)"

lemma ssl_write_all_zero:
  "offset < length buf \<Longrightarrow> ssl_write m (drop offset buf) s = (0, s') \<Longrightarrow> \<not> ssl_wants m 0 \<Longrightarrow>
   ssl_write_all m buf offset s = Some (0, s')"
  by (subst ssl_write_all.simps) simp

lemma ssl_log_write:
  "ssl_log m sent got \<Longrightarrow> ssl_write m bs s = (ret, s') \<Longrightarrow>
   got s' = got s \<and> nat ret \<le> length bs \<and> sent s' = sent s @ take (nat ret) bs"
  unfolding ssl_log_def by blast

lemma ssl_log_read:
  "ssl_log m sent got \<Longrightarrow> ssl_read m n s = (ret, bs, s') \<Longrightarrow>
   sent s' = sent s \<and> length bs = nat ret \<and> nat ret \<le> n \<and> got s' = got s @ bs"
  unfolding ssl_log_def by blast

lemma ssl_retry_log:
  assumes "ssl_retry m call s = Some r"
  shows "(\<forall>s ret s'. call s = (ret, s') \<longrightarrow> sent s' = sent s \<and> got s' = got s) \<longrightarrow>
    sent (snd r) = sent s \<and> got (snd r) = got s"
  by (rule ssl_retry.raw_induct [OF _ assms]) (fastforce split: prod.splits if_splits)

lemma ssl_write_all_log:
  assumes "ssl_write_all m buf offset s = Some r"
  shows "ssl_log m sent got \<longrightarrow> offset \<le> length buf \<longrightarrow>
    got (snd r) = got s \<and> (\<exists>k. sent (snd r) = sent s @ take k (drop offset buf)
      \<and> (ssl_progress m \<and> fst r = 0 \<longrightarrow> k = length buf - offset))"
proof (rule ssl_write_all.raw_induct [OF _ assms], intro impI)
  fix rec m buf offset s r
  assume IH: "\<And>m buf offset (s :: 'a) r. rec m buf offset s = Some r \<Longrightarrow> ssl_log m sent got \<longrightarrow> offset \<le> length buf \<longrightarrow>
      got (snd r) = got s \<and> (\<exists>k. sent (snd r) = sent s @ take k (drop offset buf)
        \<and> (ssl_progress m \<and> fst r = 0 \<longrightarrow> k = length buf - offset))"
    and log: "ssl_log m sent got" and offset: "offset \<le> length buf"
    and r: "(if offset < length buf then (case ssl_write m (drop offset buf) s of (ret, s') \<Rightarrow>
        if 0 < ret then rec m buf (offset + nat ret) s' else if ssl_wants m ret then rec m buf offset s'
        else Some (ret, s')) else Some (0, s)) = Some r"
  show "got (snd r) = got s \<and> (\<exists>k. sent (snd r) = sent s @ take k (drop offset buf)
      \<and> (ssl_progress m \<and> fst r = 0 \<longrightarrow> k = length buf - offset))"
  proof (cases "offset < length buf")
    case True
    obtain ret s' where w: "ssl_write m (drop offset buf) s = (ret, s')"
      by fastforce
    note s' = ssl_log_write [OF log w]
    have pos: "ssl_progress m \<Longrightarrow> ret \<noteq> 0"
      using w True unfolding ssl_progress_def by (metis drop_eq_Nil fst_conv not_less)
    have r': "(if 0 < ret then rec m buf (offset + nat ret) s' else if ssl_wants m ret then rec m buf offset s'
        else Some (ret, s')) = Some r"
      using r True w by simp
    show ?thesis
    proof (cases "0 < ret")
      case True
      then obtain k where k: "got (snd r) = got s'" "sent (snd r) = sent s' @ take k (drop (offset + nat ret) buf)"
          "ssl_progress m \<and> fst r = 0 \<longrightarrow> k = length buf - (offset + nat ret)"
        using IH [of m buf "offset + nat ret" s' r] r' log s' \<open>offset < length buf\<close> by auto
      have "take (nat ret) (drop offset buf) @ take k (drop (offset + nat ret) buf) = take (nat ret + k) (drop offset buf)"
        unfolding take_add by (simp add: add.commute)
      with k s' \<open>offset < length buf\<close> show ?thesis by (intro conjI exI [of _ "nat ret + k"]) auto
    next
      case False
      then show ?thesis
        using r' IH [of m buf offset s' r] log s' offset pos by (cases "ssl_wants m ret") (auto intro: exI [of _ 0])
    qed
  qed (use r offset in \<open>auto intro: exI [of _ 0]\<close>)
qed

lemma ssl_read_exact_log:
  assumes "ssl_read_exact m len got0 s = Some r"
  shows "ssl_log m sent got \<longrightarrow> length got0 \<le> len \<longrightarrow> SSL_CONN_EOF m \<noteq> 0 \<longrightarrow>
    sent (snd (snd r)) = sent s
    \<and> (fst r = 0 \<longrightarrow> (\<exists>bs. fst (snd r) = got0 @ bs \<and> length (got0 @ bs) = len \<and> got (snd (snd r)) = got s @ bs))"
proof (rule ssl_read_exact.raw_induct [OF _ assms], intro impI)
  fix rec m len got0 s r
  assume IH: "\<And>m len got0 (s :: 'a) r. rec m len got0 s = Some r \<Longrightarrow>
      ssl_log m sent got \<longrightarrow> length got0 \<le> len \<longrightarrow> SSL_CONN_EOF m \<noteq> 0 \<longrightarrow> sent (snd (snd r)) = sent s
    \<and> (fst r = 0 \<longrightarrow> (\<exists>bs. fst (snd r) = got0 @ bs \<and> length (got0 @ bs) = len \<and> got (snd (snd r)) = got s @ bs))"
    and log: "ssl_log m sent got" and len: "length got0 \<le> len" and eof: "SSL_CONN_EOF m \<noteq> 0"
    and r: "(if length got0 < len then (case ssl_read m (len - length got0) s of (ret, bs, s') \<Rightarrow>
        if 0 < ret then rec m len (got0 @ bs) s' else if ssl_wants m ret then rec m len got0 s'
        else Some (if ret = 0 then SSL_CONN_EOF m else ret, got0, s')) else Some (0, got0, s)) = Some r"
  show "sent (snd (snd r)) = sent s
    \<and> (fst r = 0 \<longrightarrow> (\<exists>bs. fst (snd r) = got0 @ bs \<and> length (got0 @ bs) = len \<and> got (snd (snd r)) = got s @ bs))"
  proof (cases "length got0 < len")
    case True
    obtain ret bs s' where w: "ssl_read m (len - length got0) s = (ret, bs, s')"
      by (metis prod_cases3)
    note s' = ssl_log_read [OF log w]
    have r': "(if 0 < ret then rec m len (got0 @ bs) s' else if ssl_wants m ret then rec m len got0 s'
        else Some (if ret = 0 then SSL_CONN_EOF m else ret, got0, s')) = Some r"
      using r True w by simp
    show ?thesis
      using r' IH [of m len "got0 @ bs" s' r] IH [of m len got0 s' r] log s' len eof True
      by (cases "0 < ret"; cases "ssl_wants m ret") (simp_all, auto split: if_splits)
  qed (use r len in auto)
qed

lemma client_session_log:
  assumes log: "ssl_log m sent got" and eof: "SSL_CONN_EOF m \<noteq> 0" and run: "client_session m packet s = Some (0, s')"
  shows "(\<exists>k j. sent s' = sent s @ take k packet @ take j [0xE0, 0x00]
      \<and> (ssl_progress m \<longrightarrow> k = length packet \<and> j = 2)) \<and> (\<exists>flags. got s' = got s @ [0x20, 0x02, flags, 0x00])"
proof -
  have silent: "\<forall>s ret s'. ssl_handshake m s = (ret, s') \<longrightarrow> sent s' = sent s \<and> got s' = got s"
    "\<forall>s ret s'. ssl_close_notify m s = (ret, s') \<longrightarrow> sent s' = sent s \<and> got s' = got s"
    using log unfolding ssl_log_def by blast+
  obtain s1 s2 s3 s4 connack ret5 where
    run1: "ssl_retry m (ssl_handshake m) s = Some (0, s1)" and run2: "ssl_write_all m packet 0 s1 = Some (0, s2)"
    and run3: "ssl_read_exact m 4 [] s2 = Some (0, connack, s3)"
    and header: "connack ! 0 = 0x20" "connack ! 1 = 0x02" "connack ! 3 = 0"
    and run4: "ssl_write_all m [0xe0, 0x00] 0 s3 = Some (0, s4)" and run5: "ssl_retry m (ssl_close_notify m) s4 = Some (ret5, s')"
    using run by (auto simp: client_session_def split: option.splits prod.splits if_splits)
  obtain k where k: "got s2 = got s1" "sent s2 = sent s1 @ take k packet" "ssl_progress m \<longrightarrow> k = length packet"
    using ssl_write_all_log [OF run2, of sent got] log by simp blast
  obtain j where j: "got s4 = got s3" "sent s4 = sent s3 @ take j [0xE0, 0x00]" "ssl_progress m \<longrightarrow> j = 2"
    using ssl_write_all_log [OF run4, of sent got] log by (simp add: numeral_2_eq_2) blast
  have "length connack = 4" "got s3 = got s2 @ connack" "sent s3 = sent s2"
    using ssl_read_exact_log [OF run3, of sent got] log eof by auto
  moreover have "connack = [connack ! 0, connack ! 1, connack ! 2, connack ! 3]" if "length connack = 4"
    using that by (intro nth_equalityI) (auto simp: less_Suc_eq numeral_eq_Suc)
  ultimately show ?thesis
    using ssl_retry_log [OF run1, of sent got] ssl_retry_log [OF run5, of sent got] silent k j header
    by (intro conjI exI [of _ k] exI [of _ j] exI [of _ "connack ! 2"]) auto
qed

section \<open>Return of the loops\<close>

definition ssl_prompt :: "'s mbedtls \<Rightarrow> bool" where
  "ssl_prompt m \<longleftrightarrow>
     (\<forall>s. \<not> ssl_wants m (fst (ssl_handshake m s)) \<and> \<not> ssl_wants m (fst (ssl_close_notify m s)))
     \<and> (\<forall>bs s. \<not> ssl_wants m (fst (ssl_write m bs s))) \<and> (\<forall>n s. \<not> ssl_wants m (fst (ssl_read m n s)))"

lemma ssl_retry_returns: "\<not> ssl_wants m (fst (call s)) \<Longrightarrow> ssl_retry m call s = Some (call s)"
  by (subst ssl_retry.simps) (simp add: case_prod_unfold)

lemma ssl_write_all_returns:
  assumes "ssl_prompt m"
  shows "ssl_write_all m buf offset s \<noteq> None"
proof (induction "length buf - offset" arbitrary: offset s rule: less_induct)
  case less
  show ?case
  proof (cases "offset < length buf \<and> 0 < fst (ssl_write m (drop offset buf) s)")
    case True
    then have "length buf - (offset + nat (fst (ssl_write m (drop offset buf) s))) < length buf - offset"
      by (intro diff_less_mono2) simp_all
    from less.hyps [OF this] True show ?thesis
      by (subst ssl_write_all.simps) (simp add: case_prod_unfold)
  next
    case False
    with assms show ?thesis
      by (subst ssl_write_all.simps) (auto simp: case_prod_unfold ssl_prompt_def)
  qed
qed

lemma ssl_read_exact_returns:
  assumes "ssl_prompt m" "ssl_log m sent got"
  shows "ssl_read_exact m len got0 s \<noteq> None"
proof (induction "len - length got0" arbitrary: got0 s rule: less_induct)
  case less
  obtain ret bs s' where r: "ssl_read m (len - length got0) s = (ret, bs, s')"
    by (metis prod_cases3)
  then have stop: "\<not> ssl_wants m ret" and bs: "length bs = nat ret"
    using assms ssl_log_read [OF assms(2) r] unfolding ssl_prompt_def by (metis fst_conv, simp)
  show ?case
  proof (cases "length got0 < len \<and> 0 < ret")
    case True
    then have "len - length (got0 @ bs) < len - length got0"
      using bs by (intro diff_less_mono2) simp_all
    from less.hyps [OF this] True r show ?thesis
      by (subst ssl_read_exact.simps) simp
  next
    case False
    with r stop show ?thesis
      by (subst ssl_read_exact.simps) auto
  qed
qed

lemma client_session_returns:
  assumes "ssl_prompt m" "ssl_log m sent got"
  shows "client_session m packet s \<noteq> None"
proof -
  have "\<not> ssl_wants m (fst (ssl_handshake m s))" "\<not> ssl_wants m (fst (ssl_close_notify m s))" for s
    using assms(1) by (simp_all add: ssl_prompt_def)
  then show ?thesis
    by (auto simp: client_session_def ssl_retry_returns ssl_write_all_returns [OF assms(1)] ssl_read_exact_returns [OF assms]
        split: option.splits prod.splits)
qed

section \<open>Unambiguous packets\<close>

lemma utf8_field_prefix:
  assumes "utf8_field v @ xs = utf8_field w @ ys" "length v \<le> 0xffff" "length w \<le> 0xffff"
  shows "v = w \<and> xs = ys"
proof -
  have "u16_to_be_bytes (word_of_nat (length v)) @ (str_bytes v @ xs)
      = u16_to_be_bytes (word_of_nat (length w)) @ (str_bytes w @ ys)"
    using assms(1) by (simp add: utf8_field_def)
  then have "u16_to_be_bytes (word_of_nat (length v)) = u16_to_be_bytes (word_of_nat (length w))
      \<and> str_bytes v @ xs = str_bytes w @ ys"
    by (rule append_eq_append_conv [THEN iffD1, rotated]) simp
  then have words: "(word_of_nat (length v) :: u16) = word_of_nat (length w)"
    and rest: "str_bytes v @ xs = str_bytes w @ ys"
    by (simp_all only: u16_to_be_inj)
  have "length v < 2 ^ 16" "length w < 2 ^ 16"
    using assms(2,3) by simp_all
  then have "length v = length w"
    using arg_cong [OF words, of unat] by (simp only: unat_u16_of_nat)
  with rest show ?thesis
    by (simp add: str_bytes_eq_iff)
qed

lemma connect_flags_eq:
  "connect_flags opt = connect_flags opt' \<longleftrightarrow>
   (opt_username opt = [] \<longleftrightarrow> opt_username opt' = []) \<and> (opt_password opt = [] \<longleftrightarrow> opt_password opt' = [])"
  by (simp add: connect_flags_def)

lemma optional_field_prefix:
  assumes "optional_field v @ xs = optional_field w @ ys" "v = [] \<longleftrightarrow> w = []" "length v \<le> 0xffff" "length w \<le> 0xffff"
  shows "v = w \<and> xs = ys"
  using assms utf8_field_prefix [of v xs w ys] by (auto simp: optional_field_def split: if_splits)

lemma connect_body_inj:
  assumes eq: "connect_body opt = connect_body opt'" and "length (connect_body opt) \<le> 127"
  shows "opt_client_id opt = opt_client_id opt' \<and> opt_username opt = opt_username opt' \<and> opt_password opt = opt_password opt'
    \<and> (ucast (opt_keep_alive opt) :: u16) = ucast (opt_keep_alive opt')"
proof -
  have bound: "length (opt_client_id o') \<le> 0xffff" "length (opt_username o') \<le> 0xffff" "length (opt_password o') \<le> 0xffff"
    if "length (connect_body o') \<le> 127" for o'
    using that by (auto simp: connect_body_def length_optional_field split: if_splits)
  note bounds = bound [OF assms(2)] bound [of opt', OF assms(2) [unfolded eq]]
  have flags: "connect_flags opt = connect_flags opt'"
    and ka: "u16_to_be_bytes (ucast (opt_keep_alive opt)) = u16_to_be_bytes (ucast (opt_keep_alive opt'))"
    and rest: "utf8_field (opt_client_id opt) @ optional_field (opt_username opt) @ optional_field (opt_password opt)
      = utf8_field (opt_client_id opt') @ optional_field (opt_username opt') @ optional_field (opt_password opt')"
    using eq by (simp_all add: connect_body_def append_eq_append_conv)
  from utf8_field_prefix [OF rest] bounds
  have cid: "opt_client_id opt = opt_client_id opt'"
    and rest': "optional_field (opt_username opt) @ optional_field (opt_password opt)
      = optional_field (opt_username opt') @ optional_field (opt_password opt')"
    by simp_all
  from optional_field_prefix [OF rest'] flags bounds
  have user: "opt_username opt = opt_username opt'" and pw: "optional_field (opt_password opt) = optional_field (opt_password opt')"
    by (simp_all add: connect_flags_eq)
  from optional_field_prefix [of "opt_password opt" "[]" "opt_password opt'" "[]"] pw flags bounds
  have "opt_password opt = opt_password opt'"
    by (simp add: connect_flags_eq)
  with cid user ka show ?thesis
    by (simp add: u16_to_be_inj)
qed

section \<open>Properties\<close>

lemma short_varint:
  assumes "n \<le> 127"
  shows "is_varint [word_of_nat n]" "varint_value [word_of_nat n] = n"
proof -
  have u: "unat (word_of_nat n :: byte) = n"
    using assms by (simp add: unsigned_of_nat take_bit_nat_eq_self)
  have "take_bit 7 (word_of_nat n :: byte) = word_of_nat n"
    using assms by (simp add: word_unat_eq_iff unsigned_take_bit_eq u take_bit_nat_eq_self)
  then have low: "(word_of_nat n :: byte) AND 0x7F = word_of_nat n"
    by (simp add: take_bit_eq_mask mask_eq_exp_minus_1)
  then have "(word_of_nat n :: byte) AND 0x80 = word_of_nat n AND (0x7F AND 0x80)"
    by (simp only: and.assoc [symmetric])
  then show "is_varint [word_of_nat n]"
    by (simp add: is_varint_def)
  show "varint_value [word_of_nat n] = n"
    using low u by simp
qed

text \<open>
  C8: client and broker. Over any byte stream that starts with a CONNECT that the client has built, in whatever pieces, the
  broker's packet reader consumes exactly this packet, hands exactly its bytes to the codec and leaves what follows.
\<close>

theorem client_connect_read:
  assumes "byte_stream tr incoming good" "good s" "build_connect_packet opt buf = Some (buf', n)"
    and "incoming s = take n buf' @ rest" "129 \<le> m"
  shows "\<exists>s'. read_packet mq tr m s = (Some (case decode_slice mq (connect_packet opt) of
        Inl e \<Rightarrow> Inl (ReadProtocol e) | Inr (Some p) \<Rightarrow> Inr p
      | Inr None \<Rightarrow> Inl (ReadProtocol InvalidLength)), s') \<and> incoming s' = rest \<and> good s'"
proof -
  let ?L = "length (connect_body opt)"
  have L: "?L \<le> 127" and packet: "take n buf' = 0x10 # [word_of_nat ?L] @ connect_body opt"
    using build_connect_spec [of opt buf] assms(3) by (simp_all add: connect_packet_def)
  with byte_stream.read_packet_stream [OF assms(1,2), of "[word_of_nat ?L]" "connect_body opt" m "0x10" rest mq]
    short_varint [OF L] assms(4,5)
  show ?thesis
    by (simp add: connect_packet_def)
qed

theorem client_connect_read_witness:
  "\<exists>buf' n s' r. build_connect_packet default_options (replicate 256 0) = Some (buf', n)
     \<and> read_packet example_codec mock_transport_ops 256 (mock_feed (take n buf' @ [0xC0]) mock_new) = (Some r, s')
     \<and> mock_incoming s' = [0xC0]"
proof -
  have "length (connect_body default_options) = 42"
    by (simp add: connect_body_def default_options_def optional_field_def)
  then obtain buf' n where b: "build_connect_packet default_options (replicate 256 0) = Some (buf', n)"
    using build_connect_spec [of default_options "replicate 256 0"] by (auto split: option.splits)
  let ?s = "mock_feed (take n buf' @ [0xC0]) mock_new"
  have "mock_good ?s" "mock_incoming ?s = take n buf' @ [0xC0]"
    by (simp_all add: mock_good_def mock_incoming_def mock_feed_def mock_new_def)
  from client_connect_read [OF mock.byte_stream_axioms this(1) b this(2), of 256 example_codec] b show ?thesis
    by auto
qed

text \<open>
  The packet says what the options say. Two sets of options that give the same packet have the same client
  identifier, user name and password, and keep-alive intervals that agree in their lower 16 bits: a longer interval is
  cut off, without an error.
\<close>

theorem client_connect_faithful:
  assumes "build_connect_packet opt buf = Some (b, n)" "build_connect_packet opt' buf' = Some (b', n')"
    and "take n b = take n' b'"
  shows "opt_client_id opt = opt_client_id opt' \<and> opt_username opt = opt_username opt' \<and> opt_password opt = opt_password opt'
    \<and> unat (opt_keep_alive opt) mod 2 ^ 16 = unat (opt_keep_alive opt') mod 2 ^ 16"
proof -
  have "connect_packet opt = connect_packet opt'" "length (connect_body opt) \<le> 127"
    using build_connect_spec [of opt buf] build_connect_spec [of opt' buf'] assms by simp_all
  then have eq: "opt_client_id opt = opt_client_id opt'" "opt_username opt = opt_username opt'"
      "opt_password opt = opt_password opt'" "(ucast (opt_keep_alive opt) :: u16) = ucast (opt_keep_alive opt')"
    using connect_body_inj [of opt opt'] by (simp_all add: connect_packet_def)
  have "unat (ucast w :: u16) = unat w mod 2 ^ 16" for w :: u32
    by (simp add: unsigned_ucast_eq take_bit_eq_mod)
  with eq show ?thesis
    by metis
qed

theorem client_connect_faithful_witness:
  "\<exists>b n. build_connect_packet default_options (replicate 256 0) = Some (b, n)
     \<and> build_connect_packet (default_options\<lparr>opt_keep_alive := 65566\<rparr>) (replicate 256 0) = Some (b, n)
     \<and> unat (30 :: u32) mod 2 ^ 16 = unat (65566 :: u32) mod 2 ^ 16"
proof -
  let ?long = "default_options\<lparr>opt_keep_alive := 65566\<rparr>"
  have fields: "opt_client_id ?long = opt_client_id default_options" "opt_username ?long = opt_username default_options"
    "opt_password ?long = opt_password default_options" "connect_flags ?long = connect_flags default_options"
    "(ucast (opt_keep_alive ?long) :: u16) = ucast (opt_keep_alive default_options)"
    by (simp_all add: default_options_def connect_flags_def)
  have same: "build_connect_packet ?long (replicate 256 0) = build_connect_packet default_options (replicate 256 0)"
    by (simp only: build_connect_packet_def fields)
  have "length (connect_body default_options) = 42"
    by (simp add: connect_body_def default_options_def optional_field_def)
  then obtain b n where b: "build_connect_packet default_options (replicate 256 0) = Some (b, n)"
    using build_connect_spec [of default_options "replicate 256 0"] by (auto split: option.splits)
  from client_connect_faithful [OF b same [unfolded b] refl] b same show ?thesis
    by (auto simp: default_options_def)
qed


text \<open>A library that takes everything at once and delivers an accepting CONNACK.\<close>

definition example_ssl :: "(bytes \<times> bytes) mbedtls" where
  "example_ssl =
     \<lparr>ssl_setup = (\<lambda>_ _ s. (0, s)), ssl_handshake = (\<lambda>s. (0, s)),
      ssl_write = (\<lambda>bs (sent, got). (int (length bs), sent @ bs, got)),
      ssl_read = (\<lambda>n (sent, got). let bs = take n (drop (length got) [0x20, 0x02, 0x01, 0x00]) in (int (length bs), bs, sent, got @ bs)),
      ssl_close_notify = (\<lambda>s. (0, s)), SSL_WANT_READ = - 26880, SSL_WANT_WRITE = - 26752, SSL_CONN_EOF = - 29312\<rparr>"

lemma example_ssl_log: "ssl_log example_ssl fst snd" "SSL_CONN_EOF example_ssl \<noteq> 0" "ssl_prompt example_ssl"
    "ssl_progress example_ssl"
  by (auto simp: ssl_progress_def ssl_log_def example_ssl_def ssl_prompt_def ssl_wants_def Let_def split: if_splits)

lemma example_ssl_write: "bs \<noteq> [] \<Longrightarrow> ssl_write_all example_ssl bs 0 s = Some (0, fst s @ bs, snd s)"
  by (subst ssl_write_all.simps, simp add: example_ssl_def case_prod_unfold, subst ssl_write_all.simps, simp)

lemma example_ssl_read: "ssl_read_exact example_ssl 4 [] (sent, []) = Some (0, [0x20, 0x02, 0x01, 0x00], sent, [0x20, 0x02, 0x01, 0x00])"
proof -
  have "ssl_read example_ssl 4 (sent, []) = (4, [0x20, 0x02, 0x01, 0x00], sent, [0x20, 0x02, 0x01, 0x00])"
    by (simp add: example_ssl_def Let_def)
  then show ?thesis
    by (simp add: ssl_read_exact.simps [of _ _ "[]"] ssl_read_exact.simps [of _ _ "[_, _, _, _]"])
qed

lemma example_ssl_session:
  assumes "packet \<noteq> []"
  shows "client_session example_ssl packet ([], []) = Some (0, packet @ [0xE0, 0x00], [0x20, 0x02, 0x01, 0x00])"
proof -
  have "ssl_retry example_ssl (ssl_handshake example_ssl) s = Some (0, s)"
    "ssl_retry example_ssl (ssl_close_notify example_ssl) s = Some (0, s)" for s
    by (simp_all add: ssl_retry_returns ssl_wants_def example_ssl_def)
  with assms show ?thesis
    by (simp add: client_session_def example_ssl_write example_ssl_read)
qed


text \<open>
  Two readers of hexadecimal text. The client's \<open>decode_hex\<close> accepts exactly texts of hexadecimal digits, of even
  length and not too long, and then agrees with \<open>parse_hex_blob\<close> of the key-schedule program, so that both read
  back what the latter prints.
\<close>

theorem hex_readers_agree:
  "decode_hex hex n =
      (if even (length hex) \<and> length hex div 2 \<le> n \<and> list_all is_ascii_hexdigit hex then parse_hex_blob hex else None)
   \<and> decode_hex (encode_lower bs) (length bs) = Some bs \<and> parse_hex_blob (encode_lower bs) = Some bs"
  by (simp add: decode_hex_iff encode_lower_hex parse_hex_blob_def filter_all)

end
