(* ===== verification/Host_Server.thy ===== *)
theory Host_Server
  imports Tls_Psk
begin

text \<open>
  The TLS echo server for interoperability tests, \<^verbatim>\<open>tools/host_tls_psk_server/src/main.rs\<close>. It drives the same
  engine as the broker's TLS session and adds one operation of it, \<open>decrypt_app_data\<close>. The socket of the crate
  \<open>tokio\<close> is a parameter. The two loops end when the peer closes the connection, so that they are partial functions
  and \<open>None\<close> means that they do not return; over a stream that ends they are proved to return.
\<close>

section \<open>The socket and the engine\<close>

record ('s, 'e) tcp_stream =
  tcp_read_exact :: "nat \<Rightarrow> 's \<Rightarrow> ('e + bytes) \<times> 's"
  tcp_write_all :: "bytes \<Rightarrow> 's \<Rightarrow> ('e + unit) \<times> 's"
  tcp_flush :: "'s \<Rightarrow> ('e + unit) \<times> 's"

record ('i, 'd, 't) echo_engine = "('i, 'd, 't) tls_engine" +
  decrypt_app_data :: "bytes \<Rightarrow> nat \<Rightarrow> 'i \<Rightarrow> ('t + bytes) \<times> 'i"

section \<open>Records\<close>

definition MAX_RECORD_LEN :: nat where
  "MAX_RECORD_LEN = 18 * 1024"

datatype ('e, 't) server_error = SrvIo 'e | SrvRecordTooLarge nat nat | SrvUnexpectedRecord u8 | SrvTls 't
  | SrvHelloRetry

definition read_record :: "('s, 'e) tcp_stream \<Rightarrow> 's \<Rightarrow> (('e, 't) server_error + bytes) \<times> 's" where
  "read_record st s =
     (case tcp_read_exact st RECORD_HEADER_LEN s of
        (Inl e, s1) \<Rightarrow> (Inl (SrvIo e), s1)
      | (Inr header, s1) \<Rightarrow>
          (let body_len = unat (u16_from_be_bytes (header ! 3) (header ! 4))
           in if body_len > MAX_RECORD_LEN - RECORD_HEADER_LEN
              then (Inl (SrvRecordTooLarge body_len (MAX_RECORD_LEN - RECORD_HEADER_LEN)), s1)
              else (case tcp_read_exact st body_len s1 of
                      (Inl e, s2) \<Rightarrow> (Inl (SrvIo e), s2)
                    | (Inr body, s2) \<Rightarrow> (Inr (header @ body), s2))))"

section \<open>A connection\<close>

definition send_flushed :: "('s, 'e) tcp_stream \<Rightarrow> bytes \<Rightarrow> 's \<Rightarrow> (('e, 't) server_error + unit) \<times> 's" where
  "send_flushed st bs s =
     (case tcp_write_all st bs s of
        (Inl e, s1) \<Rightarrow> (Inl (SrvIo e), s1)
      | (Inr _, s1) \<Rightarrow>
          (case tcp_flush st s1 of
             (Inl e, s2) \<Rightarrow> (Inl (SrvIo e), s2)
           | (Inr _, s2) \<Rightarrow> (Inr (), s2)))"

partial_function (option) await_finished ::
  "('s, 'e) tcp_stream \<Rightarrow> 's \<Rightarrow> ((('e, 't) server_error + bytes) \<times> 's) option" where
  "await_finished st s =
     (case read_record st s of
        (Inl e, s1) \<Rightarrow> Some (Inl e, s1)
      | (Inr rec, s1) \<Rightarrow>
          if rec ! 0 = TLS_CT_CHANGE_CIPHER_SPEC then await_finished st s1
          else if rec ! 0 = TLS_CT_APPLICATION_DATA then Some (Inr rec, s1)
          else Some (Inl (SrvUnexpectedRecord (rec ! 0)), s1))"

definition echo_response :: "bytes \<Rightarrow> bytes" where
  "echo_response plaintext = str_bytes ''echo: '' @ plaintext"

text \<open>
  The loop ends with success when reading fails, at a record of another type and when decryption fails; only a reply that
  cannot be encrypted or written ends it with an error.
\<close>

partial_function (option) echo_loop ::
  "('i, 'd, 't) echo_engine \<Rightarrow> ('s, 'e) tcp_stream \<Rightarrow> 'i \<Rightarrow> 's \<Rightarrow> ((('e, 't) server_error + unit) \<times> 's) option" where
  "echo_loop eng st i s =
     (case (read_record st s :: (('e, 't) server_error + bytes) \<times> 's) of
        (Inl _, s1) \<Rightarrow> Some (Inr (), s1)
      | (Inr rec, s1) \<Rightarrow>
          if rec ! 0 = TLS_CT_CHANGE_CIPHER_SPEC then echo_loop eng st i s1
          else if rec ! 0 \<noteq> TLS_CT_APPLICATION_DATA then Some (Inr (), s1)
          else (case decrypt_app_data eng rec MAX_RECORD_LEN i of
                  (Inl _, i1) \<Rightarrow> Some (Inr (), s1)
                | (Inr plaintext, i1) \<Rightarrow>
                    (case encrypt_app_data eng (echo_response plaintext) MAX_RECORD_LEN i1 of
                       (Inl e, i2) \<Rightarrow> Some (Inl (SrvTls e), s1)
                     | (Inr cipher, i2) \<Rightarrow>
                         (case send_flushed st cipher s1 of
                            (Inl e, s2) \<Rightarrow> Some (Inl e, s2)
                          | (Inr _, s2) \<Rightarrow> echo_loop eng st i2 s2))))"

definition server_hello ::
  "('i, 'd, 't) echo_engine \<Rightarrow> bytes \<Rightarrow> bytes \<Rightarrow> bytes \<Rightarrow> bytes \<Rightarrow> ('t + handshake_output) \<times> 'i" where
  "server_hello eng identity psk random hello =
     process_client_hello eng (drop RECORD_HEADER_LEN hello)
       \<lparr>sc_psk = (identity, psk), sc_server_random = random, sc_dhe_keypair = None\<rparr> (4 * 1024) (te_new eng)"

definition serve_session ::
  "('i, 'd, 't) echo_engine \<Rightarrow> ('s, 'e) tcp_stream \<Rightarrow> bytes \<Rightarrow> 'i \<Rightarrow> 's
     \<Rightarrow> ((('e, 't) server_error + unit) \<times> 's) option" where
  "serve_session eng st flight i s =
     (case send_flushed st flight s of
        (Inl e, s1) \<Rightarrow> Some (Inl e, s1)
      | (Inr _, s1) \<Rightarrow>
          (case await_finished st s1 of
             None \<Rightarrow> None
           | Some (Inl e, s2) \<Rightarrow> Some (Inl e, s2)
           | Some (Inr finished_record, s2) \<Rightarrow>
               (case process_client_finished eng finished_record i of
                  (Inl e, _) \<Rightarrow> Some (Inl (SrvTls e), s2)
                | (Inr _, i1) \<Rightarrow> echo_loop eng st i1 s2)))"

definition handle_connection ::
  "('i, 'd, 't) echo_engine \<Rightarrow> ('s, 'e) tcp_stream \<Rightarrow> bytes \<Rightarrow> bytes \<Rightarrow> bytes \<Rightarrow> 's
     \<Rightarrow> ((('e, 't) server_error + unit) \<times> 's) option" where
  "handle_connection eng st identity psk random s =
     (case read_record st s of
        (Inl e, s1) \<Rightarrow> Some (Inl e, s1)
      | (Inr ch_record, s1) \<Rightarrow>
          if ch_record ! 0 \<noteq> TLS_CT_HANDSHAKE then Some (Inl (SrvUnexpectedRecord (ch_record ! 0)), s1)
          else (case server_hello eng identity psk random ch_record of
                  (Inl e, i) \<Rightarrow> Some (Inl (SrvTls e), s1)
                | (Inr (HelloRetryRequest _), i) \<Rightarrow> Some (Inl SrvHelloRetry, s1)
                | (Inr (FirstFlight flight), i) \<Rightarrow> serve_session eng st flight i s1))"

section \<open>What the server answers, as a function of the records it receives\<close>

text \<open>
  What is relied on of a connection that lasts until the peer has closed it: reading gives the bytes in order and
  fails when too few are left, writing and flushing succeed. \<open>incoming\<close> is what the peer has still to
  be read, \<open>sent\<close> what was written.
\<close>

definition tcp_in_order :: "('s, 'e) tcp_stream \<Rightarrow> ('s \<Rightarrow> bytes) \<Rightarrow> ('s \<Rightarrow> bytes) \<Rightarrow> bool" where
  "tcp_in_order st incoming sent \<longleftrightarrow>
     (\<forall>n s. n \<le> length (incoming s) \<longrightarrow>
        (\<exists>s'. tcp_read_exact st n s = (Inr (take n (incoming s)), s') \<and> incoming s' = drop n (incoming s) \<and> sent s' = sent s))
     \<and> (\<forall>n s. length (incoming s) < n \<longrightarrow> (\<exists>e s'. tcp_read_exact st n s = (Inl e, s') \<and> sent s' = sent s))
     \<and> (\<forall>bs s. \<exists>s'. tcp_write_all st bs s = (Inr (), s') \<and> incoming s' = incoming s \<and> sent s' = sent s @ bs)
     \<and> (\<forall>s. \<exists>s'. tcp_flush st s = (Inr (), s') \<and> incoming s' = incoming s \<and> sent s' = sent s)"

text \<open>The complete records at the front of a byte stream.\<close>

function records :: "bytes \<Rightarrow> bytes list" where
  "records w = (case next_record MAX_RECORD_LEN w of None \<Rightarrow> [] | Some (r, w') \<Rightarrow> r # records w')"
  by pat_completeness auto

termination
  by (relation "measure length") (auto dest: next_record_SomeD)

declare records.simps [simp del]

definition is_ccs :: "bytes \<Rightarrow> bool" where
  "is_ccs r \<longleftrightarrow> r ! 0 = TLS_CT_CHANGE_CIPHER_SPEC"

text \<open>The answers to records none of which is a change-cipher-spec, and whether the loop ends with success.\<close>

fun answers :: "('i, 'd, 't) echo_engine \<Rightarrow> 'i \<Rightarrow> bytes list \<Rightarrow> bool \<times> bytes list" where
  "answers eng i [] = (True, [])"
| "answers eng i (r # rs) =
     (if r ! 0 \<noteq> TLS_CT_APPLICATION_DATA then (True, [])
      else case decrypt_app_data eng r MAX_RECORD_LEN i of
             (Inl _, _) \<Rightarrow> (True, [])
           | (Inr p, i1) \<Rightarrow>
               (case encrypt_app_data eng (echo_response p) MAX_RECORD_LEN i1 of
                  (Inl _, _) \<Rightarrow> (False, [])
                | (Inr c, i2) \<Rightarrow> apsnd ((#) c) (answers eng i2 rs)))"

definition session_transcript :: "('i, 'd, 't) echo_engine \<Rightarrow> bytes \<Rightarrow> 'i \<Rightarrow> bytes list \<Rightarrow> bool \<times> bytes list" where
  "session_transcript eng flight i recs =
     apsnd ((#) flight)
       (case filter (\<lambda>r. \<not> is_ccs r) recs of
          [] \<Rightarrow> (False, [])
        | finished # rs \<Rightarrow>
            if finished ! 0 \<noteq> TLS_CT_APPLICATION_DATA then (False, [])
            else (case process_client_finished eng finished i of
                    (Inl _, _) \<Rightarrow> (False, [])
                  | (Inr _, i1) \<Rightarrow> answers eng i1 rs))"

definition server_transcript ::
  "('i, 'd, 't) echo_engine \<Rightarrow> bytes \<Rightarrow> bytes \<Rightarrow> bytes \<Rightarrow> bytes list \<Rightarrow> bool \<times> bytes list" where
  "server_transcript eng identity psk random recs =
     (case recs of
        [] \<Rightarrow> (False, [])
      | hello # rs \<Rightarrow>
          if hello ! 0 \<noteq> TLS_CT_HANDSHAKE then (False, [])
          else (case server_hello eng identity psk random hello of
                  (Inr (FirstFlight flight), i) \<Rightarrow> session_transcript eng flight i rs
                | _ \<Rightarrow> (False, [])))"

lemma records_None: "next_record MAX_RECORD_LEN w = None \<Longrightarrow> records w = []"
  by (subst records.simps) simp

lemma records_Some: "next_record MAX_RECORD_LEN w = Some (r, w') \<Longrightarrow> records w = r # records w'"
  by (subst records.simps) simp

lemma read_record_ok:
  assumes "tcp_in_order st incoming sent" "next_record MAX_RECORD_LEN (incoming s) = Some (r, w)"
  obtains s' where "read_record st s = (Inr r, s')" "incoming s' = w" "sent s' = sent s"
proof -
  let ?w = "incoming s"
  let ?k = "unat (u16_from_be_bytes (?w ! 3) (?w ! 4))"
  have n: "5 \<le> length ?w" "5 + ?k \<le> MAX_RECORD_LEN" "5 + ?k \<le> length ?w" "r = take (5 + ?k) ?w" "w = drop (5 + ?k) ?w"
    using assms(2) by (auto simp: next_record_def Let_def split: if_splits)
  obtain s1 where s1: "tcp_read_exact st 5 s = (Inr (take 5 ?w), s1)" "incoming s1 = drop 5 ?w" "sent s1 = sent s"
    using assms(1) n(1) unfolding tcp_in_order_def by blast
  have "?k \<le> length (incoming s1)"
    using n(3) by (simp add: s1(2))
  then obtain s2 where s2: "tcp_read_exact st ?k s1 = (Inr (take ?k (incoming s1)), s2)"
      "incoming s2 = drop ?k (incoming s1)" "sent s2 = sent s1"
    using assms(1) unfolding tcp_in_order_def by blast
  have "\<not> ?k > MAX_RECORD_LEN - 5" using n(2) by simp
  then have "read_record st s = (Inr (take 5 ?w @ take ?k (drop 5 ?w)), s2)"
    using s1(1,2) s2(1) by (simp add: read_record_def RECORD_HEADER_LEN_def Let_def)
  then show thesis
    using that s1 s2 n by (simp add: take_add add.commute)
qed

lemma read_record_none:
  assumes "tcp_in_order st incoming sent" "next_record MAX_RECORD_LEN (incoming s) = None"
  obtains e s' where "read_record st s = (Inl e, s')" "sent s' = sent s"
proof (cases "length (incoming s) < 5")
  case True
  then obtain e s1 where "tcp_read_exact st 5 s = (Inl e, s1)" "sent s1 = sent s"
    using assms(1) unfolding tcp_in_order_def by blast
  then show thesis using that by (simp add: read_record_def RECORD_HEADER_LEN_def)
next
  case False
  let ?w = "incoming s"
  let ?k = "unat (u16_from_be_bytes (?w ! 3) (?w ! 4))"
  obtain s1 where s1: "tcp_read_exact st 5 s = (Inr (take 5 ?w), s1)" "incoming s1 = drop 5 ?w" "sent s1 = sent s"
    using assms(1) False unfolding tcp_in_order_def by (meson not_less)
  show thesis
  proof (cases "?k > MAX_RECORD_LEN - 5")
    case True
    then show thesis using that s1 by (simp add: read_record_def RECORD_HEADER_LEN_def Let_def)
  next
    case le: False
    then have "length (incoming s1) < ?k"
      using assms(2) False s1(2) by (auto simp: next_record_def Let_def MAX_RECORD_LEN_def split: if_splits)
    then obtain e s2 where "tcp_read_exact st ?k s1 = (Inl e, s2)" "sent s2 = sent s1"
      using assms(1) unfolding tcp_in_order_def by blast
    then show thesis using that s1 le by (simp add: read_record_def RECORD_HEADER_LEN_def Let_def)
  qed
qed

lemma send_flushed_ok:
  assumes "tcp_in_order st incoming sent"
  obtains s' where "send_flushed st bs s = (Inr (), s')" "incoming s' = incoming s" "sent s' = sent s @ bs"
proof -
  obtain s1 where s1: "tcp_write_all st bs s = (Inr (), s1)" "incoming s1 = incoming s" "sent s1 = sent s @ bs"
    using assms unfolding tcp_in_order_def by blast
  obtain s2 where "tcp_flush st s1 = (Inr (), s2)" "incoming s2 = incoming s1" "sent s2 = sent s1"
    using assms unfolding tcp_in_order_def by blast
  with s1 show thesis using that by (simp add: send_flushed_def)
qed

lemma records_cases:
  fixes st :: "('s, 'e) tcp_stream"
  assumes "tcp_in_order st incoming sent"
  obtains (no_record) e s' where "records (incoming s) = []" "read_record st s = (Inl e :: ('e, 't) server_error + bytes, s')" "sent s' = sent s"
  | (a_record) r s' where "records (incoming s) = r # records (incoming s')" "read_record st s = (Inr r :: ('e, 't) server_error + bytes, s')"
      "sent s' = sent s" "length (incoming s') < length (incoming s)"
proof (cases "next_record MAX_RECORD_LEN (incoming s)")
  case None
  obtain e s' where "read_record st s = (Inl e :: ('e, 't) server_error + bytes, s')" "sent s' = sent s"
    by (rule read_record_none [OF assms None])
  then show thesis by (rule no_record [OF records_None [OF None]])
next
  case (Some rw)
  obtain r w where rw: "next_record MAX_RECORD_LEN (incoming s) = Some (r, w)"
    using Some by (cases rw) simp
  obtain s' where "read_record st s = (Inr r :: ('e, 't) server_error + bytes, s')" "incoming s' = w" "sent s' = sent s"
    by (rule read_record_ok [OF assms rw])
  then show thesis
    using a_record [of r s'] records_Some [OF rw] next_record_SomeD(4) [OF rw] by simp
qed

lemma await_finished_exact:
  fixes st :: "('s, 'e) tcp_stream"
  assumes "tcp_in_order st incoming sent"
  shows "\<exists>x s'. await_finished st s = Some (x :: ('e, 't) server_error + bytes, s') \<and> sent s' = sent s
    \<and> (case filter (\<lambda>r. \<not> is_ccs r) (records (incoming s)) of
         [] \<Rightarrow> isl x
       | r # rs \<Rightarrow> if r ! 0 = TLS_CT_APPLICATION_DATA
                 then x = Inr r \<and> filter (\<lambda>r. \<not> is_ccs r) (records (incoming s')) = rs else isl x)"
proof (induction "length (incoming s)" arbitrary: s rule: less_induct)
  case less
  show ?case
  proof (cases rule: records_cases [OF assms, of s, where 't = 't])
    case no_record: (1 e s')
    then show ?thesis by (simp add: await_finished.simps)
  next
    case a_record: (2 r s')
    show ?thesis
    proof (cases "is_ccs r")
      case True
      then have "await_finished st s = (await_finished st s' :: ((('e, 't) server_error + bytes) \<times> 's) option)"
        using a_record by (subst await_finished.simps) (simp add: is_ccs_def)
      then show ?thesis using less.hyps [OF a_record(4)] a_record(1,3) True by simp
    next
      case False
      then have "await_finished st s = Some (if r ! 0 = TLS_CT_APPLICATION_DATA then Inr r
          else Inl (SrvUnexpectedRecord (r ! 0) :: ('e, 't) server_error), s')"
        using a_record by (subst await_finished.simps) (simp add: is_ccs_def)
      then show ?thesis using a_record(1,3) False by simp
    qed
  qed
qed

lemma echo_loop_exact:
  fixes st :: "('s, 'e) tcp_stream" and eng :: "('i, 'd, 't) echo_engine"
  assumes "tcp_in_order st incoming sent"
  shows "\<exists>x s'. echo_loop eng st i s = Some (x, s')
    \<and> isl x = (\<not> fst (answers eng i (filter (\<lambda>r. \<not> is_ccs r) (records (incoming s)))))
    \<and> sent s' = sent s @ concat (snd (answers eng i (filter (\<lambda>r. \<not> is_ccs r) (records (incoming s)))))"
proof (induction "length (incoming s)" arbitrary: i s rule: less_induct)
  case less
  show ?case
  proof (cases rule: records_cases [OF assms, of s, where 't = 't])
    case no_record: (1 e s')
    then show ?thesis by (simp add: echo_loop.simps)
  next
    case a_record: (2 r s')
    consider (ccs) "is_ccs r" | (other) "\<not> is_ccs r" "r ! 0 \<noteq> TLS_CT_APPLICATION_DATA"
      | (refused) e i1 where "\<not> is_ccs r" "r ! 0 = TLS_CT_APPLICATION_DATA" "decrypt_app_data eng r MAX_RECORD_LEN i = (Inl e, i1)"
      | (full) p i1 e i2 where "\<not> is_ccs r" "r ! 0 = TLS_CT_APPLICATION_DATA" "decrypt_app_data eng r MAX_RECORD_LEN i = (Inr p, i1)"
          "encrypt_app_data eng (echo_response p) MAX_RECORD_LEN i1 = (Inl e, i2)"
      | (reply) p i1 c i2 where "\<not> is_ccs r" "r ! 0 = TLS_CT_APPLICATION_DATA" "decrypt_app_data eng r MAX_RECORD_LEN i = (Inr p, i1)"
          "encrypt_app_data eng (echo_response p) MAX_RECORD_LEN i1 = (Inr c, i2)"
      by (metis old.sum.exhaust surj_pair)
    then show ?thesis
    proof cases
      case ccs
      then have "echo_loop eng st i s = echo_loop eng st i s'"
        using a_record by (subst echo_loop.simps) (simp add: is_ccs_def)
      then show ?thesis using less.hyps [OF a_record(4), of i] a_record(1,3) ccs by simp
    next
      case reply
      obtain s2 where s2: "send_flushed st c s' = (Inr () :: ('e, 't) server_error + unit, s2)" "incoming s2 = incoming s'"
          "sent s2 = sent s' @ c"
        by (rule send_flushed_ok [OF assms])
      then have "echo_loop eng st i s = echo_loop eng st i2 s2"
        using a_record reply by (subst echo_loop.simps) (simp add: is_ccs_def)
      then show ?thesis using less.hyps [of s2 i2] a_record reply s2 by (simp add: split_beta)
    qed (use a_record in \<open>simp_all add: echo_loop.simps [of eng st i s] is_ccs_def\<close>)
  qed
qed

lemma serve_session_exact:
  fixes st :: "('s, 'e) tcp_stream" and eng :: "('i, 'd, 't) echo_engine"
  assumes "tcp_in_order st incoming sent"
  shows "\<exists>x s'. serve_session eng st flight i s = Some (x, s')
    \<and> isl x = (\<not> fst (session_transcript eng flight i (records (incoming s))))
    \<and> sent s' = sent s @ concat (snd (session_transcript eng flight i (records (incoming s))))"
proof -
  obtain s1 where s1: "send_flushed st flight s = (Inr () :: ('e, 't) server_error + unit, s1)" "incoming s1 = incoming s"
      "sent s1 = sent s @ flight"
    by (rule send_flushed_ok [OF assms])
  let ?rs = "filter (\<lambda>r. \<not> is_ccs r) (records (incoming s))"
  obtain x s2 where s2: "await_finished st s1 = Some (x :: ('e, 't) server_error + bytes, s2)" "sent s2 = sent s1"
      "case ?rs of [] \<Rightarrow> isl x | r # rs \<Rightarrow> if r ! 0 = TLS_CT_APPLICATION_DATA
         then x = Inr r \<and> filter (\<lambda>r. \<not> is_ccs r) (records (incoming s2)) = rs else isl x"
    using await_finished_exact [OF assms, of s1, where 't = 't] s1(2) by auto
  show ?thesis
  proof (cases x)
    case (Inl e)
    then have "snd (session_transcript eng flight i (records (incoming s))) = [flight]"
        "\<not> fst (session_transcript eng flight i (records (incoming s)))"
      using s2(3) by (auto simp: session_transcript_def split: list.splits if_splits)
    then show ?thesis using s1 s2 Inl by (simp add: serve_session_def)
  next
    case (Inr r)
    then obtain rs where rs: "?rs = r # rs" "r ! 0 = TLS_CT_APPLICATION_DATA"
        "filter (\<lambda>r. \<not> is_ccs r) (records (incoming s2)) = rs"
      using s2(3) by (auto split: list.splits if_splits)
    obtain y i1 where y: "process_client_finished eng r i = (y, i1)" by fastforce
    show ?thesis
    proof (cases y)
      case (Inl e)
      then show ?thesis using s1 s2 Inr rs y by (simp add: serve_session_def session_transcript_def)
    next
      case in_r: (Inr u)
      then show ?thesis
        using echo_loop_exact [OF assms, of eng i1 s2] s1 s2 Inr rs y
        by (simp add: serve_session_def session_transcript_def)
    qed
  qed
qed

section \<open>Properties\<close>

text \<open>
  C24: On a connection that lasts until the peer has closed it, the echo server returns, whatever the peer sends. What it has
  written, and whether it reports an error, is a function of the complete records it received: nothing before a client
  hello that the engine accepts; then its first flight; and one answer for each record of application data after the
  client's finished message, with change-cipher-spec records ignored wherever they come, up to the first record
  that is not application data or that the engine refuses.
\<close>

theorem server_refines_transcript:
  fixes st :: "('s, 'e) tcp_stream" and eng :: "('i, 'd, 't) echo_engine"
  assumes "tcp_in_order st incoming sent"
  shows "\<exists>res s'. handle_connection eng st identity psk random s = Some (res, s')
    \<and> isl res = (\<not> fst (server_transcript eng identity psk random (records (incoming s))))
    \<and> sent s' = sent s @ concat (snd (server_transcript eng identity psk random (records (incoming s))))"
proof (cases rule: records_cases [OF assms, of s, where 't = 't])
  case no_record: (1 e s')
  then show ?thesis by (simp add: handle_connection_def server_transcript_def)
next
  case a_record: (2 r s')
  obtain y i where y: "server_hello eng identity psk random r = (y, i)" by fastforce
  consider (first) flight where "y = Inr (FirstFlight flight)" | (retry) bs where "y = Inr (HelloRetryRequest bs)"
    | (refused) e where "y = Inl e"
    by (metis handshake_output.exhaust old.sum.exhaust)
  then show ?thesis
  proof cases
    case first
    then show ?thesis
      using a_record y serve_session_exact [OF assms, of eng flight i s']
      by (simp add: handle_connection_def server_transcript_def)
  qed (use a_record y in \<open>simp_all add: handle_connection_def server_transcript_def\<close>)
qed

text \<open>For the witnesses: a connection as what is still to come and what was written, and the engine without cryptography.\<close>

definition wire_tcp :: "(bytes \<times> bytes, unit) tcp_stream" where
  "wire_tcp =
     \<lparr>tcp_read_exact = (\<lambda>n s. if n \<le> length (fst s) then (Inr (take n (fst s)), (drop n (fst s), snd s)) else (Inl (), s)),
      tcp_write_all = (\<lambda>bs s. (Inr (), (fst s, snd s @ bs))),
      tcp_flush = (\<lambda>s. (Inr (), s))\<rparr>"

lemma wire_tcp_in_order: "tcp_in_order wire_tcp fst snd"
  by (simp add: tcp_in_order_def wire_tcp_def)

definition null_echo_engine :: "(unit, unit, string) echo_engine" where
  "null_echo_engine = tls_engine.extend null_engine
     \<lparr>decrypt_app_data = (\<lambda>r n i. (if length r \<le> n + 5 then Inr (drop 5 r) else Inl ''space'', i))\<rparr>"

lemmas null_echo_defs = null_echo_engine_def null_engine_def tls_engine.extend_def

lemmas record_type_defs = TLS_CT_HANDSHAKE_def TLS_CT_CHANGE_CIPHER_SPEC_def TLS_CT_APPLICATION_DATA_def

lemmas example_records = records.simps next_record_def MAX_RECORD_LEN_def u16_from_be_bytes_def u16_to_be_bytes_def

definition hello_records :: bytes where
  "hello_records = [22, 3, 3, 0, 1, 9] @ [20, 3, 3, 0, 1, 1] @ null_record [1] @ null_record [65] @ [20, 3, 3, 0, 1, 1]
     @ null_record [66, 67] @ [23, 3]"

theorem server_refines_transcript_witness:
  "\<exists>res s'. handle_connection null_echo_engine wire_tcp [] [] [] (hello_records, []) = Some (res, s')
    \<and> isl res = (\<not> True)
    \<and> snd s' = [22, 22] @ null_record (str_bytes ''echo: A'') @ null_record (str_bytes ''echo: BC'')"
proof -
  have "records hello_records = [[22, 3, 3, 0, 1, 9], [20, 3, 3, 0, 1, 1], null_record [1], null_record [65],
      [20, 3, 3, 0, 1, 1], null_record [66, 67]]"
    by (simp add: hello_records_def null_record_def example_records)
  then have "server_transcript null_echo_engine [] [] [] (records hello_records)
      = (True, [[22, 22], null_record (str_bytes ''echo: A''), null_record (str_bytes ''echo: BC'')])"
    by (simp add: server_transcript_def session_transcript_def server_hello_def null_echo_defs null_record_def
        is_ccs_def record_type_defs echo_response_def str_bytes_def MAX_RECORD_LEN_def)
  then show ?thesis
    using server_refines_transcript [OF wire_tcp_in_order, of null_echo_engine "[]" "[]" "[]" "(hello_records, [])"] by simp
qed

text \<open>
  What is relied on of an engine whose peer is in step with it, as a relation between its state, the records to come, the
  messages they hold and the records sent: the next record decrypts to the next message, a message within the limit of
  TLS that fits the buffer with the overhead of a record is encrypted, and the peer opens it.
\<close>

definition echo_peer ::
  "('i, 'd, 't) echo_engine \<Rightarrow> ('i \<Rightarrow> bytes list \<Rightarrow> bytes list \<Rightarrow> bytes list \<Rightarrow> bool) \<Rightarrow> (bytes list \<Rightarrow> bytes list) \<Rightarrow> bool" where
  "echo_peer eng in_step opens \<longleftrightarrow>
     (\<forall>i r rs m ms out. in_step i (r # rs) (m # ms) out \<longrightarrow>
        (\<exists>i'. decrypt_app_data eng r MAX_RECORD_LEN i = (Inr m, i') \<and> in_step i' rs ms out))
     \<and> (\<forall>i rs ms out bs n. in_step i rs ms out \<longrightarrow> length bs \<le> 2 ^ 14 \<longrightarrow> length bs + 22 \<le> n \<longrightarrow>
          (\<exists>c i'. encrypt_app_data eng bs n i = (Inr c, i') \<and> in_step i' rs ms (out @ [c])
             \<and> opens (out @ [c]) = opens out @ [bs]))"

lemma answers_opened:
  assumes "echo_peer eng in_step opens" "in_step i rs ms out" "length rs = length ms"
    and "list_all (\<lambda>r. r ! 0 = TLS_CT_APPLICATION_DATA) rs" "list_all (\<lambda>m. length m \<le> 2 ^ 14 - 6) ms"
  shows "fst (answers eng i rs) \<and> opens (out @ snd (answers eng i rs)) = opens out @ map echo_response ms"
  using assms(3,2,4,5)
proof (induction rs ms arbitrary: i out rule: list_induct2)
  case (Cons r rs m ms)
  obtain i1 where i1: "decrypt_app_data eng r MAX_RECORD_LEN i = (Inr m, i1)" "in_step i1 rs ms out"
    using assms(1) Cons.prems(1) unfolding echo_peer_def by blast
  have l: "length (echo_response m) \<le> 2 ^ 14" "length (echo_response m) + 22 \<le> MAX_RECORD_LEN"
    using Cons.prems(3) by (simp_all add: echo_response_def MAX_RECORD_LEN_def length_str_bytes)
  obtain c i2 where i2: "encrypt_app_data eng (echo_response m) MAX_RECORD_LEN i1 = (Inr c, i2)"
      "in_step i2 rs ms (out @ [c])" "opens (out @ [c]) = opens out @ [echo_response m]"
    using assms(1) i1(2) l unfolding echo_peer_def by meson
  show ?case using Cons.IH [OF i2(2)] Cons.prems i1 i2 by simp
qed simp

text \<open>
  A client whose engine is in step with the server's and that sends messages of at most \<open>2 ^ 14 - 6\<close> bytes, with
  change-cipher-spec records anywhere in between, receives each message back behind the prefix \<open>echo:\<close>, in order, and the
  server then ends without an error.
\<close>

theorem echo_arrives:
  fixes st :: "('s, 'e) tcp_stream" and eng :: "('i, 'd, 't) echo_engine"
  assumes "tcp_in_order st incoming sent" "echo_peer eng in_step opens" "in_step i rs ms out" "length rs = length ms"
    and "filter (\<lambda>r. \<not> is_ccs r) (records (incoming s)) = rs" "list_all (\<lambda>r. r ! 0 = TLS_CT_APPLICATION_DATA) rs"
    and "list_all (\<lambda>m. length m \<le> 2 ^ 14 - 6) ms"
  shows "\<exists>replies s'. echo_loop eng st i s = Some (Inr (), s') \<and> sent s' = sent s @ concat replies
    \<and> opens (out @ replies) = opens out @ map echo_response ms"
proof -
  note a = answers_opened [OF assms(2-4,6,7)]
  obtain x s' where x: "echo_loop eng st i s = Some (x, s')" "isl x = (\<not> fst (answers eng i rs))"
      "sent s' = sent s @ concat (snd (answers eng i rs))"
    using echo_loop_exact [OF assms(1), of eng i s] unfolding assms(5) by blast
  then have "x = Inr ()" using a by (cases x) simp_all
  with x a show ?thesis by blast
qed

lemma null_echo_peer:
  "echo_peer null_echo_engine (\<lambda>_ rs ms _. ms = map (drop 5) rs \<and> list_all (\<lambda>r. length r \<le> MAX_RECORD_LEN) rs) (map (drop 5))"
  by (auto simp: echo_peer_def null_echo_defs null_record_def)

theorem echo_arrives_witness:
  "\<exists>replies s'. echo_loop null_echo_engine wire_tcp () (null_record [65] @ [20, 3, 3, 0, 1, 1] @ null_record [66, 67], []) = Some (Inr (), s')
     \<and> snd s' = concat replies \<and> map (drop 5) replies = [str_bytes ''echo: A'', str_bytes ''echo: BC'']"
proof -
  let ?w = "null_record [65] @ [20, 3, 3, 0, 1, 1] @ null_record [66, 67]"
  have "filter (\<lambda>r. \<not> is_ccs r) (records ?w) = [null_record [65], null_record [66, 67]]"
    by (simp add: null_record_def example_records is_ccs_def record_type_defs)
  moreover have e: "map echo_response [[65], [66, 67]] = [str_bytes ''echo: A'', str_bytes ''echo: BC'']"
    by code_simp
  ultimately show ?thesis
    using echo_arrives [OF wire_tcp_in_order null_echo_peer, where i = "()" and rs = "[null_record [65], null_record [66, 67]]"
        and ms = "[[65], [66, 67]]" and out = "[]" and s = "(?w, [])"]
    by (simp add: e MAX_RECORD_LEN_def TLS_CT_APPLICATION_DATA_def null_record_def)
qed

end
