(* ===== verification/Spec2Isabelle.thy ===== *)
theory Spec2Isabelle
  imports Config_Store Tls_Identity Plain_Workers Spin_Once Spin_Rwlock Host_Client Host_Server
begin

text \<open>
  \<^bold>\<open>picobrokerTLS: an MQTT broker for a microcontroller.\<close>

  The repository holds an MQTT 3.1.1 broker (\<^verbatim>\<open>crates/GatoMQTT\<close>), the configuration library of a smart-home
  board (\<^verbatim>\<open>crates/smartbox-config\<close>) and firmware that runs the broker on an ESP32-C3
  (\<^verbatim>\<open>examples/esp32c3_mqtt_server\<close>, with a vendored copy of the crate \<open>spin\<close>), and test programs for a
  desktop computer (\<^verbatim>\<open>tools\<close>). This development models them as
  functions of HOL and proves what makes them correct. Paths are relative to \<^verbatim>\<open>src\<close>.

  \<^bold>\<open>How the parts interact.\<close> The firmware's accept task hands each TCP connection to a worker. The worker wraps the
  socket in a transport, with TLS in between, and runs the connection loop on it. The loop reads frames, gives each packet to
  a handler, and the handlers work on state that all connections share under a lock: the registry of sessions with its pool
  of stored publishes, the retained messages and the per-session signals. Publishes are routed to the outboxes of
  other sessions, whose loops write them out. The configuration library is separate: it compiles a house
  configuration for a board, stores it in one of two slots and picks one at boot.

  \<^bold>\<open>Conventions.\<close> A Rust struct is a record, an enum a datatype, \<open>u8\<close> to \<open>u64\<close> are words of that width, \<open>usize\<close>
  is \<open>nat\<close> (a length or an index; the lock word of \<open>spin\<close>, which does count up to its width, is a 32-bit word).
  \<open>Result\<close> is a sum with the error on the left. A panic is the value \<open>None\<close>. Const generics are arguments or lengths of
  lists. \<open>heapless\<close> containers are lists whose capacity is checked where the code pushes. A mutable reference is an
  argument that is returned updated. An operation that fills a buffer returns the bytes it puts at the buffer's front.
  An asynchronous function is cut at its await points: a program counter says where it is, with the variables live there.

  \<^bold>\<open>Shared theories.\<close>
  \<^item> \<open>Prelude\<close>: machine integers with Rust's checked and saturating operations, results, bounded vectors, time.
  \<^item> \<open>Bytes\<close>: integers and text as bytes, writes into a buffer.
  \<^item> \<open>Mqtt_Types\<close>: the packets; \<^verbatim>\<open>qos.rs\<close> and \<^verbatim>\<open>config.rs\<close> of the broker. The packet codec
    \<open>mqttrs\<close> is a parameter, a record of an encoder and a decoder.

  \<^bold>\<open>The broker\<close>, \<^verbatim>\<open>crates/GatoMQTT/src\<close>.
  \<^item> \<open>Slot\<close> (\<^verbatim>\<open>slot.rs\<close>): a cell over possibly uninitialised storage; behaves as an option and never reads
    storage it does not own. The locale \<open>optional_cell\<close> is its interface.
  \<^item> \<open>Topics\<close> (\<^verbatim>\<open>topics.rs\<close>, \<open>topic_matches\<close> of \<^verbatim>\<open>router/subscriptions.rs\<close>,
    \<open>is_valid_filter\<close> of \<^verbatim>\<open>handler/subscribe.rs\<close>): the matching loop equals a level-by-level specification.
  \<^item> \<open>Rate_Limit\<close> (\<^verbatim>\<open>session/rate_limit.rs\<close>): how many messages any run of the token bucket admits.
  \<^item> \<open>Session_State\<close> (\<^verbatim>\<open>session/state.rs\<close>): packet identifiers, keep-alive, the next wake-up.
  \<^item> \<open>Registry\<close> (\<^verbatim>\<open>session/registry.rs\<close>): sessions, last wills and the reference-counted pool. The locale
    \<open>refcount_pool\<close> states the laws of the pool; the invariant \<open>registry_inv\<close> says that every count is the number of
    in-flight entries that hold the handle.
  \<^item> \<open>Retained\<close> (\<^verbatim>\<open>router/retained.rs\<close>): the store refines a finite map.
  \<^item> \<open>Dispatcher\<close> (\<^verbatim>\<open>router/dispatcher.rs\<close>): routing reaches exactly the matching sessions.
  \<^item> \<open>Transport\<close> (\<^verbatim>\<open>transport/\<close>): the trait, the mocks, and the TCP and TLS adapters. The locales
    \<open>byte_stream\<close> and \<open>byte_sink\<close> are what readers and writers rely on.
  \<^item> \<open>Frame\<close> (\<^verbatim>\<open>codec/frame.rs\<close>): reading a packet consumes exactly one frame and never indexes outside
    its buffer.
  \<^item> \<open>Connect\<close>, \<open>Subscribe\<close>, \<open>Publish\<close>, \<open>Retry\<close>, \<open>Disconnect\<close>
    (\<^verbatim>\<open>handler/connect.rs\<close>, \<^verbatim>\<open>subscribe.rs\<close>, \<^verbatim>\<open>publish.rs\<close>, \<^verbatim>\<open>command.rs\<close>,
    \<^verbatim>\<open>disconnect.rs\<close>, \<^verbatim>\<open>pingreq.rs\<close>, \<^verbatim>\<open>session/notify.rs\<close>): the handlers. Each has a lemma on what
    it does on every branch, and that it keeps the invariants. \<open>Publish\<close> shows that a publish reaches every subscriber it
    should, \<open>Retry\<close> that the indexed retransmission loop is the plain one over the entries, \<open>Disconnect\<close> what
    becomes of a last will.
  \<^item> \<open>Connection\<close> (\<^verbatim>\<open>handler/connection.rs\<close>): the loop as a program counter and a step function, and any
    number of loops interleaved with outbound publishes. The system invariant holds in every reachable state, and no step
    panics. Flushing an outbox is proved to drain it while other tasks add to it. The theory also shows how a stale connection
    removes its successor's session.
  \<^item> \<open>Tls_Identity\<close> (\<^verbatim>\<open>tls/mod.rs\<close>): the stored form of certificate and key, fingerprints, first boot. The
    locale \<open>identity_store_laws\<close> states what a store must do.
  \<^item> \<open>Tls_Psk\<close> (\<^verbatim>\<open>tls/embedded_tls_psk.rs\<close>): the TLS session over a byte stream is a byte stream again, so
    that the lemmas of \<open>Frame\<close> carry over, up to an empty record, which ends it; what is written arrives; nothing passes
    before the handshake is complete, in any run of the session's operations.

  \<^bold>\<open>The configuration library\<close>, \<^verbatim>\<open>crates/smartbox-config/src\<close>.
  \<^item> \<open>Config_Schema\<close> (\<^verbatim>\<open>ids.rs\<close>, \<^verbatim>\<open>schema.rs\<close>) and \<open>Config_Compiler\<close>
    (\<^verbatim>\<open>compiler.rs\<close>): validation accepts exactly the configurations that satisfy a declarative predicate, and
    compilation yields exactly the part that concerns the board, with all its references resolved.
  \<^item> \<open>Envelope\<close> (\<^verbatim>\<open>serialization.rs\<close>): header and CRC-32; round trip and error detection.
  \<^item> \<open>Config_Store\<close> (\<^verbatim>\<open>active_slot.rs\<close>, \<^verbatim>\<open>storage.rs\<close>, \<^verbatim>\<open>pipeline.rs\<close>,
    \<^verbatim>\<open>manager.rs\<close>): over any store that satisfies the locale \<open>config_store_laws\<close>, an activated update is what
    the next boot loads, a prepared one does not disturb it, and a corrupted one leads to safe boot.

  \<^bold>\<open>The firmware\<close>, \<^verbatim>\<open>examples/esp32c3_mqtt_server\<close>.
  \<^item> \<open>Worker_Pool\<close> (\<^verbatim>\<open>src/main.rs\<close>): the hand-over between the accept task and the TLS workers. The static
    buffers behind \<open>UnsafeCell\<close> are never aliased, and no accepted connection is forgotten.
  \<^item> \<open>Plain_Workers\<close> (\<^verbatim>\<open>src/main.rs\<close>, \<^verbatim>\<open>src/transport.rs\<close>): the build without TLS. Each worker
    owns heap buffers; no interleaving frees one twice, leaks one or frees one under a live socket. The transport
    is that of the broker crate.
  \<^item> \<open>Spin_Mutex\<close>, \<open>Spin_Once\<close>, \<open>Spin_Rwlock\<close> (\<^verbatim>\<open>vendor/spin-0.5.2/src\<close>): the locks, for threads that
    interleave at atomic operations. Mutual exclusion, no lost update, one initialisation; which debug assertions can
    fail, and when.

  \<^bold>\<open>The desktop programs\<close>, \<^verbatim>\<open>tools\<close>.
  \<^item> \<open>Key_Schedule\<close> (\<^verbatim>\<open>tls-spike/src/main.rs\<close>): HKDF equals the definition of RFC 5869, up to one block; the
    key schedule is total; hexadecimal text is read back.
  \<^item> \<open>Host_Client\<close> (\<^verbatim>\<open>host_tls_mqtt_client/tls_mqtt_client.c\<close>): arguments, key, CONNECT packet and session. The
    packet is read by the broker's \<open>read_packet\<close> as one frame, says what the options say, and exit code 0
    means that the broker answered that it accepted it.
  \<^item> \<open>Host_Server\<close> (\<^verbatim>\<open>host_tls_psk_server/src/main.rs\<close>): one connection of the echo server. What it writes is a
    function of the records it receives, and a client in step with it gets its messages back.

  \<^bold>\<open>Parameters and hypotheses.\<close> Code outside the repository is an argument of the definitions that call it: the codec
  \<open>mqttrs\<close> (\<open>mqttrs_fits\<close>: what it encodes fits the buffer; \<open>mqttrs_pids\<close>: it refuses packet identifier zero), the
  payload codec \<open>postcard\<close> (\<open>postcard_roundtrip\<close>), the time driver (\<open>secs_floor\<close>), sockets, the TLS engine
  (\<open>engine_fits\<close>, \<open>encrypt_fits\<close>, \<open>encrypt_room\<close>, \<open>peer_opens\<close>, \<open>echo_peer\<close>), SHA-256 and HMAC, the library mbedTLS
  (\<open>ssl_log\<close>, \<open>ssl_progress\<close>, \<open>ssl_prompt\<close>), the
  sockets of \<open>tokio\<close> (\<open>tcp_in_order\<close>), the heap allocator (\<open>alloc_fresh\<close>), the hardware random numbers and the command
  handler. The tasks that run while an outbox is flushed are an argument too (\<open>only_queue\<close>). Every theorem with such a
  hypothesis has a witness that instantiates the parameter with a concrete function.

  \<^bold>\<open>Loops and bounds.\<close> Almost every loop is a total function with a termination proof. The loops that the code itself
  does not bound are those that skip change-cipher-spec records of a TLS peer, the echo loop of the host server, the
  loops of the host client that repeat a call of mbedTLS for as long as it asks for that, and the flush of an outbox to
  which other tasks add meanwhile: they are partial functions whose value
  \<open>None\<close> means that they do not return. Over a stream that ends, with a library that does not ask for ever, and
  once the other tasks stop adding, they are proved to return. The readers-writer lock is correct for fewer than \<open>2 ^ 30\<close> threads, the capacity
  of its reader count. No fuel is used.

  \<^bold>\<open>Not modelled.\<close>
  \<^item> \<^verbatim>\<open>src/bootstrap.rs\<close>, \<^verbatim>\<open>src/tls_support.rs\<close> of the firmware: bring-up of Wi-Fi and peripherals through
    hardware crates, and a constant key.
  \<^item> Logging, \<open>Debug\<close> and \<open>Display\<close> output, and the derived \<open>serde\<close> code, which belongs to the payload codec.
  \<^item> Of the desktop programs: console output, the calls that set up mbedTLS (one operation of the parameter), the
    accept loop and command line of the echo server, and the published test vectors, which need the hash itself.
  \<^item> The cancellation of a read by \<open>select\<close> in the connection loop is modelled as the transport sees it: the bytes
    already taken from the stream are gone.
  \<^item> Other tasks between the critical sections of one \<open>cleanup_connection\<close>: the system runs the cleanup in one step.
  \<^item> The memory orderings of \<open>spin\<close>: each lock is a single atomic cell, and accesses are ordered as the operations on
    it.
\<close>

end
